(* ===== verification/Prelude.thy ===== *)
theory Prelude
  imports Main "HOL-Library.Signed_Division"
begin

section \<open>Shared vocabulary: errors, C++ integers, strings, rings\<close>

text \<open>
  What every component of the client uses: the value that stands for a C++
  exception or for undefined behaviour, arithmetic on \<open>int\<close> (32 bits,
  signed, overflow undefined, division truncating), the operations of
  \<open>std::string\<close> the code calls, and the arithmetic of positions on a ring of
  sequence numbers.
\<close>

subsection \<open>Outcomes\<close>

text \<open>
  A C++ function of the model returns a sum: the value on the right, or on the
  left the exception it throws or the undefined behaviour it runs into.
\<close>

datatype exn =
    Out_of_range
  | Bad_alloc
  | Bad_cast
  | Domain_error string
  | Runtime_error string
  | Invalid_client_input string
  | Option_exists_error string
  | Invalid_option_format_error string
  | Option_syntax_exception string
  | Option_not_exists_exception string
  | Missing_argument_exception string
  | Option_requires_argument_exception string
  | Option_not_has_argument_exception string string
  | Option_not_present_exception string
  | Argument_incorrect_type string
  | Option_required_exception string

datatype ub =
    Signed_overflow
  | Division_by_zero
  | Float_to_int
  | Null_dereference
  | Index_out_of_bounds
  | Invalid_range
  | Uninitialised_read
  | Buffer_overread
  | Missing_return

datatype failure = Throws exn | Undefined ub

type_synonym 'a res = "failure + 'a"

definition rbind :: "'a res \<Rightarrow> ('a \<Rightarrow> 'b res) \<Rightarrow> 'b res" where
  "rbind x f = (case x of Inl e \<Rightarrow> Inl e | Inr a \<Rightarrow> f a)"

lemma rbind_simps [simp]:
  "rbind (Inl e) f = Inl e"
  "rbind (Inr a) f = f a"
  by (simp_all add: rbind_def)

lemma rbind_Inr_iff: "rbind x f = Inr b \<longleftrightarrow> (\<exists>a. x = Inr a \<and> f a = Inr b)"
  by (cases x) simp_all

lemma rbind_Inl_iff: "rbind x f = Inl e \<longleftrightarrow> x = Inl e \<or> (\<exists>a. x = Inr a \<and> f a = Inl e)"
  by (cases x) auto

lemma rbind_cong [fundef_cong]:
  "x = y \<Longrightarrow> (\<And>a. y = Inr a \<Longrightarrow> f a = g a) \<Longrightarrow> rbind x f = rbind y g"
  by (cases y) simp_all

subsection \<open>The type \<open>int\<close> of C++\<close>

definition INT_MAX :: int where "INT_MAX = 2147483647"
definition INT_MIN :: int where "INT_MIN = - 2147483648"

definition in_int :: "int \<Rightarrow> bool" where
  "in_int x \<longleftrightarrow> INT_MIN \<le> x \<and> x \<le> INT_MAX"

named_theorems int_bounds
lemmas [int_bounds] = INT_MAX_def INT_MIN_def in_int_def

definition ret_int :: "int \<Rightarrow> int res" where
  "ret_int x = (if in_int x then Inr x else Inl (Undefined Signed_overflow))"

definition iadd :: "int \<Rightarrow> int \<Rightarrow> int res" where "iadd a b = ret_int (a + b)"
definition isub :: "int \<Rightarrow> int \<Rightarrow> int res" where "isub a b = ret_int (a - b)"
definition imul :: "int \<Rightarrow> int \<Rightarrow> int res" where "imul a b = ret_int (a * b)"

definition idiv :: "int \<Rightarrow> int \<Rightarrow> int res" where
  "idiv a b = (if b = 0 then Inl (Undefined Division_by_zero) else ret_int (a sdiv b))"

definition imod :: "int \<Rightarrow> int \<Rightarrow> int res" where
  "imod a b =
     (if b = 0 then Inl (Undefined Division_by_zero)
      else rbind (ret_int (a sdiv b)) (\<lambda>_. Inr (a smod b)))"

text \<open>Conversions: \<open>int\<close> to \<open>size_t\<close> wraps modulo \<open>2^64\<close>.\<close>

definition to_size_t :: "int \<Rightarrow> nat" where
  "to_size_t x = nat (x mod 2 ^ 64)"

lemma ret_int_in [simp]: "in_int x \<Longrightarrow> ret_int x = Inr x"
  by (simp add: ret_int_def)

lemma ret_int_Inr: "ret_int x = Inr y \<longleftrightarrow> in_int x \<and> y = x"
  by (auto simp: ret_int_def)

lemma iadd_in [simp]: "in_int (a + b) \<Longrightarrow> iadd a b = Inr (a + b)"
  by (simp add: iadd_def)

lemma isub_in [simp]: "in_int (a - b) \<Longrightarrow> isub a b = Inr (a - b)"
  by (simp add: isub_def)

lemma imul_in [simp]: "in_int (a * b) \<Longrightarrow> imul a b = Inr (a * b)"
  by (simp add: imul_def)

lemma sdiv_nonneg: "0 \<le> a \<Longrightarrow> 0 \<le> b \<Longrightarrow> (a::int) sdiv b = a div b"
  by (cases "a = 0"; cases "b = 0") (auto simp: signed_divide_int_def sgn_if)

lemma smod_nonneg: "0 \<le> a \<Longrightarrow> 0 \<le> b \<Longrightarrow> (a::int) smod b = a mod b"
  by (cases "a = 0") (auto simp: signed_modulo_int_def signed_divide_int_def sgn_if
        minus_div_mult_eq_mod)

lemma in_int_between: "in_int a \<Longrightarrow> in_int b \<Longrightarrow> a \<le> x \<Longrightarrow> x \<le> b \<Longrightarrow> in_int x"
  by (simp add: in_int_def)

lemma in_int_0 [simp]: "in_int 0"
  by (simp add: int_bounds)

lemma idiv_nonneg [simp]:
  assumes "0 \<le> a" and "0 < b" and "in_int a"
  shows "idiv a b = Inr (a div b)"
proof -
  have "0 \<le> a div b" "a div b \<le> a"
    using assms zdiv_mono2 [of a 1 b] by (auto simp: pos_imp_zdiv_nonneg_iff)
  then have "in_int (a div b)" using assms(3) by (meson in_int_0 in_int_between)
  then show ?thesis using assms by (simp add: idiv_def sdiv_nonneg)
qed

lemma imod_nonneg [simp]:
  assumes "0 \<le> a" and "0 < b" and "in_int a"
  shows "imod a b = Inr (a mod b)"
  using idiv_nonneg [OF assms] assms by (simp add: idiv_def imod_def smod_nonneg)

lemma to_size_t_nonneg [simp]: "0 \<le> x \<Longrightarrow> x < 2 ^ 64 \<Longrightarrow> to_size_t x = nat x"
  by (simp add: to_size_t_def)

subsection \<open>Strings\<close>

text \<open>
  \<open>std::string::substr\<close> with positions already converted to \<open>size_t\<close>: it
  throws \<open>out_of_range\<close> when the position is past the end and cuts the length
  at the end of the string. The one-argument form takes everything to the end.
\<close>

definition substr :: "string \<Rightarrow> nat \<Rightarrow> nat \<Rightarrow> string res" where
  "substr s i n = (if length s < i then Inl (Throws Out_of_range) else Inr (take n (drop i s)))"

definition substr_from :: "string \<Rightarrow> nat \<Rightarrow> string res" where
  "substr_from s i = (if length s < i then Inl (Throws Out_of_range) else Inr (drop i s))"

lemma substr_in [simp]: "i \<le> length s \<Longrightarrow> substr s i n = Inr (take n (drop i s))"
  by (simp add: substr_def)

lemma substr_from_in [simp]: "i \<le> length s \<Longrightarrow> substr_from s i = Inr (drop i s)"
  by (simp add: substr_from_def)

lemma substr_short: "length s < i \<Longrightarrow> substr s i n = Inl (Throws Out_of_range)"
  by (simp add: substr_def)

text \<open>Decimal digits, \<open>std::to_string (int)\<close> and \<open>operator>> (int)\<close>.\<close>

definition digit_char :: "nat \<Rightarrow> char" where
  "digit_char d = char_of (48 + d)"

definition is_digit :: "char \<Rightarrow> bool" where
  "is_digit c \<longleftrightarrow> 48 \<le> (of_char c :: nat) \<and> (of_char c :: nat) \<le> 57"

definition digit_val :: "char \<Rightarrow> nat" where
  "digit_val c = of_char c - 48"

definition is_space :: "char \<Rightarrow> bool" where
  "is_space c \<longleftrightarrow> c = CHR '' '' \<or> 9 \<le> (of_char c :: nat) \<and> (of_char c :: nat) \<le> 13"

fun nat_str :: "nat \<Rightarrow> string" where
  "nat_str n = (if n < 10 then [digit_char n] else nat_str (n div 10) @ [digit_char (n mod 10)])"

declare nat_str.simps [simp del]

definition to_string :: "int \<Rightarrow> string" where
  "to_string i = (if i < 0 then CHR ''-'' # nat_str (nat (- i)) else nat_str (nat i))"

definition digits_val :: "string \<Rightarrow> nat" where
  "digits_val s = foldl (\<lambda>v c. 10 * v + digit_val c) 0 s"

text \<open>
  Formatted input of an \<open>int\<close> in the C locale: skip white space; at the end of the
  stream nothing is stored (\<open>None\<close>: the variable keeps its old value); otherwise
  an optional sign and the longest run of digits, \<open>0\<close> when there is none, the
  nearest bound when the value does not fit.
\<close>

definition clamp_int :: "int \<Rightarrow> int" where
  "clamp_int x = max INT_MIN (min INT_MAX x)"

definition istream_int :: "string \<Rightarrow> int option" where
  "istream_int s =
     (case dropWhile is_space s of
        [] \<Rightarrow> None
      | c # cs \<Rightarrow>
          Some (if c = CHR ''-'' then clamp_int (- int (digits_val (takeWhile is_digit cs)))
                else if c = CHR ''+'' then clamp_int (int (digits_val (takeWhile is_digit cs)))
                else clamp_int (int (digits_val (takeWhile is_digit (c # cs))))))"

lemma of_char_digit_char: "d < 10 \<Longrightarrow> (of_char (digit_char d) :: nat) = 48 + d"
  by (simp add: digit_char_def)

lemma is_digit_digit_char [simp]: "d < 10 \<Longrightarrow> is_digit (digit_char d)"
  by (simp add: is_digit_def of_char_digit_char)

lemma digit_val_digit_char [simp]: "d < 10 \<Longrightarrow> digit_val (digit_char d) = d"
  by (simp add: digit_val_def of_char_digit_char)

lemma digits_val_snoc [simp]: "digits_val (s @ [c]) = 10 * digits_val s + digit_val c"
  by (simp add: digits_val_def)

lemma nat_str_digits: "list_all is_digit (nat_str n)"
proof (induction n rule: nat_str.induct)
  case (1 n)
  then show ?case by (subst nat_str.simps) auto
qed

lemma digits_val_nat_str [simp]: "digits_val (nat_str n) = n"
proof (induction n rule: nat_str.induct)
  case (1 n)
  show ?case
  proof (cases "n < 10")
    case True
    then show ?thesis by (subst nat_str.simps) (simp add: digits_val_def)
  next
    case False
    with 1 show ?thesis by (subst nat_str.simps) simp
  qed
qed

lemma nat_str_nonempty [simp]: "nat_str n \<noteq> []"
  by (subst nat_str.simps) simp

lemma digit_not_space: "is_digit c \<Longrightarrow> \<not> is_space c \<and> c \<noteq> CHR ''-'' \<and> c \<noteq> CHR ''+''"
  by (auto simp: is_digit_def is_space_def)

lemma digits_val_zeros [simp]:
  "digits_val (replicate k (CHR ''0'') @ s) = digits_val s"
proof -
  have "foldl (\<lambda>v c. 10 * v + digit_val c) 0 (replicate k (CHR ''0'')) = 0"
    by (induction k) (simp_all add: digit_val_def)
  then show ?thesis by (simp add: digits_val_def)
qed

lemma takeWhile_digits: "list_all P xs \<Longrightarrow> takeWhile P xs = xs"
  by (induction xs) auto

lemma istream_int_digits:
  assumes "list_all is_digit s" and "s \<noteq> []"
  shows "istream_int s = Some (clamp_int (int (digits_val s)))"
proof -
  from assms obtain c cs where s: "s = c # cs" and c: "is_digit c"
    by (cases s) auto
  from c s have "dropWhile is_space s = s" by (simp add: digit_not_space)
  with assms(1) s c show ?thesis
    by (simp add: istream_int_def digit_not_space takeWhile_digits)
qed

text \<open>Reading back a number that fits, with leading zeros.\<close>

lemma istream_int_zeros_to_string:
  assumes "0 \<le> i" and "i \<le> INT_MAX"
  shows "istream_int (replicate k (CHR ''0'') @ to_string i) = Some i"
proof -
  have "list_all is_digit (replicate k (CHR ''0'') @ to_string i)"
    using assms by (auto simp: to_string_def nat_str_digits list_all_iff is_digit_def
        dest: nat_str_digits [unfolded list_all_iff, rule_format])
  moreover have "replicate k (CHR ''0'') @ to_string i \<noteq> []"
    using assms by (simp add: to_string_def)
  ultimately show ?thesis
    using assms by (simp add: istream_int_digits to_string_def clamp_int_def int_bounds)
qed

subsection \<open>Buffers and chunks\<close>

text \<open>\<open>memcpy (dst + i, src, length src)\<close> on a buffer.\<close>

definition memcpy :: "'a list \<Rightarrow> nat \<Rightarrow> 'a list \<Rightarrow> 'a list" where
  "memcpy dst i src = take i dst @ src @ drop (i + length src) dst"

lemma length_memcpy [simp]:
  "i + length src \<le> length dst \<Longrightarrow> length (memcpy dst i src) = length dst"
  by (simp add: memcpy_def)

lemma take_memcpy_0 [simp]: "take (length src) (memcpy dst 0 src) = src"
  by (simp add: memcpy_def)

lemma length_concat_const:
  "(\<And>x. x \<in> set xs \<Longrightarrow> length x = n) \<Longrightarrow> length (concat xs) = n * length xs"
  by (induction xs) auto

lemma nth_update_if:
  "xs[i := x] ! j = (if i = j \<and> j < length xs then x else xs ! j)"
proof (cases "j < length xs")
  case False
  then show ?thesis by (cases "i < length xs") (auto simp: list_update_beyond nth_list_update_neq)
qed (simp add: nth_list_update)

text \<open>A list cut in pieces of \<open>n\<close>, the last one shorter.\<close>

function chunks :: "nat \<Rightarrow> 'a list \<Rightarrow> 'a list list" where
  "chunks n xs = (if n = 0 \<or> xs = [] then [] else take n xs # chunks n (drop n xs))"
  by pat_completeness auto
termination
  by (relation "measure (\<lambda>(n, xs). length xs)") auto

declare chunks.simps [simp del]

lemma chunks_Nil [simp]: "chunks n [] = []"
  by (subst chunks.simps) simp

lemma chunks_step: "0 < n \<Longrightarrow> xs \<noteq> [] \<Longrightarrow> chunks n xs = take n xs # chunks n (drop n xs)"
  by (subst chunks.simps) simp

lemma chunks_eq_Nil_iff [simp]: "0 < n \<Longrightarrow> chunks n xs = [] \<longleftrightarrow> xs = []"
  by (subst chunks.simps) simp

lemma concat_chunks [simp]: "0 < n \<Longrightarrow> concat (chunks n xs) = xs"
  by (induction n xs rule: chunks.induct) (subst chunks.simps, auto)

lemma chunks_pieces:
  "p \<in> set (chunks n xs) \<Longrightarrow> p \<noteq> [] \<and> length p \<le> n"
proof (induction n xs rule: chunks.induct)
  case (1 n xs)
  then show ?case by (subst (asm) (2) chunks.simps) (auto split: if_splits)
qed

definition ceil_div :: "nat \<Rightarrow> nat \<Rightarrow> nat" where
  "ceil_div a b = a div b + (if a mod b = 0 then 0 else 1)"

lemma ceil_div_step: "0 < n \<Longrightarrow> 0 < k \<Longrightarrow> ceil_div k n = Suc (ceil_div (k - n) n)"
  by (cases "k < n") (auto simp: ceil_div_def le_div_geq le_mod_geq)

lemma length_chunks: "0 < n \<Longrightarrow> length (chunks n xs) = ceil_div (length xs) n"
proof (induction n xs rule: chunks.induct)
  case (1 n xs)
  show ?case
  proof (cases "xs = []")
    case False
    with 1 show ?thesis by (simp add: chunks_step ceil_div_step)
  qed (simp add: ceil_div_def)
qed

lemma nth_chunks:
  "0 < n \<Longrightarrow> i < length (chunks n xs) \<Longrightarrow> chunks n xs ! i = take n (drop (i * n) xs)"
proof (induction n xs arbitrary: i rule: chunks.induct)
  case (1 n xs)
  then have "xs \<noteq> []" by auto
  with 1 show ?case by (cases i) (auto simp: chunks_step add.commute)
qed

lemma drop_chunks: "0 < n \<Longrightarrow> drop i (chunks n xs) = chunks n (drop (i * n) xs)"
proof (induction i arbitrary: xs)
  case (Suc i)
  then show ?case by (cases "xs = []") (auto simp: chunks_step add.commute)
qed simp

lemma ceil_div_sub: "0 < n \<Longrightarrow> ceil_div (k - i * n) n = ceil_div k n - i"
proof (induction i arbitrary: k)
  case (Suc i)
  show ?case
  proof (cases "k = 0")
    case False
    have "ceil_div (k - Suc i * n) n = ceil_div ((k - n) - i * n) n"
      by (simp add: diff_diff_add)
    also have "\<dots> = ceil_div (k - n) n - i"
      using Suc.prems by (rule Suc.IH)
    also have "\<dots> = ceil_div k n - Suc i" using False Suc.prems by (simp add: ceil_div_step)
    finally show ?thesis .
  qed (simp add: ceil_div_def)
qed simp

end
