(* ===== verification/ClientSubject.thy ===== *)
theory ClientSubject
  imports Prelude
begin

section \<open>The interface between the client and its two halves (ClientSubject.h)\<close>

text \<open>
  \<open>ClientSubject\<close> is an abstract class. Its getters are constant during a run: their
  values are this record. Its two methods that change state, \<open>ackedPacket\<close> and
  \<open>stopReceiver\<close>, are the interface the receiver relies on, stated as the locale
  \<open>ack_sink\<close> in \<open>ClientReceiver\<close>.
\<close>

record client_subject =
  getWindow_size :: int
  getPacket_size :: int
  getMax_seq_number :: int
  getServer_port :: int
  getServer_host :: string
  getClient_port :: int
  getFilename :: string

text \<open>
  \<open>(int) (std::pow (10, n) - 1)\<close>, computed by both halves: the power is exact in
  \<open>double\<close> as long as the result is an \<open>int\<close>, a negative exponent gives a number
  between -1 and 0, and a conversion that does not fit is undefined.
\<close>

definition pow10_minus_1 :: "int \<Rightarrow> int res" where
  "pow10_minus_1 n =
     (if n \<le> 0 then Inr 0
      else if n \<le> 9 then Inr (10 ^ nat n - 1)
      else Inl (Undefined Float_to_int))"

end
