(* ===== verification/HashBuffer.thy ===== *)
theory HashBuffer
  imports Prelude "HOL-Library.Word"
begin

section \<open>What the hash functions share (lib/digestpp-master/detail)\<close>

text \<open>
  Byte order and rotations (\<open>functions.hpp\<close>), the buffer between \<open>update\<close> and the
  block transformation (\<open>absorb_data.hpp\<close>), and the padding every provider's \<open>final\<close>
  spells out. The locale \<open>block_hash\<close> states what a provider with this structure computes:
  a fold over the blocks of the padded message, however the message was cut into updates.
  Words are read from and written to memory little-endian, as on the machines the
  program runs on (the code reinterprets the bytes in place).
\<close>

unbundle bit_operations_syntax

type_synonym u8 = "8 word"
type_synonym u16 = "16 word"
type_synonym u32 = "32 word"
type_synonym u64 = "64 word"

subsection \<open>Words\<close>

definition rotate_left :: "u32 \<Rightarrow> nat \<Rightarrow> u32" where
  "rotate_left x n = push_bit n x OR drop_bit (32 - n) x"

definition rotate_right :: "u32 \<Rightarrow> nat \<Rightarrow> u32" where
  "rotate_right x n = drop_bit n x OR push_bit (32 - n) x"

definition rotate_left64 :: "u64 \<Rightarrow> nat \<Rightarrow> u64" where
  "rotate_left64 x n = push_bit n x OR drop_bit (64 - n) x"

definition rotate_right64 :: "u64 \<Rightarrow> nat \<Rightarrow> u64" where
  "rotate_right64 x n = drop_bit n x OR push_bit (64 - n) x"

definition byteswap16 :: "u16 \<Rightarrow> u16" where
  "byteswap16 val = push_bit 8 (val AND 0xff) OR drop_bit 8 (val AND 0xff00)"

definition byteswap32 :: "u32 \<Rightarrow> u32" where
  "byteswap32 val =
     drop_bit 24 (val AND 0xff000000) OR
     drop_bit 8 (val AND 0x00ff0000) OR
     push_bit 8 (val AND 0x0000ff00) OR
     push_bit 24 (val AND 0x000000ff)"

definition byteswap64 :: "u64 \<Rightarrow> u64" where
  "byteswap64 val =
     drop_bit 56 (val AND 0xff00000000000000) OR
     drop_bit 40 (val AND 0x00ff000000000000) OR
     drop_bit 24 (val AND 0x0000ff0000000000) OR
     drop_bit 8 (val AND 0x000000ff00000000) OR
     push_bit 8 (val AND 0x00000000ff000000) OR
     push_bit 24 (val AND 0x0000000000ff0000) OR
     push_bit 40 (val AND 0x000000000000ff00) OR
     push_bit 56 (val AND 0x00000000000000ff)"

definition zero_memory :: "u8 list \<Rightarrow> u8 list" where
  "zero_memory v = replicate (length v) 0"

text \<open>The bytes of a word in memory, least significant first, and back.\<close>

definition le_bytes32 :: "u32 \<Rightarrow> u8 list" where
  "le_bytes32 w = map (\<lambda>i. ucast (drop_bit (8 * i) w)) [0..<4]"

definition le_bytes64 :: "u64 \<Rightarrow> u8 list" where
  "le_bytes64 w = map (\<lambda>i. ucast (drop_bit (8 * i) w)) [0..<8]"

fun le_words :: "u8 list \<Rightarrow> u32 list" where
  "le_words (b0 # b1 # b2 # b3 # bs) =
     (ucast b0 OR push_bit 8 (ucast b1) OR push_bit 16 (ucast b2) OR push_bit 24 (ucast b3))
       # le_words bs"
| "le_words _ = []"

fun le_words64 :: "u8 list \<Rightarrow> u64 list" where
  "le_words64 (b0 # b1 # b2 # b3 # b4 # b5 # b6 # b7 # bs) =
     (ucast b0 OR push_bit 8 (ucast b1) OR push_bit 16 (ucast b2) OR push_bit 24 (ucast b3) OR
      push_bit 32 (ucast b4) OR push_bit 40 (ucast b5) OR push_bit 48 (ucast b6) OR
      push_bit 56 (ucast b7)) # le_words64 bs"
| "le_words64 _ = []"

lemma length_le_bytes32 [simp]: "length (le_bytes32 w) = 4"
  by (simp add: le_bytes32_def)

lemma length_le_bytes64 [simp]: "length (le_bytes64 w) = 8"
  by (simp add: le_bytes64_def)

subsection \<open>The buffer\<close>

text \<open>
  The members every provider has: the chaining value, the buffer, the bytes in it, and the
  bits transformed so far.
\<close>

record 'h provider =
  prov_H :: 'h
  prov_m :: "u8 list"
  prov_pos :: nat
  prov_total :: u64

text \<open>\<open>transform (data, num_blks)\<close> for the function \<open>f\<close> on one block of \<open>bs\<close> bytes.\<close>

fun transform_blocks :: "nat \<Rightarrow> (u8 list \<Rightarrow> 'h \<Rightarrow> 'h) \<Rightarrow> u8 list \<Rightarrow> nat \<Rightarrow> 'h \<Rightarrow> 'h" where
  "transform_blocks bs f data 0 H = H"
| "transform_blocks bs f data (Suc num_blks) H =
     transform_blocks bs f (drop bs data) num_blks (f (take bs data) H)"

text \<open>
  \<open>absorb_bytes\<close> for block size \<open>bs\<close> and threshold \<open>bschk\<close>: fill and transform the
  buffer if the new data reaches the threshold, transform the whole blocks left in the
  data, and keep the rest in the buffer.
\<close>

definition absorb_bytes ::
    "nat \<Rightarrow> nat \<Rightarrow> (u8 list \<Rightarrow> nat \<Rightarrow> 'h \<Rightarrow> 'h) \<Rightarrow> u8 list \<Rightarrow> 'h provider \<Rightarrow> 'h provider"
  where
  "absorb_bytes bs bschk tf data p =
     (let (data, p) =
            (if prov_pos p \<noteq> 0 \<and> bschk \<le> prov_pos p + length data
             then (let n = bs - prov_pos p;
                       m = memcpy (prov_m p) (prov_pos p) (take n data)
                   in (drop n data,
                       p\<lparr>prov_m := m, prov_H := tf m 1 (prov_H p),
                         prov_total := prov_total p + of_nat (bs * 8), prov_pos := 0\<rparr>))
             else (data, p));
          (data, p) =
            (if bschk \<le> length data
             then (let blocks = (length data + bs - bschk) div bs; bytes = blocks * bs
                   in (drop bytes data,
                       p\<lparr>prov_H := tf data blocks (prov_H p),
                         prov_total := prov_total p + of_nat (bytes * 8)\<rparr>))
             else (data, p))
      in p\<lparr>prov_m := memcpy (prov_m p) (prov_pos p) data, prov_pos := prov_pos p + length data\<rparr>)"

text \<open>
  \<open>final\<close> up to the output: a byte 0x80, zeros, the length. The block is closed early if
  the position is then past \<open>lim\<close>; the zeros go up to \<open>zend\<close>; \<open>enc\<close> writes the length
  in the last 8 bytes.
\<close>

definition finish_blocks ::
    "nat \<Rightarrow> nat \<Rightarrow> nat \<Rightarrow> (u8 list \<Rightarrow> nat \<Rightarrow> 'h \<Rightarrow> 'h) \<Rightarrow> (u64 \<Rightarrow> u8 list) \<Rightarrow> 'h provider \<Rightarrow> 'h"
  where
  "finish_blocks bs lim zend tf enc p =
     (let total = prov_total p + of_nat (prov_pos p * 8);
          m = memcpy (prov_m p) (prov_pos p) [0x80];
          pos = prov_pos p + 1;
          (m, pos, H) =
            (if lim < pos
             then (let m = (if pos \<noteq> bs then memcpy m pos (replicate (bs - pos) 0) else m)
                   in (m, 0, tf m 1 (prov_H p)))
             else (m, pos, prov_H p));
          m = memcpy m pos (replicate (zend - pos) 0);
          m = memcpy m (bs - 8) (enc total)
      in tf m 1 H)"

text \<open>The buffer \<open>final\<close> leaves behind: the last block.\<close>

definition finish_buffer ::
    "nat \<Rightarrow> nat \<Rightarrow> nat \<Rightarrow> (u64 \<Rightarrow> u8 list) \<Rightarrow> 'h provider \<Rightarrow> u8 list"
  where
  "finish_buffer bs lim zend enc p =
     (let total = prov_total p + of_nat (prov_pos p * 8);
          m = memcpy (prov_m p) (prov_pos p) [0x80];
          pos = prov_pos p + 1;
          (m, pos) =
            (if lim < pos
             then (if pos \<noteq> bs then memcpy m pos (replicate (bs - pos) 0) else m, 0)
             else (m, pos));
          m = memcpy m pos (replicate (zend - pos) 0)
      in memcpy m (bs - 8) (enc total))"

lemma length_finish_buffer:
  assumes "length (prov_m p) = bs" and "prov_pos p < bs" and "lim \<le> zend" and "zend \<le> bs"
    and "\<And>n. length (enc n) = 8" and "8 \<le> bs"
  shows "length (finish_buffer bs lim zend enc p) = bs"
  using assms by (simp add: finish_buffer_def Let_def Suc_le_eq split: if_splits)

subsection \<open>Blocks\<close>

lemma chunks_append_block:
  "0 < n \<Longrightarrow> length xs = n \<Longrightarrow> chunks n (xs @ ys) = xs # chunks n ys"
  by (subst chunks_step) auto

lemma chunks_length:
  "blk \<in> set (chunks n xs) \<Longrightarrow> length xs mod n = 0 \<Longrightarrow> length blk = n"
proof (induction n xs rule: chunks.induct)
  case (1 n xs)
  then have n: "\<not> (n = 0 \<or> xs = [])" by (auto simp: chunks.simps [of n xs] split: if_splits)
  then have le: "n \<le> length xs" using 1(3) by (metis length_0_conv linorder_not_le mod_less)
  then have "length (drop n xs) mod n = 0" using 1(3) by (simp add: le_mod_geq)
  then show ?case using 1(1) [OF n] 1(2) n le by (auto simp: chunks.simps [of n xs])
qed

lemma memcpy_chain:
  assumes "length m0 = n" and "length a + length b \<le> n"
  shows "memcpy (memcpy m0 0 a) (length a) b = memcpy m0 0 (a @ b)"
  using assms by (simp add: memcpy_def add.commute)

lemma memcpy_full: "length m0 = length a \<Longrightarrow> memcpy m0 0 a = a"
  by (simp add: memcpy_def)

lemma memcpy_prefix:
  assumes "i \<le> length dst"
  shows "memcpy dst i src = memcpy dst 0 (take i dst @ src)"
  using assms by (simp add: memcpy_def)

lemma memcpy_end:
  assumes "i + length src = length dst"
  shows "memcpy dst i src = take i dst @ src"
  using assms by (simp add: memcpy_def)

text \<open>
  A provider is given by its block size, the last position that leaves room for the
  length, the function on a block and the encoding of the length.
\<close>

locale block_hash =
  fixes bs :: nat and lim :: nat and zend :: nat
    and f :: "u8 list \<Rightarrow> 'h \<Rightarrow> 'h" and enc :: "u64 \<Rightarrow> u8 list"
  assumes lim_bs: "0 < lim" "lim + 8 \<le> bs"
    and zend: "bs - 8 \<le> zend" "zend \<le> bs"
    and length_enc [simp]: "length (enc n) = 8"
begin

lemma bs_pos [simp]: "0 < bs"
  using lim_bs by simp

text \<open>The specification: a fold over the blocks.\<close>

definition hash_blocks :: "u8 list \<Rightarrow> 'h \<Rightarrow> 'h" where
  "hash_blocks data H = fold f (chunks bs data) H"

definition padding :: "nat \<Rightarrow> u8 list" where
  "padding n =
     0x80 # replicate ((bs + lim - 1 - n mod bs) mod bs) 0 @ replicate (bs - 8 - lim) 0 @
     enc (of_nat (8 * n))"

lemma hash_blocks_Nil [simp]: "hash_blocks [] H = H"
  by (simp add: hash_blocks_def)

lemma hash_blocks_append:
  "length xs = bs * n \<Longrightarrow> hash_blocks (xs @ ys) H = hash_blocks ys (hash_blocks xs H)"
proof (induction n arbitrary: xs H)
  case (Suc n)
  have len: "length (take bs xs) = bs" "length (drop bs xs) = bs * n" using Suc.prems by simp_all
  have "chunks bs (take bs xs @ drop bs xs @ ys) = take bs xs # chunks bs (drop bs xs @ ys)"
    by (rule chunks_append_block) (use len in simp_all)
  moreover have "chunks bs (take bs xs @ drop bs xs) = take bs xs # chunks bs (drop bs xs)"
    by (rule chunks_append_block) (use len in simp_all)
  moreover have "take bs xs @ drop bs xs @ ys = xs @ ys" by simp
  ultimately show ?case using Suc.IH [OF len(2)] by (simp add: hash_blocks_def)
qed simp

lemma transform_hash:
  "length data = bs * n \<Longrightarrow> transform_blocks bs f (data @ rst) n H = hash_blocks data H"
proof (induction n arbitrary: data H)
  case (Suc n)
  have len: "length (drop bs data) = bs * n" and le: "bs \<le> length data" using Suc.prems by simp_all
  have "chunks bs data = take bs data # chunks bs (drop bs data)"
    by (rule chunks_step) (use le lim_bs in auto)
  moreover have "take bs (data @ rst) = take bs data" "drop bs (data @ rst) = drop bs data @ rst"
    using le by simp_all
  ultimately show ?case using Suc.IH [OF len] by (simp add: hash_blocks_def del: take_append)
qed simp

lemma transform_one: "length m = bs \<Longrightarrow> transform_blocks bs f m 1 H = hash_blocks m H"
  using transform_hash [of m 1 "[]"] by simp

subsection \<open>Absorbing\<close>

text \<open>The provider's state after the message \<open>msg\<close>, from the chaining value \<open>H0\<close>.\<close>

definition whole :: "u8 list \<Rightarrow> u8 list" where
  "whole msg = take (bs * (length msg div bs)) msg"

definition partial :: "u8 list \<Rightarrow> u8 list" where
  "partial msg = drop (bs * (length msg div bs)) msg"

definition represents :: "'h \<Rightarrow> u8 list \<Rightarrow> 'h provider \<Rightarrow> bool" where
  "represents H0 msg p \<longleftrightarrow>
     prov_H p = hash_blocks (whole msg) H0 \<and>
     length (prov_m p) = bs \<and>
     take (prov_pos p) (prov_m p) = partial msg \<and>
     prov_pos p = length msg mod bs \<and>
     prov_total p = of_nat (8 * length (whole msg))"

lemma representsD:
  assumes "represents H0 msg p"
  shows "prov_H p = hash_blocks (whole msg) H0" and "length (prov_m p) = bs"
    and "take (length msg mod bs) (prov_m p) = partial msg" and "prov_pos p = length msg mod bs"
    and "prov_total p = of_nat (8 * length (whole msg))"
  using assms by (auto simp: represents_def)

lemma whole_partial: "whole msg @ partial msg = msg"
  by (simp add: whole_def partial_def)

lemma length_partial [simp]: "length (partial msg) = length msg mod bs"
  by (simp add: partial_def minus_mult_div_eq_mod)

lemma length_whole: "length (whole msg) = bs * (length msg div bs)"
  by (simp add: whole_def)

lemma split_unique:
  assumes "msg = a @ b" and "length a = bs * n" and "length b < bs"
  shows "whole msg = a" and "partial msg = b"
proof -
  have "length msg div bs = n" using assms by simp
  then show "whole msg = a" "partial msg = b" using assms by (simp_all add: whole_def partial_def)
qed

lemma represents_init:
  "length m0 = bs \<Longrightarrow> represents H0 [] \<lparr>prov_H = H0, prov_m = m0, prov_pos = 0, prov_total = 0\<rparr>"
  by (simp add: represents_def whole_def partial_def)

text \<open>The state after absorbing, when the buffer is empty.\<close>

lemma absorb_from_empty:
  assumes "represents H0 msg p" and "prov_pos p = 0"
  shows "represents H0 (msg @ data) (absorb_bytes bs bs (transform_blocks bs f) data p)"
proof -
  let ?n = "length data div bs"
  let ?a = "take (bs * ?n) data" and ?b = "drop (bs * ?n) data"
  have msg: "partial msg = []" "whole msg = msg"
    using assms whole_partial [of msg] by (auto simp: represents_def)
  have len: "length ?a = bs * ?n" "length ?b = length data mod bs" "length ?b < bs"
    by (simp_all add: minus_mult_div_eq_mod)
  have sp: "whole (msg @ data) = msg @ ?a" "partial (msg @ data) = ?b"
    using split_unique [of "msg @ data" "msg @ ?a" ?b "length msg div bs + ?n"] len
      length_whole [of msg] msg(2) by (simp_all add: algebra_simps)
  have t: "transform_blocks bs f data ?n H = hash_blocks ?a H" for H
    using transform_hash [of ?a ?n ?b] len by simp
  have blocks: "(length data + bs - bs) div bs * bs = bs * ?n" by simp
  have "absorb_bytes bs bs (transform_blocks bs f) data p =
      p\<lparr>prov_H := hash_blocks ?a (prov_H p),
        prov_m := memcpy (prov_m p) 0 ?b, prov_pos := length ?b,
        prov_total := prov_total p + of_nat (8 * length ?a)\<rparr>"
  proof (cases "bs \<le> length data")
    case True
    then show ?thesis using assms(2) t len by (simp add: absorb_bytes_def Let_def mult.commute)
  next
    case False
    then have "?n = 0" by simp
    then show ?thesis using assms(2) False by (simp add: absorb_bytes_def Let_def)
  qed
  moreover have "hash_blocks ?a (prov_H p) = hash_blocks (msg @ ?a) H0"
    using assms(1) msg(2) length_whole [of msg] hash_blocks_append
    by (simp add: represents_def)
  moreover have "length (msg @ data) mod bs = length ?b"
    using length_partial [of "msg @ data"] sp(2) by simp
  moreover have "prov_total p + of_nat (8 * length ?a) = of_nat (8 * length (msg @ ?a))"
    using assms(1) msg(2) by (simp add: represents_def algebra_simps)
  moreover have "length (memcpy (prov_m p) 0 ?b) = bs" "take (length ?b) (memcpy (prov_m p) 0 ?b) = ?b"
    using assms(1) len(3) by (simp_all add: represents_def del: length_drop)
  ultimately show ?thesis by (simp add: represents_def sp del: length_drop)
qed

text \<open>Filling the buffer.\<close>

definition fill :: "u8 list \<Rightarrow> 'h provider \<Rightarrow> 'h provider" where
  "fill data p =
     (let m = memcpy (prov_m p) (prov_pos p) data
      in p\<lparr>prov_m := m, prov_H := transform_blocks bs f m 1 (prov_H p),
           prov_total := prov_total p + of_nat (bs * 8), prov_pos := 0\<rparr>)"

lemma represents_fill:
  assumes "represents H0 msg p" and "length data = bs - prov_pos p" and "0 < prov_pos p"
  shows "represents H0 (msg @ data) (fill data p)" and "prov_pos (fill data p) = 0"
proof -
  let ?m = "memcpy (prov_m p) (prov_pos p) data"
  have pos: "prov_pos p < bs" using assms(1) by (simp add: represents_def)
  have m: "?m = partial msg @ data"
    using assms(2) pos representsD [OF assms(1)] by (subst memcpy_end) simp_all
  have len: "length ?m = bs"
    unfolding m using assms(2) pos representsD(4) [OF assms(1)] by simp
  have split: "msg @ data = whole msg @ ?m" using whole_partial [of msg] by (metis append_assoc m)
  have w: "whole (msg @ data) = whole msg @ ?m" "partial (msg @ data) = []"
    using split_unique [of "msg @ data" "whole msg @ ?m" "[]" "length msg div bs + 1"]
      split len length_whole [of msg] by (simp_all add: algebra_simps)
  have "transform_blocks bs f ?m 1 (prov_H p) = hash_blocks (whole msg @ ?m) H0"
    using assms(1) transform_one [OF len] hash_blocks_append [OF length_whole]
    by (simp add: represents_def)
  moreover have "length (msg @ data) mod bs = 0" using w(2) length_partial by (metis list.size(3))
  moreover have "prov_total p + of_nat (bs * 8) = of_nat (8 * length (whole msg @ ?m))"
    using assms(1) len by (simp add: represents_def algebra_simps)
  ultimately show "represents H0 (msg @ data) (fill data p)"
    using w len by (simp add: represents_def fill_def Let_def)
  show "prov_pos (fill data p) = 0" by (simp add: fill_def Let_def)
qed

theorem absorb_represents:
  assumes "represents H0 msg p"
  shows "represents H0 (msg @ data) (absorb_bytes bs bs (transform_blocks bs f) data p)"
proof (cases "prov_pos p = 0")
  case True
  then show ?thesis by (rule absorb_from_empty [OF assms])
next
  case pos: False
  have lt: "prov_pos p < bs" using assms by (simp add: represents_def)
  show ?thesis
  proof (cases "bs \<le> prov_pos p + length data")
    case True
    let ?n = "bs - prov_pos p"
    have "absorb_bytes bs bs (transform_blocks bs f) data p =
        absorb_bytes bs bs (transform_blocks bs f) (drop ?n data) (fill (take ?n data) p)"
      using pos True by (simp add: absorb_bytes_def fill_def Let_def)
    moreover have "represents H0 (msg @ take ?n data) (fill (take ?n data) p)"
      "prov_pos (fill (take ?n data) p) = 0"
      using represents_fill [OF assms, of "take ?n data"] pos True by simp_all
    ultimately show ?thesis
      using absorb_from_empty [of H0 "msg @ take ?n data" "fill (take ?n data) p" "drop ?n data"]
      by simp
  next
    case False
    let ?m = "memcpy (prov_m p) (prov_pos p) data"
    have p: "absorb_bytes bs bs (transform_blocks bs f) data p =
        p\<lparr>prov_m := ?m, prov_pos := prov_pos p + length data\<rparr>"
      using False by (simp add: absorb_bytes_def Let_def)
    have part: "take (prov_pos p) (prov_m p) = partial msg" "prov_pos p = length msg mod bs"
      using representsD [OF assms] by simp_all
    have w: "whole (msg @ data) = whole msg" "partial (msg @ data) = partial msg @ data"
      using split_unique [of "msg @ data" "whole msg" "partial msg @ data" "length msg div bs"]
        whole_partial [of msg] length_whole [of msg] False part(2) by simp_all
    have "length (msg @ data) mod bs = prov_pos p + length data"
      using length_partial [of "msg @ data"] w(2) part(2) by simp
    moreover have "take (prov_pos p + length data) ?m = partial msg @ data"
      using part lt assms by (simp add: memcpy_def represents_def)
    ultimately show ?thesis
      using assms False p w by (simp add: represents_def)
  qed
qed

subsection \<open>Finishing\<close>

text \<open>The two ways \<open>final\<close> goes, on the buffer with the byte 0x80 behind the message.\<close>

definition marked :: "'h provider \<Rightarrow> u8 list" where
  "marked p = memcpy (prov_m p) (prov_pos p) [0x80]"

definition with_length :: "u8 list \<Rightarrow> nat \<Rightarrow> u64 \<Rightarrow> u8 list" where
  "with_length m i n = memcpy (memcpy m i (replicate (zend - i) 0)) (bs - 8) (enc n)"

definition filled_up :: "'h provider \<Rightarrow> u8 list" where
  "filled_up p =
     (if prov_pos p + 1 \<noteq> bs
      then memcpy (marked p) (prov_pos p + 1) (replicate (bs - (prov_pos p + 1)) 0) else marked p)"

lemma finish_unfold:
  fixes p :: "'h provider"
  defines "T \<equiv> prov_total p + of_nat (prov_pos p * 8)" and "tf \<equiv> transform_blocks bs f"
  shows "prov_pos p + 1 \<le> lim \<Longrightarrow> finish_blocks bs lim zend tf enc p =
      tf (with_length (marked p) (prov_pos p + 1) T) 1 (prov_H p)"
    and "lim < prov_pos p + 1 \<Longrightarrow> finish_blocks bs lim zend tf enc p =
      tf (with_length (filled_up p) 0 T) 1 (tf (filled_up p) 1 (prov_H p))"
  by (simp_all add: finish_blocks_def with_length_def filled_up_def marked_def T_def Let_def)

lemma with_length_eq:
  assumes "length m = bs" and "i \<le> lim"
  shows "with_length m i n = take i m @ replicate (bs - 8 - i) 0 @ enc n"
proof -
  have "take (bs - 8) (memcpy m i (replicate (zend - i) 0)) = take i m @ replicate (bs - 8 - i) 0"
    using assms lim_bs zend by (simp add: memcpy_def min_absorb2 take_Cons')
  moreover have "length (memcpy m i (replicate (zend - i) (0 :: u8))) = bs"
    using assms lim_bs zend by simp
  ultimately show ?thesis using lim_bs by (simp add: with_length_def memcpy_end)
qed

lemma marked_represents:
  assumes "represents H0 msg p"
  defines "r \<equiv> length msg mod bs"
  shows "length (marked p) = bs" and "take (r + 1) (marked p) = partial msg @ [0x80]"
    and "prov_pos p = r" and "r < bs"
    and "prov_total p + of_nat (prov_pos p * 8) = of_nat (8 * length msg)"
proof -
  note p = representsD [OF assms(1)]
  show pos: "prov_pos p = r" and r: "r < bs" using p by (simp_all add: r_def)
  show "length (marked p) = bs" using p(2) r pos by (simp add: marked_def Suc_le_eq)
  show "take (r + 1) (marked p) = partial msg @ [0x80]"
    using p(2,3) r pos by (simp add: marked_def memcpy_def r_def)
  have "8 * length (whole msg) + r * 8 = 8 * length msg"
    using whole_partial [of msg] unfolding r_def
    by (metis add.commute add_mult_distrib2 length_append length_partial mult.commute)
  then show "prov_total p + of_nat (prov_pos p * 8) = of_nat (8 * length msg)"
    unfolding pos p(5) by (metis of_nat_add)
qed

lemma filled_up_represents:
  assumes "represents H0 msg p"
  defines "r \<equiv> length msg mod bs"
  shows "filled_up p = partial msg @ [0x80] @ replicate (bs - (r + 1)) 0"
proof (cases "r + 1 = bs")
  case True
  then show ?thesis using marked_represents [OF assms(1)] by (simp add: filled_up_def r_def)
next
  case False
  note m = marked_represents [OF assms(1), folded r_def]
  have "memcpy (marked p) (r + 1) (replicate (bs - (r + 1)) 0) =
      take (r + 1) (marked p) @ replicate (bs - (r + 1)) 0"
    by (rule memcpy_end) (unfold length_replicate m(1), use m(4) in linarith)
  then show ?thesis using False m(2,3) by (simp add: filled_up_def)
qed

lemma padding_short:
  assumes "n mod bs + 1 \<le> lim"
  shows "padding n = 0x80 # replicate (bs - 8 - (n mod bs + 1)) 0 @ enc (of_nat (8 * n))"
proof -
  let ?r = "n mod bs"
  have "bs + lim - 1 - ?r = (lim - 1 - ?r) + bs" "lim - 1 - ?r < bs" using assms lim_bs by linarith+
  then have "(bs + lim - 1 - ?r) mod bs = lim - 1 - ?r" by (simp only: mod_add_self2 mod_less)
  moreover have "bs - 8 - (?r + 1) = (lim - 1 - ?r) + (bs - 8 - lim)" using assms lim_bs by simp
  ultimately show ?thesis by (simp add: padding_def replicate_add)
qed

lemma padding_long:
  assumes "lim < n mod bs + 1"
  shows "padding n = 0x80 # replicate (bs - (n mod bs + 1)) 0 @ replicate (bs - 8) 0 @
    enc (of_nat (8 * n))"
proof -
  let ?r = "n mod bs"
  have r: "?r < bs" by simp
  have "(bs + lim - 1 - ?r) mod bs = bs + lim - 1 - ?r"
    by (rule mod_less) (use assms r in linarith)
  moreover have "bs + lim - 1 - ?r + (bs - 8 - lim) = (bs - (?r + 1)) + (bs - 8)"
    using assms r lim_bs by linarith
  then have "replicate (bs + lim - 1 - ?r) (0 :: u8) @ replicate (bs - 8 - lim) 0 =
      replicate (bs - (?r + 1)) 0 @ replicate (bs - 8) 0"
    by (metis replicate_add)
  ultimately show ?thesis by (simp add: padding_def)
qed

text \<open>\<open>final\<close> hashes what is left of the message and the padding.\<close>

theorem finish_represents:
  assumes "represents H0 msg p"
  shows "finish_blocks bs lim zend (transform_blocks bs f) enc p =
    hash_blocks (msg @ padding (length msg)) H0"
proof -
  let ?r = "length msg mod bs" and ?L = "enc (of_nat (8 * length msg))"
  let ?T = "transform_blocks bs f"
  note m = marked_represents [OF assms]
  have start: "hash_blocks (msg @ padding (length msg)) H0 =
      hash_blocks (partial msg @ padding (length msg)) (prov_H p)"
    using hash_blocks_append [OF length_whole, of msg "partial msg @ padding (length msg)" H0]
      whole_partial [of msg] representsD(1) [OF assms] by (metis append_assoc)
  show ?thesis
  proof (cases "?r + 1 \<le> lim")
    case True
    let ?m = "partial msg @ [0x80] @ replicate (bs - 8 - (?r + 1)) 0 @ ?L"
    have "with_length (marked p) (?r + 1) (of_nat (8 * length msg)) = ?m"
      using with_length_eq [OF m(1) True] m(2) by simp
    then have "finish_blocks bs lim zend ?T enc p = ?T ?m 1 (prov_H p)"
      using finish_unfold(1) [of p] True m(3,5) by simp
    also have "\<dots> = hash_blocks ?m (prov_H p)"
      by (rule transform_one) (use True lim_bs in simp)
    finally show ?thesis using start padding_short [OF True] by simp
  next
    case False
    let ?m = "partial msg @ [0x80] @ replicate (bs - (?r + 1)) 0" and ?n = "replicate (bs - 8) 0 @ ?L"
    have "Suc (?r + (bs - Suc ?r)) = bs" using m(4) by linarith
    then have len: "length ?m = bs" "length ?n = bs" using lim_bs by simp_all
    have fill: "filled_up p = ?m" by (rule filled_up_represents [OF assms])
    have "with_length (filled_up p) 0 (of_nat (8 * length msg)) = ?n"
      using with_length_eq [of "filled_up p" 0] fill len(1) by simp
    then have "finish_blocks bs lim zend ?T enc p = ?T ?n 1 (?T ?m 1 (prov_H p))"
      using finish_unfold(2) [of p] False m(3,5) fill by simp
    also have "\<dots> = hash_blocks (?m @ ?n) (prov_H p)"
      using transform_one [OF len(1)] transform_one [OF len(2)] hash_blocks_append [of ?m 1] len by simp
    finally show ?thesis using start padding_long [of "length msg"] False by simp
  qed
qed

text \<open>The message may come in any pieces.\<close>

theorem absorb_all:
  assumes "represents H0 msg p"
  shows "represents H0 (msg @ concat pieces)
    (fold (absorb_bytes bs bs (transform_blocks bs f)) pieces p)"
  using assms
proof (induction pieces arbitrary: msg p)
  case (Cons x xs)
  then show ?case using Cons.IH [OF absorb_represents [OF Cons.prems, of x]] by simp
qed simp

text \<open>
  A whole run of a provider, against any function \<open>g\<close> that agrees with \<open>f\<close> on blocks of the
  right size.
\<close>

lemma length_padded: "length (msg @ padding (length msg)) mod bs = 0"
proof -
  let ?r = "length msg mod bs"
  have r: "?r < bs" by simp
  have "?r + length (padding (length msg)) \<in> {bs, 2 * bs}"
  proof (cases "?r + 1 \<le> lim")
    case True
    have "length (padding (length msg)) = 1 + (bs - 8 - (?r + 1)) + 8"
      unfolding padding_short [OF True] by simp
    then have "?r + length (padding (length msg)) = bs" using True lim_bs by linarith
    then show ?thesis by blast
  next
    case False
    have "length (padding (length msg)) = 1 + (bs - (?r + 1)) + (bs - 8) + 8"
      by (subst padding_long) (use False in simp_all)
    then have "?r + length (padding (length msg)) = 2 * bs" using lim_bs r by linarith
    then show ?thesis by blast
  qed
  then have "(?r + length (padding (length msg))) mod bs = 0" by force
  then show ?thesis by (simp only: length_append mod_add_left_eq)
qed

theorem hash_pieces:
  assumes "length m0 = bs" and "\<And>blk H. length blk = bs \<Longrightarrow> f blk H = g blk H"
  shows "finish_blocks bs lim zend (transform_blocks bs f) enc
      (fold (absorb_bytes bs bs (transform_blocks bs f)) pieces
        \<lparr>prov_H = H0, prov_m = m0, prov_pos = 0, prov_total = 0\<rparr>) =
    fold g (chunks bs (concat pieces @ padding (length (concat pieces)))) H0"
proof -
  have "fold f (chunks bs xs) H = fold g (chunks bs xs) H" if "length xs mod bs = 0" for xs H
    by (rule fold_cong) (use chunks_length [OF _ that] assms(2) in auto)
  then have "fold f (chunks bs (msg @ padding (length msg))) H0 =
      fold g (chunks bs (msg @ padding (length msg))) H0" for msg
    using length_padded .
  moreover have "represents H0 ([] @ concat pieces)
      (fold (absorb_bytes bs bs (transform_blocks bs f)) pieces
        \<lparr>prov_H = H0, prov_m = m0, prov_pos = 0, prov_total = 0\<rparr>)"
    by (rule absorb_all [OF represents_init [OF assms(1)]])
  ultimately show ?thesis using finish_represents by (simp add: hash_blocks_def)
qed

end

end
