(* ===== verification/Hasher.thy ===== *)
theory Hasher
  imports HashBuffer
begin

section \<open>The hasher (lib/digestpp-master/hasher.hpp)\<close>

text \<open>
  \<open>hasher<HashProvider>\<close> feeds a provider and reads its digest. The provider's \<open>update\<close>,
  \<open>final\<close> and \<open>init\<close> are arguments of the functions here, \<open>'p\<close> is its state. Digests are
  taken of a copy, so they do not change the hasher.
\<close>

subsection \<open>Absorbing\<close>

definition str_bytes :: "string \<Rightarrow> u8 list" where
  "str_bytes s = map of_char s"

definition absorb_data :: "(u8 list \<Rightarrow> 'p \<Rightarrow> 'p) \<Rightarrow> u8 list \<Rightarrow> nat \<Rightarrow> 'p \<Rightarrow> 'p" where
  "absorb_data update data len p = update (take len data) p"

definition hasher_absorb :: "(u8 list \<Rightarrow> 'p \<Rightarrow> 'p) \<Rightarrow> string \<Rightarrow> 'p \<Rightarrow> 'p" where
  "hasher_absorb update str p = (if str \<noteq> [] then update (str_bytes str) p else p)"

text \<open>From a stream, in buffers of 10000 bytes; from iterators, byte by byte.\<close>

definition tmp_buffer_size :: nat where "tmp_buffer_size = 10000"

function absorb_stream :: "(u8 list \<Rightarrow> 'p \<Rightarrow> 'p) \<Rightarrow> u8 list \<Rightarrow> 'p \<Rightarrow> 'p" where
  "absorb_stream update istr p =
     (if tmp_buffer_size \<le> length istr
      then absorb_stream update (drop tmp_buffer_size istr) (update (take tmp_buffer_size istr) p)
      else if istr \<noteq> [] then update istr p else p)"
  by pat_completeness auto
termination
  by (relation "measure (\<lambda>(update, istr, p). length istr)") (auto simp: tmp_buffer_size_def)

declare absorb_stream.simps [simp del]

fun absorb_range :: "(u8 list \<Rightarrow> 'p \<Rightarrow> 'p) \<Rightarrow> u8 list \<Rightarrow> 'p \<Rightarrow> 'p" where
  "absorb_range update [] p = p"
| "absorb_range update (b # bs) p = absorb_range update bs (update [b] p)"

subsection \<open>Reading the digest\<close>

definition digest_to_buffer :: "nat \<Rightarrow> ('p \<Rightarrow> u8 list) \<Rightarrow> nat \<Rightarrow> 'p \<Rightarrow> u8 list res" where
  "digest_to_buffer hash_size final len p =
     (if len < hash_size div 8 then Inl (Throws (Runtime_error ''Invalid buffer size''))
      else Inr (final p))"

text \<open>
  \<open>hexdigest\<close> streams each byte as a number in base 16, filled with zeros to width 2.
\<close>

definition hex_digit :: "nat \<Rightarrow> char" where
  "hex_digit d = (if d < 10 then char_of (48 + d) else char_of (87 + d))"

definition stream_byte :: "u8 \<Rightarrow> string" where
  "stream_byte b =
     (let v = unat b;
          ds = (if v < 16 then [hex_digit v] else [hex_digit (v div 16), hex_digit (v mod 16)])
      in replicate (2 - length ds) (CHR ''0'') @ ds)"

definition hexdigest :: "('p \<Rightarrow> u8 list) \<Rightarrow> 'p \<Rightarrow> string" where
  "hexdigest final p = concat (map stream_byte (final p))"

definition hasher_reset :: "('p \<Rightarrow> 'p) \<Rightarrow> ('p \<Rightarrow> 'p) \<Rightarrow> bool \<Rightarrow> 'p \<Rightarrow> 'p" where
  "hasher_reset clear init resetParameters p = init (if resetParameters then clear p else p)"

subsection \<open>Ways to absorb\<close>

text \<open>
  All of them are a fold of \<open>update\<close> over pieces of the data, none of them empty.
\<close>

lemma hasher_absorb_pieces:
  "hasher_absorb update str p = fold update (if str = [] then [] else [str_bytes str]) p"
  by (simp add: hasher_absorb_def)

lemma absorb_stream_pieces:
  "absorb_stream update istr p = fold update (chunks tmp_buffer_size istr) p"
proof (induction update istr p rule: absorb_stream.induct)
  case (1 update istr p)
  have step: "chunks tmp_buffer_size istr =
      take tmp_buffer_size istr # chunks tmp_buffer_size (drop tmp_buffer_size istr)" if "istr \<noteq> []"
    using that by (intro chunks_step) (simp_all add: tmp_buffer_size_def)
  show ?case
  proof (cases "tmp_buffer_size \<le> length istr")
    case True
    moreover from this have "istr \<noteq> []" by (auto simp: tmp_buffer_size_def)
    ultimately show ?thesis using 1 step by (subst absorb_stream.simps) simp
  next
    case False
    then show ?thesis using step by (subst absorb_stream.simps) (cases "istr = []"; simp)
  qed
qed

lemma absorb_range_pieces: "absorb_range update bs p = fold update (map (\<lambda>b. [b]) bs) p"
  by (induction bs arbitrary: p) simp_all

lemma length_stream_byte [simp]: "length (stream_byte b) = 2"
  by (simp add: stream_byte_def Let_def)

lemma length_hexdigest: "length (hexdigest final p) = 2 * length (final p)"
proof -
  have "length (concat (map stream_byte (final p))) = 2 * length (map stream_byte (final p))"
    by (rule length_concat_const) auto
  then show ?thesis by (simp add: hexdigest_def)
qed

lemma hex_digit_not_nul: "d < 16 \<Longrightarrow> hex_digit d \<noteq> CHR 0x00"
proof
  assume d: "d < 16" and "hex_digit d = CHR 0x00"
  then have "(of_char (hex_digit d) :: nat) = of_char (CHR 0x00)" by simp
  with d show False by (simp add: hex_digit_def split: if_splits)
qed

lemma stream_byte_not_nul: "CHR 0x00 \<notin> set (stream_byte b)"
proof -
  have "unat b < 256" using unsigned_less [of b, where ?'a = nat] by simp
  then have "hex_digit (unat b div 16) \<noteq> CHR 0x00" "hex_digit (unat b mod 16) \<noteq> CHR 0x00"
    by (auto intro!: hex_digit_not_nul)
  then show ?thesis
    by (auto simp: stream_byte_def Let_def dest: hex_digit_not_nul)
qed

end
