(* ===== verification/Digest.thy ===== *)
theory Digest
  imports Hasher
begin

section \<open>The digest of a packet: digestpp's MD5\<close>

text \<open>
  \<open>Packet::getHashFromString\<close> calls \<open>digestpp::md5().absorb(s).hexdigest()\<close>: the MD5
  provider (\<open>md5_provider.hpp\<close>) behind the hasher. Its tables, its four round functions and
  the 64 calls of its block transformation are modelled here word for word.
\<close>

unbundle bit_operations_syntax

subsection \<open>Tables and rounds\<close>

definition md5_K :: "u32 list" where
  "md5_K = [
     0xd76aa478, 0xe8c7b756, 0x242070db, 0xc1bdceee, 0xf57c0faf, 0x4787c62a, 0xa8304613, 0xfd469501,
     0x698098d8, 0x8b44f7af, 0xffff5bb1, 0x895cd7be, 0x6b901122, 0xfd987193, 0xa679438e, 0x49b40821,
     0xf61e2562, 0xc040b340, 0x265e5a51, 0xe9b6c7aa, 0xd62f105d, 0x02441453, 0xd8a1e681, 0xe7d3fbc8,
     0x21e1cde6, 0xc33707d6, 0xf4d50d87, 0x455a14ed, 0xa9e3e905, 0xfcefa3f8, 0x676f02d9, 0x8d2a4c8a,
     0xfffa3942, 0x8771f681, 0x6d9d6122, 0xfde5380c, 0xa4beea44, 0x4bdecfa9, 0xf6bb4b60, 0xbebfbc70,
     0x289b7ec6, 0xeaa127fa, 0xd4ef3085, 0x04881d05, 0xd9d4d039, 0xe6db99e5, 0x1fa27cf8, 0xc4ac5665,
     0xf4292244, 0x432aff97, 0xab9423a7, 0xfc93a039, 0x655b59c3, 0x8f0ccc92, 0xffeff47d, 0x85845dd1,
     0x6fa87e4f, 0xfe2ce6e0, 0xa3014314, 0x4e0811a1, 0xf7537e82, 0xbd3af235, 0x2ad7d2bb, 0xeb86d391]"

definition md5_S :: "nat list" where
  "md5_S = [
     7, 12, 17, 22, 7, 12, 17, 22, 7, 12, 17, 22, 7, 12, 17, 22,
     5, 9, 14, 20, 5, 9, 14, 20, 5, 9, 14, 20, 5, 9, 14, 20,
     4, 11, 16, 23, 4, 11, 16, 23, 4, 11, 16, 23, 4, 11, 16, 23,
     6, 10, 15, 21, 6, 10, 15, 21, 6, 10, 15, 21, 6, 10, 15, 21]"

definition roundf :: "nat \<Rightarrow> u32 \<Rightarrow> u32 \<Rightarrow> u32 \<Rightarrow> u32 \<Rightarrow> u32 list \<Rightarrow> u32" where
  "roundf round a b c d M =
     b + rotate_left (a + (d XOR (b AND (c XOR d))) + md5_K ! round + M ! round) (md5_S ! round)"

definition roundg :: "nat \<Rightarrow> u32 \<Rightarrow> u32 \<Rightarrow> u32 \<Rightarrow> u32 \<Rightarrow> u32 list \<Rightarrow> u32" where
  "roundg round a b c d M =
     b + rotate_left (a + (c XOR (d AND (b XOR c))) + md5_K ! round + M ! ((5 * round + 1) mod 16))
           (md5_S ! round)"

definition roundh :: "nat \<Rightarrow> u32 \<Rightarrow> u32 \<Rightarrow> u32 \<Rightarrow> u32 \<Rightarrow> u32 list \<Rightarrow> u32" where
  "roundh round a b c d M =
     b + rotate_left (a + (b XOR c XOR d) + md5_K ! round + M ! ((3 * round + 5) mod 16))
           (md5_S ! round)"

definition roundi :: "nat \<Rightarrow> u32 \<Rightarrow> u32 \<Rightarrow> u32 \<Rightarrow> u32 \<Rightarrow> u32 list \<Rightarrow> u32" where
  "roundi round a b c d M =
     b + rotate_left (a + (c XOR (b OR NOT d)) + md5_K ! round + M ! ((7 * round) mod 16))
           (md5_S ! round)"

text \<open>
  The 64 calls of \<open>transform\<close>, sixteen per round function, in the code's order; each
  call overwrites its first argument.
\<close>

type_synonym md5_regs = "u32 \<times> u32 \<times> u32 \<times> u32"

definition rounds_f :: "u32 list \<Rightarrow> md5_regs \<Rightarrow> md5_regs" where
  "rounds_f M r =
     (case r of (a, b, c, d) \<Rightarrow>
      let a = roundf 0 a b c d M;
          d = roundf 1 d a b c M;
          c = roundf 2 c d a b M;
          b = roundf 3 b c d a M;
          a = roundf 4 a b c d M;
          d = roundf 5 d a b c M;
          c = roundf 6 c d a b M;
          b = roundf 7 b c d a M;
          a = roundf 8 a b c d M;
          d = roundf 9 d a b c M;
          c = roundf 10 c d a b M;
          b = roundf 11 b c d a M;
          a = roundf 12 a b c d M;
          d = roundf 13 d a b c M;
          c = roundf 14 c d a b M;
          b = roundf 15 b c d a M
      in (a, b, c, d))"

definition rounds_g :: "u32 list \<Rightarrow> md5_regs \<Rightarrow> md5_regs" where
  "rounds_g M r =
     (case r of (a, b, c, d) \<Rightarrow>
      let a = roundg 16 a b c d M;
          d = roundg 17 d a b c M;
          c = roundg 18 c d a b M;
          b = roundg 19 b c d a M;
          a = roundg 20 a b c d M;
          d = roundg 21 d a b c M;
          c = roundg 22 c d a b M;
          b = roundg 23 b c d a M;
          a = roundg 24 a b c d M;
          d = roundg 25 d a b c M;
          c = roundg 26 c d a b M;
          b = roundg 27 b c d a M;
          a = roundg 28 a b c d M;
          d = roundg 29 d a b c M;
          c = roundg 30 c d a b M;
          b = roundg 31 b c d a M
      in (a, b, c, d))"

definition rounds_h :: "u32 list \<Rightarrow> md5_regs \<Rightarrow> md5_regs" where
  "rounds_h M r =
     (case r of (a, b, c, d) \<Rightarrow>
      let a = roundh 32 a b c d M;
          d = roundh 33 d a b c M;
          c = roundh 34 c d a b M;
          b = roundh 35 b c d a M;
          a = roundh 36 a b c d M;
          d = roundh 37 d a b c M;
          c = roundh 38 c d a b M;
          b = roundh 39 b c d a M;
          a = roundh 40 a b c d M;
          d = roundh 41 d a b c M;
          c = roundh 42 c d a b M;
          b = roundh 43 b c d a M;
          a = roundh 44 a b c d M;
          d = roundh 45 d a b c M;
          c = roundh 46 c d a b M;
          b = roundh 47 b c d a M
      in (a, b, c, d))"

definition rounds_i :: "u32 list \<Rightarrow> md5_regs \<Rightarrow> md5_regs" where
  "rounds_i M r =
     (case r of (a, b, c, d) \<Rightarrow>
      let a = roundi 48 a b c d M;
          d = roundi 49 d a b c M;
          c = roundi 50 c d a b M;
          b = roundi 51 b c d a M;
          a = roundi 52 a b c d M;
          d = roundi 53 d a b c M;
          c = roundi 54 c d a b M;
          b = roundi 55 b c d a M;
          a = roundi 56 a b c d M;
          d = roundi 57 d a b c M;
          c = roundi 58 c d a b M;
          b = roundi 59 b c d a M;
          a = roundi 60 a b c d M;
          d = roundi 61 d a b c M;
          c = roundi 62 c d a b M;
          b = roundi 63 b c d a M
      in (a, b, c, d))"

definition transform_block :: "u8 list \<Rightarrow> md5_regs \<Rightarrow> md5_regs" where
  "transform_block blk H =
     (let M = le_words blk;
          (a, b, c, d) = rounds_i M (rounds_h M (rounds_g M (rounds_f M H)));
          (h0, h1, h2, h3) = H
      in (h0 + a, h1 + b, h2 + c, h3 + d))"

definition md5_transform :: "u8 list \<Rightarrow> nat \<Rightarrow> md5_regs \<Rightarrow> md5_regs" where
  "md5_transform = transform_blocks 64 transform_block"

subsection \<open>The provider\<close>

text \<open>
  The constructor leaves the buffer uninitialised: its bytes are the parameter
  \<open>m0\<close>. No digest depends on them (\<open>md5_digest_bytes\<close> in \<open>MD5_Reference\<close>).
\<close>

definition md5_init :: "u8 list \<Rightarrow> md5_regs provider" where
  "md5_init m0 =
     \<lparr>prov_H = (0x67452301, 0xefcdab89, 0x98badcfe, 0x10325476),
      prov_m = m0, prov_pos = 0, prov_total = 0\<rparr>"

definition md5_update :: "u8 list \<Rightarrow> md5_regs provider \<Rightarrow> md5_regs provider" where
  "md5_update data p = absorb_bytes 64 64 md5_transform data p"

definition md5_final :: "md5_regs provider \<Rightarrow> u8 list" where
  "md5_final p =
     (let (h0, h1, h2, h3) = finish_blocks 64 56 56 md5_transform le_bytes64 p
      in le_bytes32 h0 @ le_bytes32 h1 @ le_bytes32 h2 @ le_bytes32 h3)"

definition md5_clear :: "md5_regs provider \<Rightarrow> md5_regs provider" where
  "md5_clear p = p\<lparr>prov_H := (0, 0, 0, 0), prov_m := zero_memory (prov_m p)\<rparr>"

interpretation md5_blocks: block_hash 64 56 56 transform_block le_bytes64
  by unfold_locales simp_all

text \<open>\<open>Packet::getHashFromString\<close>.\<close>

definition getHashFromString :: "string \<Rightarrow> string" where
  "getHashFromString inputString =
     hexdigest md5_final (hasher_absorb md5_update inputString (md5_init (replicate 64 0)))"

subsection \<open>What the packet format relies on\<close>

text \<open>
  The packet code cuts a fixed field of 32 characters out of a datagram. The interface
  it needs from a digest is that the field has this width and no NUL character (a
  received datagram is read as a C string).
\<close>

locale digest =
  fixes H :: "string \<Rightarrow> string"
  assumes length_H [simp]: "length (H s) = 32"
    and no_nul_H: "CHR 0x00 \<notin> set (H s)"

lemma length_md5_final [simp]: "length (md5_final p) = 16"
  by (simp add: md5_final_def Let_def split: prod.splits)

interpretation md5: digest getHashFromString
proof unfold_locales
  fix s
  show "length (getHashFromString s) = 32"
    by (simp add: getHashFromString_def length_hexdigest)
  show "CHR 0x00 \<notin> set (getHashFromString s)"
    using stream_byte_not_nul by (auto simp: getHashFromString_def hexdigest_def)
qed

end
