(* ===== verification/Packet.thy ===== *)
theory Packet
  imports Digest
begin

section \<open>Packets (Packet.h)\<close>

text \<open>
  A packet in the send window, the datagram it becomes
  (\<open>zero-padded sequence number @ MD5 of the data @ data\<close>), and the check and the
  parsing of datagrams that arrive. \<open>getHashFromString\<close> is in \<open>Digest\<close>. The mutex
  of the class guards single reads and writes of the two flags, which are atomic here.
\<close>

subsection \<open>The class\<close>

record packet =
  seqnum_digits :: int
  seqnum :: int
  packet_data :: string
  packetString :: string
  cached :: bool
  retransmitted :: bool
  starting_time :: int
  acked :: bool

text \<open>The constructor; \<open>packetString\<close> starts as the empty string.\<close>

definition new_Packet :: "int \<Rightarrow> int \<Rightarrow> string \<Rightarrow> packet" where
  "new_Packet digits num data =
     \<lparr>seqnum_digits = digits, seqnum = num, packet_data = data, packetString = [],
      cached = False, retransmitted = False, starting_time = 0, acked = False\<rparr>"

text \<open>The loop of \<open>getNumberOfDigits\<close>, with its two local variables.\<close>

function digits_loop :: "int \<Rightarrow> int \<Rightarrow> int" where
  "digits_loop number result =
     (if 0 < number then digits_loop (number sdiv 10) (result + 1) else result)"
  by pat_completeness auto
termination
  by (relation "measure (\<lambda>(number, result). nat number)") (auto simp: sdiv_nonneg)

declare digits_loop.simps [simp del]

definition getNumberOfDigits :: "int \<Rightarrow> int" where
  "getNumberOfDigits number = (if number = 0 then 1 else digits_loop number 0)"

definition checkPacketIntegrity :: "string \<Rightarrow> int \<Rightarrow> bool \<Rightarrow> bool res" where
  "checkPacketIntegrity raw_full_packet digits checkACK =
     rbind (iadd digits 32) (\<lambda>endOfMD5Str.
     rbind (substr raw_full_packet (to_size_t digits) 32) (\<lambda>md5String.
     rbind (if checkACK then substr raw_full_packet 0 (to_size_t digits)
            else substr_from raw_full_packet (to_size_t endOfMD5Str)) (\<lambda>dataString.
     Inr (md5String = getHashFromString dataString))))"

definition extract_seq_num :: "string \<Rightarrow> int \<Rightarrow> int res" where
  "extract_seq_num raw_full_packet digits =
     rbind (substr raw_full_packet 0 (to_size_t digits)) (\<lambda>str_val.
     case istream_int str_val of None \<Rightarrow> Inl (Undefined Uninitialised_read) | Some number \<Rightarrow> Inr number)"

text \<open>
  \<open>generatePacketString\<close> caches the string in the packet. \<open>extra_zeros\<close> does not
  overflow unless \<open>seqnum_digits\<close> is within 10 of \<open>INT_MIN\<close>; it is the
  constructor's \<open>max_seq_number\<close>.
\<close>

definition generatePacketString :: "packet \<Rightarrow> string \<times> packet" where
  "generatePacketString p =
     (if cached p then (packetString p, p)
      else (let extra_zeros = seqnum_digits p - getNumberOfDigits (seqnum p);
                ss = replicate (nat extra_zeros) (CHR ''0'') @ to_string (seqnum p)
                       @ getHashFromString (packet_data p) @ packet_data p
            in (ss, p\<lparr>packetString := ss, cached := True\<rparr>)))"

definition setRetransmitted :: "packet \<Rightarrow> packet" where
  "setRetransmitted p = p\<lparr>retransmitted := True\<rparr>"

definition getRetransmitted :: "packet \<Rightarrow> bool" where
  "getRetransmitted p = retransmitted p"

definition setAcked :: "packet \<Rightarrow> packet" where
  "setAcked p = p\<lparr>acked := True\<rparr>"

definition getAcked :: "packet \<Rightarrow> bool" where
  "getAcked p = acked p"

text \<open>\<open>startTimeoutCount\<close> reads the system clock: the reading is an argument.\<close>

definition startTimeoutCount :: "int \<Rightarrow> packet \<Rightarrow> packet" where
  "startTimeoutCount now p = p\<lparr>starting_time := now\<rparr>"

definition getStartingTime :: "packet \<Rightarrow> int" where
  "getStartingTime p = starting_time p"

definition getSeqNum :: "packet \<Rightarrow> int" where
  "getSeqNum p = seqnum p"

lemmas packet_ops = new_Packet_def setRetransmitted_def getRetransmitted_def setAcked_def
  getAcked_def startTimeoutCount_def getStartingTime_def getSeqNum_def

subsection \<open>Counting digits\<close>

lemma digits_loop_nat_str:
  "0 < n \<Longrightarrow> digits_loop (int n) k = k + int (length (nat_str n))"
proof (induction n arbitrary: k rule: nat_str.induct)
  case (1 n)
  show ?case
  proof (cases "n < 10")
    case True
    with 1(2) show ?thesis
      by (subst digits_loop.simps, subst digits_loop.simps) (simp add: sdiv_nonneg nat_str.simps)
  next
    case False
    then have "digits_loop (int n) k = digits_loop (int (n div 10)) (k + 1)"
      by (subst digits_loop.simps) (simp add: sdiv_nonneg zdiv_int)
    also have "\<dots> = k + 1 + int (length (nat_str (n div 10)))"
      using False by (intro 1(1)) auto
    finally show ?thesis using False by (subst nat_str.simps) simp
  qed
qed

lemma getNumberOfDigits_to_string:
  "0 \<le> n \<Longrightarrow> getNumberOfDigits n = int (length (to_string n))"
  using digits_loop_nat_str [of "nat n" 0]
  by (cases "n = 0") (auto simp: getNumberOfDigits_def to_string_def nat_str.simps)

lemma length_nat_str_le: "n < 10 ^ d \<Longrightarrow> 0 < d \<Longrightarrow> length (nat_str n) \<le> d"
proof (induction n arbitrary: d rule: nat_str.induct)
  case (1 n)
  show ?case
  proof (cases "n < 10")
    case True
    with 1 show ?thesis by (simp add: nat_str.simps)
  next
    case False
    then have "d \<noteq> 1" using "1.prems" by auto
    then obtain e where d: "d = Suc e" "0 < e"
      using "1.prems" by (cases d) auto
    then have "n div 10 < 10 ^ e" using "1.prems" by (simp add: div_less_iff_less_mult)
    with 1(1) False d show ?thesis by (subst nat_str.simps) simp
  qed
qed

text \<open>The sequence-number field of a datagram: \<open>d\<close> characters.\<close>

definition seq_field :: "nat \<Rightarrow> int \<Rightarrow> string" where
  "seq_field d k = replicate (d - length (to_string k)) (CHR ''0'') @ to_string k"

definition fits :: "nat \<Rightarrow> int \<Rightarrow> bool" where
  "fits d k \<longleftrightarrow> 0 < d \<and> int d + 32 \<le> INT_MAX \<and> 0 \<le> k \<and> k < 10 ^ d \<and> k \<le> INT_MAX"

lemma length_to_string_le: "fits d k \<Longrightarrow> length (to_string k) \<le> d"
  by (auto simp: fits_def to_string_def nat_less_iff intro!: length_nat_str_le)

lemma length_seq_field [simp]: "fits d k \<Longrightarrow> length (seq_field d k) = d"
  by (simp add: seq_field_def length_to_string_le)

lemma istream_int_seq_field: "fits d k \<Longrightarrow> istream_int (seq_field d k) = Some k"
  by (simp add: seq_field_def fits_def istream_int_zeros_to_string)

lemma to_size_t_fits [simp]: "fits d k \<Longrightarrow> to_size_t (int d) = d"
  by (simp add: fits_def int_bounds)

lemma iadd_fits [simp]: "fits d k \<Longrightarrow> iadd (int d) 32 = Inr (int d + 32)"
  by (simp add: fits_def int_bounds iadd_def ret_int_def)

lemma to_size_t_fits32 [simp]: "fits d k \<Longrightarrow> to_size_t (int d + 32) = d + 32"
  by (subst to_size_t_nonneg) (auto simp: fits_def int_bounds)

subsection \<open>Framing, for any digest\<close>

definition frame :: "(string \<Rightarrow> string) \<Rightarrow> string \<Rightarrow> string \<Rightarrow> string" where
  "frame H sq body = sq @ H body @ body"

context digest
begin

lemma frame_field: "take 32 (drop (length sq) (frame H sq body)) = H body"
  by (simp add: frame_def)

lemma frame_body: "drop (length sq + 32) (frame H sq body) = body"
  by (simp add: frame_def)

lemma length_frame: "length (frame H sq body) = length sq + 32 + length body"
  by (simp add: frame_def)

lemma field_iff:
  assumes "length sq = d"
  shows "take 32 (drop d (sq @ rest)) = H body \<longleftrightarrow> (\<exists>tl. rest = H body @ tl)"
proof
  assume "take 32 (drop d (sq @ rest)) = H body"
  with assms have "take 32 rest = H body" by simp
  then have "rest = H body @ drop 32 rest" by (metis append_take_drop_id)
  then show "\<exists>tl. rest = H body @ tl" by blast
qed (use assms in auto)

end

subsection \<open>Sending: what the datagram of a packet is\<close>

definition datagram :: "nat \<Rightarrow> int \<Rightarrow> string \<Rightarrow> string" where
  "datagram d k data = frame getHashFromString (seq_field d k) data"

lemma generatePacketString_fresh:
  assumes "fits d (seqnum p)" and "seqnum_digits p = int d" and "\<not> cached p"
  shows "generatePacketString p =
    (datagram d (seqnum p) (packet_data p),
     p\<lparr>packetString := datagram d (seqnum p) (packet_data p), cached := True\<rparr>)"
proof -
  have "nat (int d - getNumberOfDigits (seqnum p)) = d - length (to_string (seqnum p))"
    using assms(1) by (simp add: getNumberOfDigits_to_string fits_def nat_diff_distrib)
  with assms show ?thesis
    by (simp add: generatePacketString_def datagram_def frame_def seq_field_def Let_def)
qed

text \<open>A packet whose cache, if filled, holds its datagram.\<close>

definition packet_ok :: "nat \<Rightarrow> packet \<Rightarrow> bool" where
  "packet_ok d p \<longleftrightarrow> fits d (seqnum p) \<and> seqnum_digits p = int d \<and>
     (cached p \<longrightarrow> packetString p = datagram d (seqnum p) (packet_data p))"

lemma packet_ok_new: "fits d k \<Longrightarrow> packet_ok d (new_Packet (int d) k data)"
  by (simp add: packet_ok_def new_Packet_def)

lemma generatePacketString_ok:
  assumes "packet_ok d p"
  shows "fst (generatePacketString p) = datagram d (seqnum p) (packet_data p)"
    and "packet_ok d (snd (generatePacketString p))"
  using assms generatePacketString_fresh [of d p]
  by (cases "cached p"; simp add: packet_ok_def generatePacketString_def)+

lemma generatePacketString_frame:
  "seqnum (snd (generatePacketString p)) = seqnum p"
  "packet_data (snd (generatePacketString p)) = packet_data p"
  "seqnum_digits (snd (generatePacketString p)) = seqnum_digits p"
  "acked (snd (generatePacketString p)) = acked p"
  "retransmitted (snd (generatePacketString p)) = retransmitted p"
  "starting_time (snd (generatePacketString p)) = starting_time p"
  by (simp_all add: generatePacketString_def Let_def)

lemma packet_ok_flags [simp]:
  "packet_ok d (setRetransmitted p) = packet_ok d p"
  "packet_ok d (setAcked p) = packet_ok d p"
  "packet_ok d (startTimeoutCount t p) = packet_ok d p"
  by (simp_all add: packet_ok_def packet_ops)

subsection \<open>Properties of the packet format\<close>

text \<open>
  A datagram the sender builds passes the data check, gives its number back and
  carries the data after the header.
\<close>

lemma datagram_roundtrip:
  assumes "fits d k"
  shows "checkPacketIntegrity (datagram d k data) (int d) False = Inr True"
    and "extract_seq_num (datagram d k data) (int d) = Inr k"
    and "drop (d + 32) (datagram d k data) = data"
    and "length (datagram d k data) = d + 32 + length data"
  using assms md5.frame_field [of "seq_field d k" data] md5.frame_body [of "seq_field d k" data]
    md5.length_frame [of "seq_field d k" data] istream_int_seq_field [of d k]
  by (simp_all add: datagram_def checkPacketIntegrity_def extract_seq_num_def)
     (simp_all add: frame_def)

text \<open>An acknowledgement is a number followed by the digest of the number's field.\<close>

definition ack_datagram :: "nat \<Rightarrow> int \<Rightarrow> string" where
  "ack_datagram d k = seq_field d k @ getHashFromString (seq_field d k)"

lemma ack_datagram_accepted:
  assumes "fits d k"
  shows "checkPacketIntegrity (ack_datagram d k) (int d) True = Inr True"
    and "extract_seq_num (ack_datagram d k) (int d) = Inr k"
    and "length (ack_datagram d k) = d + 32"
  using assms istream_int_seq_field [of d k]
  by (simp_all add: ack_datagram_def checkPacketIntegrity_def extract_seq_num_def)

lemma short_datagram_throws:
  assumes "int (length raw) < d" and "d + 32 \<le> INT_MAX"
  shows "checkPacketIntegrity raw d ack = Inl (Throws Out_of_range)"
  using assms by (simp add: checkPacketIntegrity_def substr_short int_bounds iadd_def ret_int_def)

end
