(* ===== verification/DataProcessor.thy ===== *)
theory DataProcessor
  imports Prelude
begin

section \<open>Reading the file in chunks (DataProcessor)\<close>

text \<open>
  The class reads a file in chunks of \<open>chunk_size\<close> bytes. The file system is a
  parameter, a partial map from names to contents. The \<open>ifstream\<close> member is its
  unread rest and its good bit. A \<open>char *\<close> result is the buffer it points to, or
  \<open>None\<close> for the null pointer.
\<close>

type_synonym file_system = "string \<rightharpoonup> string"

record data_processor =
  file_rest :: string
  file_good :: bool
  filename :: string
  chunk_size :: int
  file_size :: int
  current_chunk :: string
  full_chunks_qty :: int
  last_chunk_size :: int
  total_chunks_qty :: int
  chunk_index :: int
  current_chunk_size :: int

text \<open>The conversion of \<open>streampos\<close> to \<open>int\<close> wraps; \<open>tellg\<close> of a stream that did not open is -1.\<close>

definition wrap_int :: "int \<Rightarrow> int" where
  "wrap_int x = (x + 2147483648) mod 4294967296 - 2147483648"

definition getFileSize :: "file_system \<Rightarrow> string \<Rightarrow> int" where
  "getFileSize fs name =
     (case fs name of None \<Rightarrow> -1 | Some contents \<Rightarrow> wrap_int (int (length contents)))"

definition clearChunk :: "data_processor \<Rightarrow> data_processor" where
  "clearChunk dp = dp\<lparr>current_chunk := replicate (nat (chunk_size dp + 1)) (CHR 0x00)\<rparr>"

text \<open>
  The constructor. \<open>make_unique\<close> of a negative number of bytes throws; members not
  yet assigned when \<open>clearChunk\<close> runs hold the value 0, which nothing reads.
\<close>

definition new_DataProcessor :: "file_system \<Rightarrow> string \<Rightarrow> int \<Rightarrow> data_processor res" where
  "new_DataProcessor fs name chunk_sz =
     (case fs name of
        None \<Rightarrow> Inl (Throws (Runtime_error (''File '' @ name @ '' does not exist'')))
      | Some contents \<Rightarrow>
          rbind (iadd chunk_sz 1) (\<lambda>alloc.
          if alloc < 0 then Inl (Throws Bad_alloc)
          else (let dp = clearChunk
                      \<lparr>file_rest = contents, file_good = True, filename = name, chunk_size = chunk_sz,
                       file_size = 0, current_chunk = [], full_chunks_qty = 0,
                       last_chunk_size = 0, total_chunks_qty = 0, chunk_index = 0,
                       current_chunk_size = 0\<rparr>;
                    fsize = getFileSize fs name
                in rbind (idiv fsize chunk_sz) (\<lambda>full.
                   rbind (imod fsize chunk_sz) (\<lambda>rest.
                   rbind (iadd full (if 0 < rest then 1 else 0)) (\<lambda>total.
                   Inr (dp\<lparr>file_size := fsize, full_chunks_qty := full, last_chunk_size := rest,
                           total_chunks_qty := total, chunk_index := 0,
                           current_chunk_size := 0\<rparr>)))))))"

text \<open>
  \<open>ifstream::read (buf, n)\<close>: moves up to \<open>n\<close> bytes and clears the good bit when it
  gets fewer; a stream that is not good reads nothing.
\<close>

definition file_read :: "int \<Rightarrow> data_processor \<Rightarrow> data_processor" where
  "file_read n dp =
     (if file_good dp
      then (let got = take (nat n) (file_rest dp)
            in dp\<lparr>current_chunk := memcpy (current_chunk dp) 0 got,
                  file_rest := drop (nat n) (file_rest dp),
                  file_good := (int (length got) = n)\<rparr>)
      else dp)"

definition readChunk :: "data_processor \<Rightarrow> (string option \<times> data_processor) res" where
  "readChunk dp =
     (if chunk_index dp = total_chunks_qty dp then Inr (None, dp)
      else (let dp = clearChunk dp;
                dp = (if chunk_index dp = full_chunks_qty dp
                      then dp\<lparr>current_chunk_size := last_chunk_size dp\<rparr>
                      else dp\<lparr>current_chunk_size := chunk_size dp\<rparr>);
                dp = file_read (current_chunk_size dp) dp
            in rbind (iadd (chunk_index dp) 1) (\<lambda>i.
               let dp = dp\<lparr>chunk_index := i\<rparr> in Inr (Some (current_chunk dp), dp))))"

definition getLastChunk :: "data_processor \<Rightarrow> string" where
  "getLastChunk dp = current_chunk dp"

definition getCurrentChunkSize :: "data_processor \<Rightarrow> int" where
  "getCurrentChunkSize dp = current_chunk_size dp"

definition remainingChunks :: "data_processor \<Rightarrow> int" where
  "remainingChunks dp = total_chunks_qty dp - chunk_index dp"

subsection \<open>The contract of a chunk reader\<close>

text \<open>
  What the sender needs from its data source: the number of chunks left, and that a
  read hands out the next one. \<open>left\<close> is the list of the chunks not read yet.
\<close>

locale chunk_source =
  fixes remaining :: "'s \<Rightarrow> int"
    and read :: "'s \<Rightarrow> (string option \<times> 's) res"
    and cur :: "'s \<Rightarrow> int"
    and left :: "'s \<Rightarrow> string list"
    and inv :: "'s \<Rightarrow> bool"
  assumes remaining_left: "inv s \<Longrightarrow> remaining s = int (length (left s))"
    and read_none: "inv s \<Longrightarrow> left s = [] \<Longrightarrow> read s = Inr (None, s)"
    and read_some: "inv s \<Longrightarrow> left s = c # cs \<Longrightarrow>
      \<exists>buf s'. read s = Inr (Some buf, s') \<and> cur s' = int (length c) \<and>
        take (length c) buf = c \<and> left s' = cs \<and> inv s'"

text \<open>Reading chunk after chunk while some remain, as \<open>sendChunk\<close> does.\<close>

fun drain ::
    "('s \<Rightarrow> int) \<Rightarrow> ('s \<Rightarrow> (string option \<times> 's) res) \<Rightarrow> ('s \<Rightarrow> int) \<Rightarrow> nat \<Rightarrow> 's \<Rightarrow> string list res"
  where
  "drain remaining read cur 0 s = Inr []"
| "drain remaining read cur (Suc fuel) s =
     (if remaining s = 0 then Inr []
      else rbind (read s) (\<lambda>(chunk, s').
        case chunk of
          None \<Rightarrow> Inl (Undefined Null_dereference)
        | Some buf \<Rightarrow>
            rbind (drain remaining read cur fuel s') (\<lambda>cs. Inr (take (nat (cur s')) buf # cs))))"

context chunk_source
begin

lemma remaining_0_iff: "inv s \<Longrightarrow> remaining s = 0 \<longleftrightarrow> left s = []"
  by (simp add: remaining_left)

lemma drain_left:
  "inv s \<Longrightarrow> length (left s) < fuel \<Longrightarrow> drain remaining read cur fuel s = Inr (left s)"
proof (induction fuel arbitrary: s)
  case (Suc fuel)
  show ?case
  proof (cases "left s")
    case Nil
    with Suc.prems show ?thesis by (simp add: remaining_left)
  next
    case (Cons c cs)
    obtain buf s' where r: "read s = Inr (Some buf, s')" "cur s' = int (length c)"
      "take (length c) buf = c" "left s' = cs" "inv s'"
      using read_some [OF Suc.prems(1) Cons] by blast
    with Suc Cons have "drain remaining read cur fuel s' = Inr cs" by auto
    with r Cons Suc.prems show ?thesis by (simp add: remaining_left)
  qed
qed simp

end

subsection \<open>The class implements the contract\<close>

text \<open>
  Well-formedness: the quotients agree with the file size and the unread rest is what
  the index says.
\<close>

definition dp_wf :: "data_processor \<Rightarrow> bool" where
  "dp_wf dp \<longleftrightarrow>
     0 < chunk_size dp \<and> 0 \<le> file_size dp \<and> in_int (file_size dp) \<and>
     full_chunks_qty dp = file_size dp div chunk_size dp \<and>
     last_chunk_size dp = file_size dp mod chunk_size dp \<and>
     total_chunks_qty dp = full_chunks_qty dp + (if 0 < last_chunk_size dp then 1 else 0) \<and>
     0 \<le> chunk_index dp \<and> chunk_index dp \<le> total_chunks_qty dp \<and>
     in_int (total_chunks_qty dp) \<and>
     int (length (file_rest dp)) = max 0 (file_size dp - chunk_index dp * chunk_size dp) \<and>
     file_good dp"

definition dp_left :: "data_processor \<Rightarrow> string list" where
  "dp_left dp = chunks (nat (chunk_size dp)) (file_rest dp)"

text \<open>The counters of a well-formed reader in terms of what is left.\<close>

lemma dp_wf_left:
  assumes "dp_wf dp"
  shows "int (length (dp_left dp)) = total_chunks_qty dp - chunk_index dp"
proof -
  define n where "n = nat (chunk_size dp)"
  define i where "i = nat (chunk_index dp)"
  define F where "F = nat (file_size dp)"
  have eq: "chunk_size dp = int n" "chunk_index dp = int i" "file_size dp = int F" "0 < n"
    using assms by (auto simp: dp_wf_def n_def i_def F_def)
  have tot: "total_chunks_qty dp = int (ceil_div F n)"
    using assms eq by (auto simp: dp_wf_def ceil_div_def simp flip: zdiv_int zmod_int)
  have "i \<le> ceil_div F n"
    using assms eq tot by (simp add: dp_wf_def)
  moreover have "length (file_rest dp) = F - i * n"
    using assms eq by (simp add: dp_wf_def max_def split: if_splits) 
      (auto simp flip: of_nat_mult of_nat_diff)
  ultimately have "length (dp_left dp) = ceil_div F n - i"
    using eq ceil_div_sub [of n F i] by (simp add: dp_left_def length_chunks)
  then show ?thesis
    using tot eq \<open>i \<le> ceil_div F n\<close> by simp
qed

lemma readChunk_end:
  "dp_wf dp \<Longrightarrow> dp_left dp = [] \<Longrightarrow> readChunk dp = Inr (None, dp)"
  using dp_wf_left [of dp] by (simp add: readChunk_def)

lemma dp_left_Cons_size:
  assumes wf: "dp_wf dp" and "dp_left dp = c # cs"
  shows "chunk_index dp < total_chunks_qty dp"
    and "int (length c) =
      (if chunk_index dp = full_chunks_qty dp then last_chunk_size dp else chunk_size dp)"
    and "c = take (length c) (file_rest dp)"
    and "cs = chunks (nat (chunk_size dp)) (drop (length c) (file_rest dp))"
proof -
  let ?n = "chunk_size dp" and ?F = "file_size dp" and ?i = "chunk_index dp"
  have ne: "file_rest dp \<noteq> []" and n: "0 < ?n"
    using assms by (auto simp: dp_left_def dp_wf_def)
  then have c: "c = take (nat ?n) (file_rest dp)"
    and cs: "cs = chunks (nat ?n) (drop (nat ?n) (file_rest dp))"
    using assms(2) by (auto simp: dp_left_def chunks_step)
  show lt: "?i < total_chunks_qty dp"
    using dp_wf_left [OF wf] assms(2) by simp
  have len: "int (length (file_rest dp)) = ?F - ?i * ?n" "0 < ?F - ?i * ?n"
  proof -
    have "0 < int (length (file_rest dp))" using ne by simp
    moreover have "int (length (file_rest dp)) = max 0 (?F - ?i * ?n)"
      using wf by (simp add: dp_wf_def)
    ultimately show "int (length (file_rest dp)) = ?F - ?i * ?n" "0 < ?F - ?i * ?n"
      by (simp_all add: max_def split: if_splits)
  qed
  have F: "?F = ?F div ?n * ?n + ?F mod ?n" by simp
  have full: "full_chunks_qty dp = ?F div ?n" "last_chunk_size dp = ?F mod ?n"
    using wf by (simp_all add: dp_wf_def)
  show "int (length c) =
      (if ?i = full_chunks_qty dp then last_chunk_size dp else ?n)"
  proof (cases "?i = ?F div ?n")
    case True
    then have "int (length (file_rest dp)) = ?F mod ?n" using len(1) F unfolding True by linarith
    with True full n c show ?thesis using pos_mod_bound [OF n, of ?F] by auto
  next
    case False
    with lt wf full have "?i + 1 \<le> ?F div ?n" by (auto simp: dp_wf_def split: if_splits)
    then have "(?i + 1) * ?n \<le> ?F div ?n * ?n" using n by (intro mult_right_mono) auto
    also have "\<dots> \<le> ?F" using F pos_mod_sign [OF n, of ?F] by linarith
    finally have "?n \<le> int (length (file_rest dp))" using len by (simp add: algebra_simps)
    with False full n c show ?thesis by auto
  qed
  show "c = take (length c) (file_rest dp)" using c by (simp add: min_def)
  show "cs = chunks (nat ?n) (drop (length c) (file_rest dp))"
    using c cs by (cases "length (file_rest dp) \<le> nat ?n") (auto simp: min_def)
qed

lemma dp_rest_after:
  assumes wf: "dp_wf dp" and left: "dp_left dp = c # cs"
  shows "int (length (file_rest dp) - length c) =
    max 0 (file_size dp - (chunk_index dp + 1) * chunk_size dp)"
proof -
  note sz = dp_left_Cons_size [OF wf left]
  have n: "0 < chunk_size dp" using wf by (simp add: dp_wf_def)
  have le: "length c \<le> length (file_rest dp)" using sz(3) by (metis length_take min.cobounded1)
  have len: "int (length (file_rest dp)) = max 0 (file_size dp - chunk_index dp * chunk_size dp)"
    using wf by (simp add: dp_wf_def)
  show ?thesis
  proof (cases "chunk_index dp = full_chunks_qty dp")
    case True
    then have "chunk_index dp * chunk_size dp = file_size dp - file_size dp mod chunk_size dp"
      using wf by (simp add: dp_wf_def minus_mod_eq_div_mult)
    moreover have "int (length c) = file_size dp mod chunk_size dp"
      using True sz(2) wf by (simp add: dp_wf_def)
    ultimately show ?thesis
      using len le pos_mod_bound [OF n, of "file_size dp"] by (simp add: algebra_simps of_nat_diff)
  next
    case False
    with sz(2) len le n show ?thesis by (simp add: algebra_simps of_nat_diff)
  qed
qed

lemma readChunk_next:
  assumes wf: "dp_wf dp" and left: "dp_left dp = c # cs"
  shows "\<exists>buf dp'. readChunk dp = Inr (Some buf, dp') \<and>
    getCurrentChunkSize dp' = int (length c) \<and> take (length c) buf = c \<and>
    dp_left dp' = cs \<and> dp_wf dp'"
proof -
  note sz = dp_left_Cons_size [OF wf left]
  let ?dp1 = "clearChunk dp\<lparr>current_chunk_size := int (length c)\<rparr>"
  have cl: "chunk_index (clearChunk d) = chunk_index d"
    "full_chunks_qty (clearChunk d) = full_chunks_qty d"
    "last_chunk_size (clearChunk d) = last_chunk_size d"
    "chunk_size (clearChunk d) = chunk_size d" for d
    by (simp_all add: clearChunk_def)
  have "in_int (chunk_index dp + 1)"
    using wf sz(1) by (auto simp: dp_wf_def int_bounds)
  then have r: "readChunk dp = Inr (Some (current_chunk (file_read (int (length c)) ?dp1)),
      (file_read (int (length c)) ?dp1)\<lparr>chunk_index := chunk_index dp + 1\<rparr>)"
    using sz(1,2) by (auto simp: readChunk_def Let_def cl file_read_def clearChunk_def)
  define dp' where "dp' = (file_read (int (length c)) ?dp1)\<lparr>chunk_index := chunk_index dp + 1\<rparr>"
  have got: "take (length c) (file_rest dp) = c" using sz(3) by simp
  have good: "file_good dp" using wf by (simp add: dp_wf_def)
  have dp': "dp' = clearChunk dp\<lparr>current_chunk_size := int (length c),
      current_chunk := memcpy (replicate (nat (chunk_size dp + 1)) (CHR 0x00)) 0 c,
      file_rest := drop (length c) (file_rest dp), file_good := True,
      chunk_index := chunk_index dp + 1\<rparr>"
    using got good by (simp add: dp'_def file_read_def clearChunk_def Let_def)
  have "int (length (drop (length c) (file_rest dp))) =
      max 0 (file_size dp - (chunk_index dp + 1) * chunk_size dp)"
    using dp_rest_after [OF wf left] by simp
  then have "dp_wf dp'"
    using wf sz(1) unfolding dp_wf_def by (auto simp: dp' clearChunk_def)
  moreover have "dp_left dp' = cs"
    using sz(4) by (simp add: dp_left_def dp' clearChunk_def)
  moreover have "take (length c) (current_chunk (file_read (int (length c)) ?dp1)) = c"
    using got good by (simp add: file_read_def clearChunk_def Let_def)
  moreover have "getCurrentChunkSize dp' = int (length c)"
    by (simp add: dp' getCurrentChunkSize_def)
  ultimately show ?thesis using r unfolding dp'_def by blast
qed

lemma remainingChunks_left: "dp_wf dp \<Longrightarrow> remainingChunks dp = int (length (dp_left dp))"
  by (simp add: remainingChunks_def dp_wf_left)

interpretation dp: chunk_source remainingChunks readChunk getCurrentChunkSize dp_left dp_wf
  by unfold_locales (simp_all add: remainingChunks_left readChunk_end readChunk_next)

text \<open>The constructor of an existing file of less than 2 GiB starts well-formed.\<close>

lemma wrap_int_in [simp]: "in_int x \<Longrightarrow> wrap_int x = x"
  by (simp add: wrap_int_def int_bounds)

lemma new_DataProcessor_wf:
  assumes "fs name = Some contents" and "0 < n" and "n < INT_MAX"
    and "int (length contents) < INT_MAX"
  shows "\<exists>dp. new_DataProcessor fs name n = Inr dp \<and> dp_wf dp \<and>
    dp_left dp = chunks (nat n) contents"
proof -
  let ?F = "int (length contents)"
  have "?F div n \<le> ?F" using assms(2) zdiv_mono2 [of ?F 1 n] by simp
  then have b: "0 \<le> ?F div n" "?F div n < INT_MAX"
    using assms by (auto simp: pos_imp_zdiv_nonneg_iff)
  then have i: "in_int ?F" "in_int (n + 1)" "in_int (?F div n + 1)" "in_int (?F div n)"
    using assms by (auto simp: int_bounds)
  have m: "0 \<le> ?F mod n" using assms(2) by simp
  show ?thesis
    using assms i b m
    by (auto simp: new_DataProcessor_def Let_def getFileSize_def iadd_def dp_wf_def dp_left_def
          clearChunk_def)
qed

lemma new_DataProcessor_missing:
  "fs name = None \<Longrightarrow>
     new_DataProcessor fs name n =
       Inl (Throws (Runtime_error (''File '' @ name @ '' does not exist'')))"
  by (simp add: new_DataProcessor_def)

end
