(* ===== verification/Transition.thy ===== *)
theory Transition
  imports Main
begin

section \<open>Transition systems\<close>

text \<open>
  Reachability for a step relation, the invariant rule as a locale, and simulation
  of an abstract system. The timer, the client and its refinement are instances.
\<close>

inductive reach :: "('s \<Rightarrow> bool) \<Rightarrow> ('s \<Rightarrow> 's \<Rightarrow> bool) \<Rightarrow> 's \<Rightarrow> bool"
  for init :: "'s \<Rightarrow> bool" and step :: "'s \<Rightarrow> 's \<Rightarrow> bool"
where
  reach_init: "init s \<Longrightarrow> reach init step s"
| reach_step: "reach init step s \<Longrightarrow> step s t \<Longrightarrow> reach init step t"

text \<open>Runs: the reflexive and transitive closure.\<close>

inductive run :: "('s \<Rightarrow> 's \<Rightarrow> bool) \<Rightarrow> 's \<Rightarrow> 's \<Rightarrow> bool"
  for step :: "'s \<Rightarrow> 's \<Rightarrow> bool"
where
  run_refl [simp, intro]: "run step s s"
| run_step: "step s t \<Longrightarrow> run step t u \<Longrightarrow> run step s u"

lemma run_trans: "run step s t \<Longrightarrow> run step t u \<Longrightarrow> run step s u"
  by (induction rule: run.induct) (auto intro: run_step)

lemma run_one: "step s t \<Longrightarrow> run step s t"
  by (auto intro: run_step)

lemma reach_run: "run step s t \<Longrightarrow> reach init step s \<Longrightarrow> reach init step t"
  by (induction rule: run.induct) (auto intro: reach_step)

locale invariant_system =
  fixes init :: "'s \<Rightarrow> bool"
    and step :: "'s \<Rightarrow> 's \<Rightarrow> bool"
    and inv :: "'s \<Rightarrow> bool"
  assumes inv_init: "init s \<Longrightarrow> inv s"
    and inv_step: "inv s \<Longrightarrow> step s t \<Longrightarrow> inv t"
begin

lemma inv_reach: "reach init step s \<Longrightarrow> inv s"
  by (induction rule: reach.induct) (auto intro: inv_init inv_step)

lemma inv_run: "run step s t \<Longrightarrow> inv s \<Longrightarrow> inv t"
  by (induction rule: run.induct) (auto intro: inv_step)

end

text \<open>
  A detailed system whose steps are, seen through \<open>view\<close>, steps of another or none.
\<close>

locale stuttering_simulation =
  fixes init :: "'s \<Rightarrow> bool"
    and step :: "'s \<Rightarrow> 's \<Rightarrow> bool"
    and detailed_init :: "'d \<Rightarrow> bool"
    and detailed_step :: "'d \<Rightarrow> 'd \<Rightarrow> bool"
    and view :: "'d \<Rightarrow> 's"
  assumes view_init: "detailed_init d \<Longrightarrow> init (view d)"
    and view_step: "detailed_step d e \<Longrightarrow> view e = view d \<or> step (view d) (view e)"
begin

lemma view_run: "run detailed_step d e \<Longrightarrow> run step (view d) (view e)"
  by (induction rule: run.induct) (auto dest: view_step intro: run_step)

lemma view_reach: "reach detailed_init detailed_step d \<Longrightarrow> reach init step (view d)"
  by (induction rule: reach.induct) (auto dest: view_step intro: reach_init reach_step view_init)

end

text \<open>
  A system with a measure that some enabled step always decreases can always be driven
  to a goal.
\<close>

locale progress_system = invariant_system +
  fixes goal :: "'a \<Rightarrow> bool"
    and rank :: "'a \<Rightarrow> nat"
  assumes progress: "inv s \<Longrightarrow> \<not> goal s \<Longrightarrow> \<exists>t. step s t \<and> rank t < rank s"
begin

lemma goal_from_inv: "inv s \<Longrightarrow> \<exists>t. run step s t \<and> goal t"
proof (induction "rank s" arbitrary: s rule: less_induct)
  case less
  show ?case
  proof (cases "goal s")
    case False
    then obtain t where t: "step s t" "rank t < rank s"
      using progress less.prems by blast
    then obtain u where "run step t u" "goal u"
      using less.hyps [of t] inv_step less.prems by blast
    with t(1) show ?thesis by (blast intro: run_step)
  qed blast
qed

lemma goal_reachable: "reach init step s \<Longrightarrow> \<exists>t. run step s t \<and> goal t"
  by (rule goal_from_inv [OF inv_reach])

end

end
