(* ===== verification/Timer.thy ===== *)
theory Timer
  imports Prelude Transition
begin

section \<open>Timers (Timer.h)\<close>

text \<open>
  A timer owns a thread that waits on a condition variable until it is stopped or its
  time is over, and calls its function in the second case. The record holds the
  members; \<open>thread\<close> is where the thread's lambda is (\<open>Waiting\<close> in \<open>wait_for\<close>,
  \<open>Firing\<close> between the unlock and the end of \<open>f()\<close>), \<open>deadline\<close> the time its
  \<open>wait_for\<close> ends and \<open>calls\<close> counts the calls of \<open>f\<close>. The condition variable
  is not state: the wait has a predicate, so a wake-up re-reads \<open>stopped\<close>.
\<close>

subsection \<open>The class\<close>

datatype timer_pc = No_thread | Waiting | Firing | Exited

text \<open>The order in which the thread passes its program points.\<close>

fun pc_rank :: "timer_pc \<Rightarrow> nat" where
  "pc_rank No_thread = 0"
| "pc_rank Waiting = 1"
| "pc_rank Firing = 2"
| "pc_rank Exited = 3"

lemma pc_rank_inj: "pc_rank a = pc_rank b \<Longrightarrow> a = b"
  by (cases a; cases b) simp_all

instantiation timer_pc :: linorder
begin

definition less_eq_timer_pc :: "timer_pc \<Rightarrow> timer_pc \<Rightarrow> bool" where
  "less_eq_timer_pc a b \<longleftrightarrow> pc_rank a \<le> pc_rank b"

definition less_timer_pc :: "timer_pc \<Rightarrow> timer_pc \<Rightarrow> bool" where
  "less_timer_pc a b \<longleftrightarrow> pc_rank a < pc_rank b"

instance
  by standard (auto simp: less_eq_timer_pc_def less_timer_pc_def intro: pc_rank_inj)

end

record timer =
  milliseconds :: int
  detach :: bool
  stopped :: bool
  delta_check_ms :: int
  started :: bool
  finished :: bool
  thread :: timer_pc
  deadline :: int
  calls :: nat

definition timer_start :: "int \<Rightarrow> timer \<Rightarrow> timer" where
  "timer_start now t =
     (let t = t\<lparr>started := True\<rparr>;
          t = (if milliseconds t < delta_check_ms t then t\<lparr>delta_check_ms := milliseconds t\<rparr> else t)
      in t\<lparr>thread := Waiting, deadline := now + milliseconds t\<rparr>)"

definition new_Timer :: "int \<Rightarrow> int \<Rightarrow> int \<Rightarrow> bool \<Rightarrow> timer" where
  "new_Timer now ms delta det =
     timer_start now
       \<lparr>milliseconds = ms, detach = det, stopped = False, delta_check_ms = delta, started = False,
        finished = False, thread = No_thread, deadline = 0, calls = 0\<rparr>"

definition has_started :: "timer \<Rightarrow> bool" where "has_started t = started t"
definition is_stopped :: "timer \<Rightarrow> bool" where "is_stopped t = stopped t"
definition is_finished :: "timer \<Rightarrow> bool" where "is_finished t = finished t"

definition setDetachOn :: "timer \<Rightarrow> timer" where
  "setDetachOn t = t\<lparr>detach := True\<rparr>"

definition timer_stop :: "timer \<Rightarrow> timer" where
  "timer_stop t =
     (if \<not> has_started t \<or> is_stopped t \<or> is_finished t then t else t\<lparr>stopped := True\<rparr>)"

text \<open>
  \<open>startTimeout\<close> hands its flag \<open>detach\<close> on as the third argument of the
  constructor, which is \<open>delta_check_ms\<close>; the constructor's \<open>detach\<close> keeps its
  default.
\<close>

definition startTimeout :: "int \<Rightarrow> int \<Rightarrow> bool \<Rightarrow> timer" where
  "startTimeout now ms det = new_Timer now ms (if det then 1 else 0) False"

text \<open>
  The thread. \<open>thread_wait\<close> is the part under the lock: \<open>None\<close> while \<open>wait_for\<close>
  still blocks. \<open>thread_exit\<close> is the assignment after \<open>f()\<close>.
\<close>

definition thread_wait :: "int \<Rightarrow> timer \<Rightarrow> timer option" where
  "thread_wait now t =
     (if thread t \<noteq> Waiting then None
      else if stopped t then Some (t\<lparr>finished := True, thread := Exited\<rparr>)
      else if deadline t \<le> now then Some (t\<lparr>stopped := True, thread := Firing\<rparr>)
      else None)"

definition thread_exit :: "timer \<Rightarrow> timer" where
  "thread_exit t = t\<lparr>calls := calls t + 1, finished := True, thread := Exited\<rparr>"

text \<open>
  The destructor blocks in \<open>join\<close> unless there is no thread to join, the timer is
  detached or the thread is over.
\<close>

definition dtor_blocks :: "timer \<Rightarrow> bool" where
  "dtor_blocks t \<longleftrightarrow>
     started t \<and> thread t \<noteq> No_thread \<and> \<not> detach t \<and> thread t \<noteq> Exited"

lemmas timer_ops = timer_start_def new_Timer_def has_started_def is_stopped_def is_finished_def
  timer_stop_def startTimeout_def thread_wait_def thread_exit_def dtor_blocks_def setDetachOn_def
  Let_def

subsection \<open>The timer as a transition system\<close>

text \<open>The clock moves forward; anyone may stop the timer; the thread runs.\<close>

inductive timer_step :: "int \<times> timer \<Rightarrow> int \<times> timer \<Rightarrow> bool" where
  tick: "now \<le> now' \<Longrightarrow> timer_step (now, t) (now', t)"
| stop: "timer_step (now, t) (now, timer_stop t)"
| wait_over: "thread_wait now t = Some t' \<Longrightarrow> timer_step (now, t) (now, t')"
| called: "thread t = Firing \<Longrightarrow> timer_step (now, t) (now, thread_exit t)"

inductive_cases timer_stepE: "timer_step (now, t) (now', t')"
inductive_simps timer_step_simps: "timer_step (now, t) (now', t')"

definition timer_init :: "int \<times> timer \<Rightarrow> bool" where
  "timer_init = (\<lambda>(now, t). \<exists>ms det. t = startTimeout now ms det)"

fun timer_inv :: "int \<times> timer \<Rightarrow> bool" where
  "timer_inv (now, t) \<longleftrightarrow>
     started t \<and> \<not> detach t \<and> thread t \<noteq> No_thread \<and>
     (finished t \<longleftrightarrow> thread t = Exited) \<and>
     (thread t = Firing \<longrightarrow> stopped t \<and> deadline t \<le> now) \<and>
     (thread t = Exited \<longrightarrow> stopped t) \<and>
     calls t = (if thread t = Exited then calls t else 0) \<and> calls t \<le> 1 \<and>
     (0 < calls t \<longrightarrow> deadline t \<le> now)"

lemma startTimeout_fields [simp]:
  "started (startTimeout now ms det)" "\<not> detach (startTimeout now ms det)"
  "thread (startTimeout now ms det) = Waiting" "\<not> finished (startTimeout now ms det)"
  "\<not> stopped (startTimeout now ms det)" "calls (startTimeout now ms det) = 0"
  "deadline (startTimeout now ms det) = now + ms"
  "milliseconds (startTimeout now ms det) = ms"
  by (simp_all add: timer_ops)

lemma timer_inv_init: "timer_init x \<Longrightarrow> timer_inv x"
  by (cases x) (auto simp: timer_init_def)

lemma timer_inv_step: "timer_inv x \<Longrightarrow> timer_step x y \<Longrightarrow> timer_inv y"
  by (cases x; cases y) (auto elim!: timer_stepE simp: timer_ops split: if_splits)

interpretation timer_sys: invariant_system timer_init timer_step timer_inv
  by unfold_locales (fact timer_inv_init timer_inv_step)+

text \<open>Program points and flags only move forward.\<close>

lemma timer_step_mono:
  "timer_inv (now, t) \<Longrightarrow> timer_step (now, t) (now', t') \<Longrightarrow>
     now \<le> now' \<and> thread t \<le> thread t' \<and> (stopped t \<longrightarrow> stopped t') \<and>
     (finished t \<longrightarrow> finished t') \<and> deadline t' = deadline t"
  by (auto elim!: timer_stepE simp: timer_ops less_eq_timer_pc_def split: if_splits)

text \<open>
  A timer stopped in time: while its thread waits and \<open>stopped\<close> is set, or after it left
  without a call, the function is never called.
\<close>

definition cancelled :: "int \<times> timer \<Rightarrow> bool" where
  "cancelled = (\<lambda>(now, t). stopped t \<and> calls t = 0 \<and> thread t \<in> {Waiting, Exited})"

lemma cancelled_step: "cancelled x \<Longrightarrow> timer_step x y \<Longrightarrow> cancelled y"
  by (cases x; cases y) (auto elim!: timer_stepE simp: cancelled_def timer_ops split: if_splits)

interpretation timer_cancelled: invariant_system cancelled timer_step cancelled
  by unfold_locales (auto intro: cancelled_step)

text \<open>The thread always can run to its end.\<close>

definition timer_left :: "int \<times> timer \<Rightarrow> nat" where
  "timer_left = (\<lambda>(now, t). 2 * (3 - pc_rank (thread t)) + (if deadline t \<le> now then 0 else 1))"

lemma timer_progress:
  assumes "timer_inv x" and "\<not> finished (snd x)"
  shows "\<exists>y. timer_step x y \<and> timer_left y < timer_left x"
proof -
  obtain now t where x: "x = (now, t)" by (cases x)
  from assms x have "thread t = Waiting \<or> thread t = Firing"
    by (cases "thread t") auto
  then consider "thread t = Firing" | "thread t = Waiting" "stopped t \<or> deadline t \<le> now"
    | "thread t = Waiting" "\<not> deadline t \<le> now" by blast
  then show ?thesis
  proof cases
    case 1
    then have "timer_step x (now, thread_exit t)" by (simp add: x timer_step.called)
    with 1 show ?thesis
      by (intro exI [of _ "(now, thread_exit t)"]) (simp add: x timer_left_def thread_exit_def)
  next
    case 2
    then obtain t' where t': "thread_wait now t = Some t'" "pc_rank (thread t') \<ge> 2"
      "deadline t' = deadline t" by (cases "stopped t") (auto simp: thread_wait_def)
    then have "timer_step x (now, t')" by (simp add: x timer_step.wait_over)
    with 2 t' show ?thesis
      by (intro exI [of _ "(now, t')"]) (auto simp: x timer_left_def)
  next
    case 3
    then have "timer_step x (deadline t, t)" by (simp add: x timer_step.tick)
    with 3 show ?thesis
      by (intro exI [of _ "(deadline t, t)"]) (simp add: x timer_left_def)
  qed
qed

interpretation timer_end: progress_system timer_init timer_step timer_inv
  "\<lambda>x. finished (snd x)" timer_left
  by unfold_locales (rule timer_progress)

end
