(* ===== verification/ClientSender.thy ===== *)
theory ClientSender
  imports ClientSubject Packet DataProcessor Timer
begin

section \<open>The sending half (ClientSender)\<close>

text \<open>
  The Go-back-N sender: a ring of \<open>max_seq_num_b10 + 1\<close> sequence numbers, a window
  between \<open>base_idx\<close> and \<open>next_seq_num_idx\<close>, cumulative acknowledgements, one
  retransmission timer and a smoothed round-trip time.

  The record has the members of the class. The last three fields are the environment
  its operations act on: the heap of timers (a \<open>unique_ptr\<close> to a timer is an index of
  it, the null pointer is \<open>None\<close>), the datagrams given to the socket so far, and the
  clock. Mutexes are not state: each function below runs as one step.
\<close>

record client_sender =
  dataProcessor :: data_processor
  base_idx :: int
  next_seq_num_idx :: int
  acked_count :: int
  window_size :: int
  packet_size :: int
  server_port :: string
  server_host :: string
  max_seq_number :: int
  max_seq_num_b10 :: int
  last_acked_packet :: int
  max_seq_num_sent :: int
  finished_sending_data :: bool
  window_map :: "packet option list"
  estimated_rtt :: int
  timeoutTimer :: "nat option"
  olderTimers :: "nat option list"
  timers :: "timer list"
  wire :: "string list"
  now :: int

definition TIMEOUT_MILLISECONDS_WAIT :: int where "TIMEOUT_MILLISECONDS_WAIT = 1000"
definition UNRELIABLE_PACKET_DELAY_MS :: int where "UNRELIABLE_PACKET_DELAY_MS = 0"

subsection \<open>Construction\<close>

text \<open>
  The members are initialised in the order of their declaration: the data processor
  may throw, the sequence-number bound may overflow, the window map gets one null
  pointer per sequence number. Opening the socket and resolving the host are asio's and
  not modelled; the size computed for the socket's send buffer may overflow.
\<close>

definition new_ClientSender ::
    "file_system \<Rightarrow> int \<Rightarrow> int \<Rightarrow> client_subject \<Rightarrow> client_sender res" where
  "new_ClientSender fs clock chunkSize subj =
     rbind (new_DataProcessor fs (getFilename subj) chunkSize) (\<lambda>dp.
     rbind (pow10_minus_1 (getMax_seq_number subj)) (\<lambda>b10.
     rbind (iadd b10 1) (\<lambda>n.
     rbind (iadd (getPacket_size subj) 32) (\<lambda>a.
     rbind (iadd a (getMax_seq_number subj)) (\<lambda>a.
     rbind (iadd a 256) (\<lambda>_.
     Inr \<lparr>dataProcessor = dp, base_idx = 0, next_seq_num_idx = 0, acked_count = 0,
          window_size = getWindow_size subj, packet_size = getPacket_size subj,
          server_port = to_string (getServer_port subj), server_host = getServer_host subj,
          max_seq_number = getMax_seq_number subj, max_seq_num_b10 = b10,
          last_acked_packet = -1, max_seq_num_sent = -1, finished_sending_data = False,
          window_map = replicate (nat n) None, estimated_rtt = TIMEOUT_MILLISECONDS_WAIT,
          timeoutTimer = None, olderTimers = [], timers = [], wire = [], now = clock\<rparr>))))))"

subsection \<open>Accessors\<close>

definition getNextSeqNum :: "client_sender \<Rightarrow> int" where
  "getNextSeqNum s = next_seq_num_idx s"

definition getBaseIdx :: "client_sender \<Rightarrow> int" where
  "getBaseIdx s = base_idx s"

definition getWindowSize :: "client_sender \<Rightarrow> int" where
  "getWindowSize s = window_size s"

definition getAckedPacketsCount :: "client_sender \<Rightarrow> int" where
  "getAckedPacketsCount s = acked_count s"

definition setAckedPacketsCount :: "int \<Rightarrow> client_sender \<Rightarrow> client_sender" where
  "setAckedPacketsCount newval s = s\<lparr>acked_count := newval\<rparr>"

definition incNextSeqNum :: "client_sender \<Rightarrow> client_sender res" where
  "incNextSeqNum s =
     rbind (iadd (next_seq_num_idx s) 1) (\<lambda>a.
     rbind (iadd (max_seq_num_b10 s) 1) (\<lambda>m.
     rbind (imod a m) (\<lambda>r. Inr (s\<lparr>next_seq_num_idx := r\<rparr>))))"

definition setBaseIdx :: "int \<Rightarrow> client_sender \<Rightarrow> client_sender res" where
  "setBaseIdx new_value s =
     rbind (iadd (max_seq_num_b10 s) 1) (\<lambda>m.
     rbind (imod new_value m) (\<lambda>r. Inr (s\<lparr>base_idx := r\<rparr>)))"

definition resetChunkVars :: "client_sender \<Rightarrow> client_sender" where
  "resetChunkVars s = setAckedPacketsCount 0 s"

text \<open>\<open>calculateEstimatedRTT\<close> has an empty body.\<close>

definition calculateEstimatedRTT :: "client_sender \<Rightarrow> client_sender" where
  "calculateEstimatedRTT s = s"

text \<open>\<open>window_map[i]\<close> is not checked; dereferencing a null element is undefined.\<close>

definition window_get :: "int \<Rightarrow> client_sender \<Rightarrow> packet res" where
  "window_get i s =
     (if 0 \<le> i \<and> i < int (length (window_map s))
      then (case window_map s ! nat i of
              None \<Rightarrow> Inl (Undefined Null_dereference) | Some p \<Rightarrow> Inr p)
      else Inl (Undefined Index_out_of_bounds))"

definition window_put :: "int \<Rightarrow> packet \<Rightarrow> client_sender \<Rightarrow> client_sender res" where
  "window_put i p s =
     (if 0 \<le> i \<and> i < int (length (window_map s))
      then Inr (s\<lparr>window_map := (window_map s)[nat i := Some p]\<rparr>)
      else Inl (Undefined Index_out_of_bounds))"

subsection \<open>Splitting a chunk in packets\<close>

text \<open>
  The loop over \<open>packet_idx\<close>, with the number of its remaining rounds. A range that
  leaves the chunk's buffer would be an overread.
\<close>

fun packets_loop :: "string \<Rightarrow> int \<Rightarrow> int \<Rightarrow> int \<Rightarrow> int \<Rightarrow> nat \<Rightarrow> string list res" where
  "packets_loop raw_data psize full_packets_qty last_packet_size packet_idx 0 = Inr []"
| "packets_loop raw_data psize full_packets_qty last_packet_size packet_idx (Suc n) =
     (let current_packet_sz = (if packet_idx = full_packets_qty then last_packet_size else psize)
      in rbind (imul packet_idx psize) (\<lambda>i.
         if i < 0 \<or> current_packet_sz < 0 \<or> int (length raw_data) < i + current_packet_sz
         then Inl (Undefined Buffer_overread)
         else rbind (packets_loop raw_data psize full_packets_qty last_packet_size (packet_idx + 1) n)
                (\<lambda>result. Inr (take (nat current_packet_sz) (drop (nat i) raw_data) # result))))"

definition generatePacketsData :: "int \<Rightarrow> string \<Rightarrow> int \<Rightarrow> string list res" where
  "generatePacketsData psize raw_data data_size =
     rbind (idiv data_size psize) (\<lambda>full_packets_qty.
     rbind (imod data_size psize) (\<lambda>last_packet_size.
     rbind (iadd full_packets_qty (if 0 < last_packet_size then 1 else 0)) (\<lambda>total_packets_qty.
     packets_loop raw_data psize full_packets_qty last_packet_size 0 (nat total_packets_qty))))"

definition generatePacket :: "string \<Rightarrow> int \<Rightarrow> client_sender \<Rightarrow> packet" where
  "generatePacket raw_data packet_seq_num s = new_Packet (max_seq_number s) packet_seq_num raw_data"

subsection \<open>The window test\<close>

definition canAdvance :: "client_sender \<Rightarrow> bool res" where
  "canAdvance s =
     (let next_seq_num = getNextSeqNum s; base = getBaseIdx s; wsize = getWindowSize s
      in rbind (if base \<le> next_seq_num
                then rbind (iadd base wsize) (\<lambda>t. Inr (next_seq_num < t))
                else Inr False) (\<lambda>in_line.
         if in_line then Inr True
         else if next_seq_num < base
         then rbind (iadd base wsize) (\<lambda>t.
              rbind (iadd (max_seq_num_b10 s) 1) (\<lambda>m.
              rbind (imod t m) (\<lambda>r. Inr (next_seq_num < r))))
         else Inr False))"

subsection \<open>Timers\<close>

text \<open>
  The running timer is stopped and moved to the end of \<open>olderTimers\<close> (a null pointer
  the first time), and a new one is started with the estimated round-trip time.
\<close>

definition stop_timer_at :: "nat \<Rightarrow> client_sender \<Rightarrow> client_sender" where
  "stop_timer_at i s = s\<lparr>timers := (timers s)[i := timer_stop (timers s ! i)]\<rparr>"

definition startTimeoutTimer :: "client_sender \<Rightarrow> client_sender" where
  "startTimeoutTimer s =
     (let s = (case timeoutTimer s of None \<Rightarrow> s | Some i \<Rightarrow> stop_timer_at i s);
          s = s\<lparr>olderTimers := olderTimers s @ [timeoutTimer s], timeoutTimer := None\<rparr>
      in s\<lparr>timers := timers s @ [startTimeout (now s) (estimated_rtt s) False],
           timeoutTimer := Some (length (timers s))\<rparr>)"

definition cleanTimers :: "client_sender \<Rightarrow> client_sender" where
  "cleanTimers s =
     s\<lparr>olderTimers := dropWhile (\<lambda>t. case t of None \<Rightarrow> True
          | Some i \<Rightarrow> is_finished (timers s ! i)) (olderTimers s)\<rparr>"

subsection \<open>Sending\<close>

definition sendPacketUnreliable :: "string \<Rightarrow> int \<Rightarrow> client_sender \<Rightarrow> client_sender" where
  "sendPacketUnreliable data ms_to_sleep s =
     (let s = s\<lparr>wire := wire s @ [data]\<rparr>
      in if 0 < ms_to_sleep then s\<lparr>now := now s + ms_to_sleep\<rparr> else s)"

definition endConnection :: "client_sender \<Rightarrow> client_sender" where
  "endConnection s = sendPacketUnreliable [] 0 s"

text \<open>
  \<open>sendPacketReliable\<close> after its wait: the wait ends in a state where \<open>canAdvance\<close>
  holds (the client's step relation has it as the guard). First the packet goes to the
  window and to the socket.
\<close>

definition send_packet :: "string \<Rightarrow> client_sender \<Rightarrow> client_sender res" where
  "send_packet raw_data s =
     (let next_seq_num = getNextSeqNum s;
          s = s\<lparr>max_seq_num_sent := next_seq_num\<rparr>
      in rbind (window_put next_seq_num (generatePacket raw_data next_seq_num s) s) (\<lambda>s.
         rbind (window_get next_seq_num s) (\<lambda>packet.
         let (str, packet) = generatePacketString (startTimeoutCount (now s) packet)
         in rbind (window_put next_seq_num packet s) (\<lambda>s.
            Inr (sendPacketUnreliable str UNRELIABLE_PACKET_DELAY_MS s)))))"

definition sendPacketReliable :: "string \<Rightarrow> client_sender \<Rightarrow> client_sender res" where
  "sendPacketReliable raw_data s =
     rbind (send_packet raw_data s) (\<lambda>s.
     let s = (if getBaseIdx s = getNextSeqNum s then startTimeoutTimer s else s)
     in incNextSeqNum s)"

subsection \<open>Retransmission\<close>

definition resend_guard :: "int \<Rightarrow> int \<Rightarrow> int \<Rightarrow> int \<Rightarrow> int \<Rightarrow> bool" where
  "resend_guard nseqnum bidx buffer_size wsize i \<longleftrightarrow>
     bidx \<le> nseqnum \<and> i < nseqnum \<or>
     nseqnum < bidx \<and> buffer_size - (bidx - nseqnum) \<le> wsize \<and> (bidx \<le> i \<or> i < nseqnum)"

definition resend_packet :: "int \<Rightarrow> client_sender \<Rightarrow> client_sender res" where
  "resend_packet i s =
     rbind (window_get i s) (\<lambda>packet.
     let (str, packet) = generatePacketString (setRetransmitted packet)
     in rbind (window_put i packet s) (\<lambda>s.
        Inr (sendPacketUnreliable str UNRELIABLE_PACKET_DELAY_MS s)))"

text \<open>The loop of \<open>timeoutHandler\<close>; \<open>None\<close> means that it does not end.\<close>

partial_function (option) resend_loop ::
    "int \<Rightarrow> int \<Rightarrow> int \<Rightarrow> int \<Rightarrow> int \<Rightarrow> client_sender \<Rightarrow> client_sender res option" where
  "resend_loop nseqnum bidx buffer_size wsize i s =
     (if resend_guard nseqnum bidx buffer_size wsize i
      then (case rbind (resend_packet i s) (\<lambda>s.
              rbind (iadd i 1) (\<lambda>a. rbind (imod a buffer_size) (\<lambda>i. Inr (i, s)))) of
              Inl e \<Rightarrow> Some (Inl e)
            | Inr (i, s) \<Rightarrow> resend_loop nseqnum bidx buffer_size wsize i s)
      else Some (Inr s))"

definition timeoutHandler :: "client_sender \<Rightarrow> client_sender res option" where
  "timeoutHandler s =
     (if finished_sending_data s then Some (Inr s)
      else (let nseqnum = getNextSeqNum s; bidx = getBaseIdx s; wsize = getWindowSize s
            in case iadd (max_seq_num_b10 s) 1 of
                 Inl e \<Rightarrow> Some (Inl e)
               | Inr buffer_size \<Rightarrow>
                   map_option (\<lambda>r. rbind r (\<lambda>s. Inr (startTimeoutTimer s)))
                     (resend_loop nseqnum bidx buffer_size wsize bidx s)))"

subsection \<open>Acknowledgements\<close>

text \<open>
  \<open>(int) ((1 - ALPHA) * estimated_rtt + ALPHA * sampled_rtt)\<close> with
  \<open>ALPHA = 0.125\<close>: both products and their sum are multiples of 1/8, exact in
  \<open>double\<close> whenever the result is an \<open>int\<close>; the conversion truncates.
\<close>

definition smoothed_rtt :: "int \<Rightarrow> int \<Rightarrow> int res" where
  "smoothed_rtt estimated sampled =
     (let r = (7 * estimated + sampled) sdiv 8
      in if in_int r then Inr r else Inl (Undefined Float_to_int))"

definition sample_rtt :: "packet \<Rightarrow> client_sender \<Rightarrow> client_sender res" where
  "sample_rtt packet s =
     (if getRetransmitted packet then Inr s
      else rbind (smoothed_rtt (estimated_rtt s) (now s - getStartingTime packet))
             (\<lambda>r. Inr (s\<lparr>estimated_rtt := r\<rparr>)))"

definition count_acked :: "int \<Rightarrow> client_sender \<Rightarrow> client_sender res" where
  "count_acked k s =
     rbind (if k < last_acked_packet s
            then rbind (isub (max_seq_num_b10 s) (last_acked_packet s)) (\<lambda>a.
                 rbind (iadd a k) (\<lambda>a.
                 rbind (iadd a 1) (\<lambda>a. iadd (acked_count s) a)))
            else rbind (isub k (last_acked_packet s)) (\<lambda>a. iadd (acked_count s) a))
       (\<lambda>c. Inr (s\<lparr>acked_count := c, last_acked_packet := k\<rparr>))"

definition stop_or_restart_timer :: "client_sender \<Rightarrow> client_sender res" where
  "stop_or_restart_timer s =
     (if getBaseIdx s = getNextSeqNum s
      then (case timeoutTimer s of
              None \<Rightarrow> Inl (Undefined Null_dereference)
            | Some i \<Rightarrow> Inr (stop_timer_at i s))
      else Inr (startTimeoutTimer s))"

definition ackedPacket :: "int \<Rightarrow> client_sender \<Rightarrow> client_sender res" where
  "ackedPacket k s =
     (let s = cleanTimers s
      in if finished_sending_data s then Inr (endConnection s)
         else rbind (window_get k s) (\<lambda>packet.
              if getAcked packet then Inr s
              else rbind (sample_rtt packet s) (\<lambda>s.
                   rbind (iadd k 1) (\<lambda>k1.
                   rbind (setBaseIdx k1 s) (\<lambda>s.
                   rbind (stop_or_restart_timer s) (\<lambda>s.
                   rbind (count_acked k s) (\<lambda>s.
                   rbind (window_get k s) (\<lambda>packet.
                   window_put k (setAcked packet) s))))))))"

subsection \<open>The thread\<close>

text \<open>
  \<open>sendChunk\<close> up to its loop over the packets: \<open>None\<close> when it returns \<open>false\<close>.
\<close>

definition sendChunk_read :: "client_sender \<Rightarrow> (string list option \<times> client_sender) res" where
  "sendChunk_read s =
     (if remainingChunks (dataProcessor s) = 0 then Inr (None, s)
      else rbind (readChunk (dataProcessor s)) (\<lambda>(dataChunk, dp).
           case dataChunk of
             None \<Rightarrow> Inl (Undefined Null_dereference)
           | Some raw \<Rightarrow>
               rbind (generatePacketsData (packet_size s) raw (getCurrentChunkSize dp)) (\<lambda>ds.
               Inr (Some ds, s\<lparr>dataProcessor := dp\<rparr>))))"

text \<open>
  The predicate its second wait ends with; the count is compared as a \<open>size_t\<close>. Then
  the chunk is closed.
\<close>

definition chunk_acked :: "nat \<Rightarrow> client_sender \<Rightarrow> bool" where
  "chunk_acked qty s \<longleftrightarrow> to_size_t (getAckedPacketsCount s) = qty"

definition close_chunk :: "client_sender \<Rightarrow> client_sender" where
  "close_chunk s = resetChunkVars (cleanTimers s)"

text \<open>\<open>threadFun\<close> after its loop, up to \<open>stopReceiver\<close>.\<close>

definition threadFun_end :: "client_sender \<Rightarrow> client_sender" where
  "threadFun_end s =
     (let s = endConnection (s\<lparr>finished_sending_data := True\<rparr>)
      in case timeoutTimer s of
           None \<Rightarrow> s
         | Some i \<Rightarrow> if has_started (timers s ! i) then stop_timer_at i s else s)"

end
