(* ===== verification/ClientReceiver.thy ===== *)
theory ClientReceiver
  imports ClientSubject Packet
begin

section \<open>The receiving half (ClientReceiver)\<close>

text \<open>
  A thread that waits for datagrams, checks each as an acknowledgement and hands the
  sequence number to its \<open>ClientSubject\<close>. What it needs from the subject is the locale
  \<open>ack_sink\<close>. The socket's \<open>receive_from\<close> is the operating system's: a datagram
  arrives whole, cut at the size of the buffer.
\<close>

subsection \<open>The class\<close>

record client_receiver =
  rx_window_size :: int
  rx_packet_size :: int
  rx_client_port :: int
  rx_max_seq_number :: int
  rx_max_seq_num_b10 :: int

definition new_ClientReceiver :: "client_subject \<Rightarrow> client_receiver res" where
  "new_ClientReceiver subj =
     rbind (pow10_minus_1 (getMax_seq_number subj)) (\<lambda>b10.
     Inr \<lparr>rx_window_size = getWindow_size subj, rx_packet_size = getPacket_size subj,
          rx_client_port = getClient_port subj, rx_max_seq_number = getMax_seq_number subj,
          rx_max_seq_num_b10 = b10\<rparr>)"

text \<open>
  The size of the buffer; an array of negative size cannot be allocated.
\<close>

definition rx_buffer_size :: "client_receiver \<Rightarrow> nat res" where
  "rx_buffer_size r =
     rbind (iadd (rx_packet_size r) 1) (\<lambda>a.
     rbind (iadd a 32) (\<lambda>a.
     rbind (iadd a (rx_max_seq_number r)) (\<lambda>buffer_sz.
     if buffer_sz < 0 then Inl (Throws Bad_alloc) else Inr (nat buffer_sz))))"

text \<open>\<open>std::string (char *)\<close> stops at the first zero byte; without one it leaves the buffer.\<close>

definition c_string :: "string \<Rightarrow> string res" where
  "c_string buffer =
     (if CHR 0x00 \<in> set buffer then Inr (takeWhile (\<lambda>c. c \<noteq> CHR 0x00) buffer)
      else Inl (Undefined Buffer_overread))"

text \<open>
  One round of the loop: the buffer of \<open>n\<close> bytes is cleared and filled; the flag of
  the result is \<open>False\<close> when the loop breaks. \<open>on_ack\<close> is the subject's
  \<open>ackedPacket\<close> and \<open>s\<close> its state.
\<close>

definition receive_datagram ::
    "(int \<Rightarrow> 's \<Rightarrow> 's res) \<Rightarrow> client_receiver \<Rightarrow> nat \<Rightarrow> string \<Rightarrow> 's \<Rightarrow> (bool \<times> 's) res" where
  "receive_datagram on_ack r n dg s =
     (let received = take n dg; tmp_buffer = memcpy (replicate n (CHR 0x00)) 0 received
      in if length received = 0 then Inr (False, s)
         else rbind (c_string tmp_buffer) (\<lambda>input_raw_packet.
              rbind (checkPacketIntegrity input_raw_packet (rx_max_seq_number r) True) (\<lambda>ok.
              if ok
              then rbind (extract_seq_num input_raw_packet (rx_max_seq_number r)) (\<lambda>packet_seq_num.
                   rbind (on_ack packet_seq_num s) (\<lambda>s. Inr (True, s)))
              else Inr (True, s))))"

text \<open>The thread on the datagrams that arrive, in order.\<close>

fun receive_loop ::
    "(int \<Rightarrow> 's \<Rightarrow> 's res) \<Rightarrow> client_receiver \<Rightarrow> nat \<Rightarrow> string list \<Rightarrow> 's \<Rightarrow> (bool \<times> 's) res" where
  "receive_loop on_ack r n [] s = Inr (True, s)"
| "receive_loop on_ack r n (dg # dgs) s =
     rbind (receive_datagram on_ack r n dg s) (\<lambda>(continue, s).
       if continue then receive_loop on_ack r n dgs s else Inr (False, s))"

definition receiver_threadFun ::
    "(int \<Rightarrow> 's \<Rightarrow> 's res) \<Rightarrow> client_receiver \<Rightarrow> string list \<Rightarrow> 's \<Rightarrow> (bool \<times> 's) res" where
  "receiver_threadFun on_ack r dgs s =
     rbind (rx_buffer_size r) (\<lambda>n. receive_loop on_ack r n dgs s)"

subsection \<open>What a datagram does\<close>

text \<open>The text the receiver sees of a datagram that arrives.\<close>

definition seen :: "nat \<Rightarrow> string \<Rightarrow> string" where
  "seen n dg = takeWhile (\<lambda>c. c \<noteq> CHR 0x00) (take n dg)"

lemma takeWhile_app_zeros:
  "takeWhile (\<lambda>c. c \<noteq> CHR 0x00) (s @ replicate k (CHR 0x00)) =
     takeWhile (\<lambda>c. c \<noteq> CHR 0x00) s"
  by (induction s) (auto simp: takeWhile_eq_Nil_iff)

lemma c_string_received:
  "c_string (memcpy (replicate n (CHR 0x00)) 0 (take n dg)) =
     (if length dg < n \<or> CHR 0x00 \<in> set (take n dg) then Inr (seen n dg)
      else Inl (Undefined Buffer_overread))"
proof -
  have "memcpy (replicate n (CHR 0x00)) 0 (take n dg) =
      take n dg @ replicate (n - length dg) (CHR 0x00)"
    by (cases "n \<le> length dg") (simp_all add: memcpy_def)
  then show ?thesis
    by (auto simp: c_string_def seen_def takeWhile_app_zeros)
qed

text \<open>Which bytes leave the buffer without a terminator.\<close>

definition overruns :: "nat \<Rightarrow> string \<Rightarrow> bool" where
  "overruns n dg \<longleftrightarrow> n \<le> length dg \<and> CHR 0x00 \<notin> set (take n dg)"

lemma receive_empty [simp]: "receive_datagram on_ack r n [] s = Inr (False, s)"
  by (simp add: receive_datagram_def)


lemma receive_seen:
  assumes "0 < n" and "dg \<noteq> []" and "\<not> overruns n dg"
  shows "receive_datagram on_ack r n dg s =
    rbind (checkPacketIntegrity (seen n dg) (rx_max_seq_number r) True) (\<lambda>ok.
      if ok
      then rbind (extract_seq_num (seen n dg) (rx_max_seq_number r)) (\<lambda>k.
           rbind (on_ack k s) (\<lambda>s. Inr (True, s)))
      else Inr (True, s))"
  using assms by (auto simp: receive_datagram_def Let_def c_string_received overruns_def)


text \<open>A datagram whose digest does not match is ignored.\<close>

definition corrupted :: "int \<Rightarrow> nat \<Rightarrow> string \<Rightarrow> bool" where
  "corrupted d n dg \<longleftrightarrow>
     dg \<noteq> [] \<and> \<not> overruns n dg \<and> checkPacketIntegrity (seen n dg) d True = Inr False"

lemma receive_corrupted:
  "0 < n \<Longrightarrow> corrupted (rx_max_seq_number r) n dg \<Longrightarrow>
     receive_datagram on_ack r n dg s = Inr (True, s)"
  by (simp add: corrupted_def receive_seen)

text \<open>An acknowledgement arrives whole and its number is handed on.\<close>

lemma digits_not_nul: "list_all is_digit s \<Longrightarrow> CHR 0x00 \<notin> set s"
  by (induction s) (auto simp: is_digit_def)

lemma ack_datagram_not_nul:
  assumes "fits d k"
  shows "CHR 0x00 \<notin> set (ack_datagram d k)"
proof -
  have "CHR 0x00 \<notin> set (to_string k)"
    using assms digits_not_nul [OF nat_str_digits] by (simp add: to_string_def fits_def)
  then show ?thesis
    using md5.no_nul_H by (simp add: ack_datagram_def seq_field_def)
qed

lemma receive_ack_datagram:
  assumes "fits d k" and "rx_max_seq_number r = int d" and "d + 32 < n"
  shows "receive_datagram on_ack r n (ack_datagram d k) s =
    rbind (on_ack k s) (\<lambda>s. Inr (True, s))"
proof -
  note ack = ack_datagram_accepted [OF assms(1)]
  have "seen n (ack_datagram d k) = ack_datagram d k"
    using ack_datagram_not_nul [OF assms(1)] assms(3) ack(3)
    by (auto simp: seen_def takeWhile_eq_all_conv)
  moreover have "\<not> overruns n (ack_datagram d k)" using assms(3) ack(3) by (simp add: overruns_def)
  moreover have "ack_datagram d k \<noteq> []" using ack(3) by auto
  ultimately show ?thesis using assms(2,3) ack by (simp add: receive_seen)
qed






subsection \<open>The contract with the subject\<close>

text \<open>
  \<open>ackedPacket\<close> takes the acknowledgements it \<open>accepts\<close> without failing and keeps
  an invariant. The receiver is then safe on every sequence of datagrams that are, in the
  state they arrive in, corrupted, empty or an acceptable acknowledgement.
\<close>

locale ack_sink =
  fixes on_ack :: "int \<Rightarrow> 's \<Rightarrow> 's res"
    and inv :: "'s \<Rightarrow> bool"
    and accepts :: "'s \<Rightarrow> int \<Rightarrow> bool"
  assumes acked_ok: "inv s \<Longrightarrow> accepts s k \<Longrightarrow> \<exists>s'. on_ack k s = Inr s' \<and> inv s'"

definition harmless ::
    "('s \<Rightarrow> int \<Rightarrow> bool) \<Rightarrow> nat \<Rightarrow> nat \<Rightarrow> 's \<Rightarrow> string \<Rightarrow> bool" where
  "harmless accepts d n s dg \<longleftrightarrow>
     dg = [] \<or> corrupted (int d) n dg \<or>
     (\<exists>k. dg = ack_datagram d k \<and> fits d k \<and> accepts s k)"

fun harmless_run ::
    "(int \<Rightarrow> 's \<Rightarrow> 's res) \<Rightarrow> ('s \<Rightarrow> int \<Rightarrow> bool) \<Rightarrow> client_receiver \<Rightarrow> nat \<Rightarrow> nat \<Rightarrow>
     string list \<Rightarrow> 's \<Rightarrow> bool" where
  "harmless_run on_ack accepts r d n [] s = True"
| "harmless_run on_ack accepts r d n (dg # dgs) s \<longleftrightarrow>
     harmless accepts d n s dg \<and>
     (\<forall>s'. receive_datagram on_ack r n dg s = Inr (True, s') \<longrightarrow>
        harmless_run on_ack accepts r d n dgs s')"

context ack_sink
begin

lemma receive_harmless:
  assumes "inv s" and "harmless accepts d n s dg" and "rx_max_seq_number r = int d" and "d + 32 < n"
  shows "\<exists>s'. receive_datagram on_ack r n dg s = Inr (dg \<noteq> [], s') \<and> inv s'"
proof -
  from assms(2) consider "dg = []" | "corrupted (int d) n dg"
    | k where "dg = ack_datagram d k" "fits d k" "accepts s k"
    by (auto simp: harmless_def)
  then show ?thesis
  proof cases
    case 1
    with assms show ?thesis by simp
  next
    case 2
    with assms receive_corrupted [of n r dg on_ack s] show ?thesis by (simp add: corrupted_def)
  next
    case 3
    then have "dg \<noteq> []" using ack_datagram_accepted(3) [of d k] by auto
    with 3 assms acked_ok [of s k] receive_ack_datagram [OF 3(2) assms(3,4), of on_ack s]
    show ?thesis by auto
  qed
qed

lemma receive_loop_harmless:
  assumes "rx_max_seq_number r = int d" and "d + 32 < n"
  shows "inv s \<Longrightarrow> harmless_run on_ack accepts r d n dgs s \<Longrightarrow>
    \<exists>c s'. receive_loop on_ack r n dgs s = Inr (c, s') \<and> inv s'"
proof (induction dgs arbitrary: s)
  case (Cons dg dgs)
  then obtain s' where s': "receive_datagram on_ack r n dg s = Inr (dg \<noteq> [], s')" "inv s'"
    using receive_harmless [OF _ _ assms] by fastforce
  with Cons show ?case by (cases "dg = []") (auto intro: exI [of _ False])
qed auto

end

end
