(* ===== verification/Client.thy ===== *)
theory Client
  imports ClientSender ClientReceiver
begin

section \<open>The client (Client) and its threads\<close>

text \<open>
  \<open>Client\<close> ties the halves together. Its threads are the sender's \<open>threadFun\<close>, the
  receiver's \<open>threadFun\<close> and one per timer; \<open>client_step\<close> is their interleaving.
\<close>

subsection \<open>The class\<close>

definition CHUNK_SIZE :: int where "CHUNK_SIZE = 2 ^ 18"

record client =
  subject :: client_subject
  clientSender :: client_sender
  clientReceiver :: client_receiver

definition new_Client ::
    "file_system \<Rightarrow> int \<Rightarrow> string \<Rightarrow> string \<Rightarrow> int \<Rightarrow> int \<Rightarrow> int \<Rightarrow> int \<Rightarrow> int \<Rightarrow> client res" where
  "new_Client fs clock host name wsize psize max_seq sport cport =
     (let subj = \<lparr>getWindow_size = wsize, getPacket_size = psize, getMax_seq_number = max_seq,
                  getServer_port = sport, getServer_host = host, getClient_port = cport,
                  getFilename = name\<rparr>
      in rbind (new_ClientSender fs clock CHUNK_SIZE subj) (\<lambda>tx.
         rbind (new_ClientReceiver subj) (\<lambda>rx.
         Inr \<lparr>subject = subj, clientSender = tx, clientReceiver = rx\<rparr>)))"

definition client_ackedPacket ::
    "int \<Rightarrow> 'a client_scheme \<Rightarrow> ('a client_scheme) res" where
  "client_ackedPacket k c =
     rbind (ackedPacket k (clientSender c)) (\<lambda>s. Inr (c\<lparr>clientSender := s\<rparr>))"

subsection \<open>Threads\<close>

text \<open>
  Where the sender's thread is: before \<open>start\<close>; at the head of \<open>while (sendChunk ())\<close>;
  in the loop of \<open>sendChunk\<close> with the data left of its \<open>q\<close> packets; in the wait for
  their acknowledgements; after \<open>threadFun\<close>. \<open>receiver_buffer\<close> is the size of the
  buffer while the receiver's thread runs.
\<close>

datatype sender_pc =
    Not_started
  | At_chunk
  | Sending "string list" nat
  | Wait_acks nat
  | Done

record system = client +
  sender_at :: sender_pc
  receiver_buffer :: "nat option"

definition system_of :: "client \<Rightarrow> system" where
  "system_of c = client.extend c \<lparr>sender_at = Not_started, receiver_buffer = None\<rparr>"

text \<open>\<open>Client::start\<close> launches both threads; the receiver's allocates its buffer.\<close>

definition client_start :: "system \<Rightarrow> system res" where
  "client_start y =
     rbind (rx_buffer_size (clientReceiver y)) (\<lambda>n.
     Inr (y\<lparr>receiver_buffer := Some n, sender_at := At_chunk\<rparr>))"

text \<open>\<open>sendChunk\<close> up to its loop, or the end of \<open>threadFun\<close> when it returns \<open>false\<close>.\<close>

definition finish_sending :: "system \<Rightarrow> system" where
  "finish_sending y = y\<lparr>clientSender := threadFun_end (clientSender y), sender_at := Done\<rparr>"

definition sender_chunk :: "system \<Rightarrow> system res" where
  "sender_chunk y =
     rbind (sendChunk_read (clientSender y)) (\<lambda>(splittedData, s).
     let y = y\<lparr>clientSender := s\<rparr>
     in case splittedData of
          None \<Rightarrow> Inr (finish_sending y)
        | Some ds \<Rightarrow> Inr (y\<lparr>sender_at := Sending ds (length ds)\<rparr>))"

definition sender_send :: "string \<Rightarrow> string list \<Rightarrow> nat \<Rightarrow> system \<Rightarrow> system res" where
  "sender_send d ds q y =
     rbind (sendPacketReliable d (clientSender y)) (\<lambda>s.
     Inr (y\<lparr>clientSender := s, sender_at := Sending ds q\<rparr>))"

text \<open>
  The end of \<open>sendChunk\<close> has no \<open>return\<close>: undefined in C++. \<open>ret\<close> is the value the
  compiled program finds there, \<open>None\<close> when one insists on the standard.
\<close>

definition sendChunk_end :: "bool option \<Rightarrow> system \<Rightarrow> system res" where
  "sendChunk_end ret y =
     (let y = y\<lparr>clientSender := close_chunk (clientSender y)\<rparr>
      in case ret of
           None \<Rightarrow> Inl (Undefined Missing_return)
         | Some True \<Rightarrow> Inr (y\<lparr>sender_at := At_chunk\<rparr>)
         | Some False \<Rightarrow> Inr (finish_sending y))"

definition receiver_round :: "nat \<Rightarrow> string \<Rightarrow> system \<Rightarrow> system res" where
  "receiver_round n dg y =
     rbind (receive_datagram client_ackedPacket (clientReceiver y) n dg y) (\<lambda>(continue, y).
     Inr (if continue then y else y\<lparr>receiver_buffer := None\<rparr>))"

text \<open>The thread of timer \<open>i\<close>: its wait is over, or it calls the handler and ends.\<close>

definition put_timer :: "nat \<Rightarrow> timer \<Rightarrow> client_sender \<Rightarrow> client_sender" where
  "put_timer i t s = s\<lparr>timers := (timers s)[i := t]\<rparr>"

definition timer_fires :: "nat \<Rightarrow> system \<Rightarrow> system res option" where
  "timer_fires i y =
     map_option (\<lambda>r. rbind r (\<lambda>s.
         Inr (y\<lparr>clientSender := put_timer i (thread_exit (timers s ! i)) s\<rparr>)))
       (timeoutHandler (clientSender y))"

text \<open>
  The steps. A state on the left is a crash and has no step. \<open>net\<close> says which
  datagrams can arrive, \<open>horizon\<close> how far the clock goes.
\<close>

inductive client_step ::
    "bool option \<Rightarrow> (system \<Rightarrow> string \<Rightarrow> bool) \<Rightarrow> int \<Rightarrow> system res \<Rightarrow> system res \<Rightarrow> bool"
  for ret :: "bool option" and net :: "system \<Rightarrow> string \<Rightarrow> bool" and horizon :: int
where
  step_start: "sender_at y = Not_started \<Longrightarrow> client_step ret net horizon (Inr y) (client_start y)"
| step_chunk: "sender_at y = At_chunk \<Longrightarrow> client_step ret net horizon (Inr y) (sender_chunk y)"
| step_send: "sender_at y = Sending (d # ds) q \<Longrightarrow> canAdvance (clientSender y) = Inr True \<Longrightarrow>
    client_step ret net horizon (Inr y) (sender_send d ds q y)"
| step_send_fails: "sender_at y = Sending (d # ds) q \<Longrightarrow> canAdvance (clientSender y) = Inl e \<Longrightarrow>
    client_step ret net horizon (Inr y) (Inl e)"
| step_sent: "sender_at y = Sending [] q \<Longrightarrow>
    client_step ret net horizon (Inr y) (Inr (y\<lparr>sender_at := Wait_acks q\<rparr>))"
| step_acked: "sender_at y = Wait_acks q \<Longrightarrow> chunk_acked q (clientSender y) \<Longrightarrow>
    client_step ret net horizon (Inr y) (sendChunk_end ret y)"
| step_receive: "receiver_buffer y = Some n \<Longrightarrow> net y dg \<Longrightarrow>
    client_step ret net horizon (Inr y) (receiver_round n dg y)"
| step_timer: "i < length (timers (clientSender y)) \<Longrightarrow>
    thread_wait (now (clientSender y)) (timers (clientSender y) ! i) = Some t \<Longrightarrow>
    client_step ret net horizon (Inr y) (Inr (y\<lparr>clientSender := put_timer i t (clientSender y)\<rparr>))"
| step_fire: "i < length (timers (clientSender y)) \<Longrightarrow>
    thread (timers (clientSender y) ! i) = Firing \<Longrightarrow> timer_fires i y = Some r \<Longrightarrow>
    client_step ret net horizon (Inr y) r"
| step_tick: "now (clientSender y) \<le> n \<Longrightarrow> n \<le> horizon \<Longrightarrow>
    client_step ret net horizon (Inr y) (Inr (y\<lparr>clientSender := (clientSender y)\<lparr>now := n\<rparr>\<rparr>))"

inductive_cases client_stepE: "client_step ret net horizon (Inr y) z"
inductive_simps crashed_step: "client_step ret net horizon (Inl e) z"

end
