(* ===== verification/GoBackN.thy ===== *)
theory GoBackN
  imports ClientSender
begin

section \<open>What the sender implements: Go-back-N\<close>

text \<open>
  The abstract sender counts packets without wrapping around: \<open>A\<close> packets are
  acknowledged, \<open>S\<close> have been sent, and at most \<open>w\<close> lie between. \<open>sender_rel\<close>
  says how the members of \<open>ClientSender\<close> represent these numbers on the ring of
  sequence numbers; there is one lemma per operation.
\<close>

subsection \<open>Positions on a ring\<close>

lemma ring_add:
  "(a::nat) < N \<Longrightarrow> k \<le> N \<Longrightarrow> (a + k) mod N = (if a + k < N then a + k else a + k - N)"
  by (cases "a + k < N") (auto simp: le_mod_geq)

lemma ring_split:
  assumes "0 < (N::nat)" and "A \<le> S" and "S - A < N"
  shows "S mod N = (if A mod N + (S - A) < N then A mod N + (S - A) else A mod N + (S - A) - N)"
proof -
  obtain k where S: "S = A + k" using assms(2) by (auto simp: le_iff_add)
  have "S mod N = (A mod N + k) mod N" by (simp add: S mod_add_left_eq)
  then show ?thesis using assms S ring_add [of "A mod N" N k] by simp
qed

lemma ring_inj:
  assumes "0 < (N::nat)" and "i \<le> j" and "j - i < N" and "i mod N = j mod N"
  shows "i = j"
  using ring_split [OF assms(1-3)] assms by (auto split: if_splits)

lemma ring_neq:
  assumes "0 < (N::nat)" and "i < j" and "j < i + N"
  shows "i mod N \<noteq> j mod N"
proof -
  have "j - i < N" using assms by linarith
  then show ?thesis using ring_inj [of N i j] assms by auto
qed

lemma ring_Suc: "0 < (N::nat) \<Longrightarrow> Suc (i mod N) mod N = Suc i mod N"
  by (simp add: mod_Suc_eq)

text \<open>The window test of \<open>canAdvance\<close> and the guard of the retransmission loop.\<close>

lemma window_test:
  assumes "0 < (N::nat)" and "A \<le> S" and "S \<le> A + w" and "w < N"
  shows "(if A mod N \<le> S mod N then S mod N < A mod N + w
          else S mod N < (A mod N + w) mod N) \<longleftrightarrow> S < A + w"
proof -
  have a: "A mod N < N" using assms by simp
  show ?thesis
  proof (cases "A mod N + (S - A) < N")
    case True
    then show ?thesis using assms ring_split [of N A S] by auto
  next
    case False
    then have s: "S mod N = A mod N + (S - A) - N" using assms ring_split [of N A S] by simp
    moreover have "(A mod N + w) mod N = A mod N + w - N"
      using False assms a ring_add [of "A mod N" N w] by auto
    ultimately show ?thesis using False assms a by auto
  qed
qed

lemma resend_test:
  assumes "0 < (N::nat)" and "A \<le> j" and "j \<le> S" and "S \<le> A + w" and "w < N"
  shows "resend_guard (int (S mod N)) (int (A mod N)) (int N) (int w) (int (j mod N)) \<longleftrightarrow> j < S"
proof -
  have a: "A mod N < N" using assms by simp
  note sj = ring_split [of N A S] ring_split [of N A j]
  show ?thesis
  proof (cases "A mod N + (S - A) < N")
    case True
    then show ?thesis using assms sj by (auto simp: resend_guard_def)
  next
    case False
    then have "S mod N = A mod N + (S - A) - N" using assms sj by simp
    then show ?thesis using assms a sj False by (auto simp: resend_guard_def of_nat_diff)
  qed
qed

subsection \<open>The abstract sender\<close>

text \<open>\<open>gbn_step w T\<close>: window \<open>w\<close>, \<open>T\<close> packets to send; states are pairs \<open>(A, S)\<close>.\<close>

inductive gbn_step :: "nat \<Rightarrow> nat \<Rightarrow> nat \<times> nat \<Rightarrow> nat \<times> nat \<Rightarrow> bool"
  for w :: nat and T :: nat
where
  gbn_send: "S < A + w \<Longrightarrow> S < T \<Longrightarrow> gbn_step w T (A, S) (A, Suc S)"
| gbn_ack: "A \<le> j \<Longrightarrow> j < S \<Longrightarrow> gbn_step w T (A, S) (Suc j, S)"

inductive_simps gbn_step_simps: "gbn_step w T (A, S) (A', S')"

subsection \<open>Representation\<close>

text \<open>The configuration: \<open>d\<close> digits, a ring of \<open>10^d\<close> numbers, a window smaller than it.\<close>

definition ring_size :: "client_sender \<Rightarrow> nat" where
  "ring_size s = nat (max_seq_num_b10 s + 1)"

definition digits :: "client_sender \<Rightarrow> nat" where
  "digits s = nat (max_seq_number s)"

definition sender_cfg :: "client_sender \<Rightarrow> bool" where
  "sender_cfg s \<longleftrightarrow>
     1 \<le> max_seq_number s \<and> max_seq_number s \<le> 9 \<and>
     max_seq_num_b10 s = 10 ^ digits s - 1 \<and>
     0 < window_size s \<and> window_size s \<le> max_seq_num_b10 s \<and>
     length (window_map s) = ring_size s"

text \<open>Each slot of the window map that is filled holds a packet of its own number.\<close>

definition slot_ok :: "int \<Rightarrow> client_sender \<Rightarrow> nat \<Rightarrow> packet \<Rightarrow> bool" where
  "slot_ok t0 s j p \<longleftrightarrow>
     packet_ok (digits s) p \<and> seqnum p = int j \<and> t0 \<le> starting_time p \<and> starting_time p \<le> now s"

definition slots_ok :: "int \<Rightarrow> client_sender \<Rightarrow> bool" where
  "slots_ok t0 s \<longleftrightarrow>
     (\<forall>j < ring_size s. \<forall>p. window_map s ! j = Some p \<longrightarrow> slot_ok t0 s j p)"

text \<open>Pointers to timers are valid, and the round-trip arithmetic stays in range.\<close>

definition timers_ok :: "client_sender \<Rightarrow> bool" where
  "timers_ok s \<longleftrightarrow>
     (\<forall>i. timeoutTimer s = Some i \<longrightarrow> i < length (timers s)) \<and>
     (\<forall>i. Some i \<in> set (olderTimers s) \<longrightarrow> i < length (timers s)) \<and>
     (\<forall>t \<in> set (timers s). started t)"

definition clock_ok :: "int \<Rightarrow> client_sender \<Rightarrow> bool" where
  "clock_ok t0 s \<longleftrightarrow>
     t0 \<le> now s \<and> now s \<le> t0 + INT_MAX \<and> 0 \<le> estimated_rtt s \<and> estimated_rtt s \<le> INT_MAX"

text \<open>The datagram of packet \<open>i\<close> of the list \<open>P\<close> of all packets' data.\<close>

definition packet_datagram :: "client_sender \<Rightarrow> string list \<Rightarrow> nat \<Rightarrow> string" where
  "packet_datagram s P i = datagram (digits s) (int (i mod ring_size s)) (P ! i)"

text \<open>
  The history of the socket: packets go out for the first time in order, a repetition is
  of a packet of the last window, and empty datagrams end the connection.
\<close>

inductive wire_log :: "(nat \<Rightarrow> string) \<Rightarrow> nat \<Rightarrow> string list \<Rightarrow> nat \<Rightarrow> bool"
  for dg :: "nat \<Rightarrow> string" and w :: nat
where
  log_start: "wire_log dg w [] 0"
| log_new: "wire_log dg w ds S \<Longrightarrow> wire_log dg w (ds @ [dg S]) (Suc S)"
| log_again: "wire_log dg w ds S \<Longrightarrow> i < S \<Longrightarrow> S \<le> i + w \<Longrightarrow> wire_log dg w (ds @ [dg i]) S"
| log_end: "wire_log dg w ds S \<Longrightarrow> wire_log dg w (ds @ [[]]) S"

definition window_rel :: "string list \<Rightarrow> nat \<Rightarrow> nat \<Rightarrow> client_sender \<Rightarrow> bool" where
  "window_rel P A S s \<longleftrightarrow>
     (\<forall>i. A \<le> i \<and> i < S \<longrightarrow>
        (\<exists>p. window_map s ! (i mod ring_size s) = Some p \<and> packet_data p = P ! i \<and> \<not> acked p)) \<and>
     (0 < A \<longrightarrow> (\<exists>p. window_map s ! ((A - 1) mod ring_size s) = Some p \<and> acked p))"

definition counters_rel :: "nat \<Rightarrow> nat \<Rightarrow> nat \<Rightarrow> client_sender \<Rightarrow> bool" where
  "counters_rel C A S s \<longleftrightarrow>
     C \<le> A \<and> A \<le> S \<and> S \<le> A + nat (window_size s) \<and>
     base_idx s = int (A mod ring_size s) \<and>
     next_seq_num_idx s = int (S mod ring_size s) \<and>
     last_acked_packet s = (if A = 0 then -1 else int ((A - 1) mod ring_size s)) \<and>
     acked_count s = int A - int C"

text \<open>
  The representation of \<open>(A, S)\<close>, with \<open>C\<close> the packets of the chunks closed before
  and \<open>t0\<close> the time the run began.
\<close>

definition sender_rel ::
    "int \<Rightarrow> string list \<Rightarrow> nat \<Rightarrow> nat \<Rightarrow> nat \<Rightarrow> client_sender \<Rightarrow> bool" where
  "sender_rel t0 P C A S s \<longleftrightarrow>
     sender_cfg s \<and> counters_rel C A S s \<and> window_rel P A S s \<and> slots_ok t0 s \<and>
     timers_ok s \<and> clock_ok t0 s \<and>
     (0 < S \<longrightarrow> timeoutTimer s \<noteq> None) \<and>
     S \<le> length P \<and> int (length P) \<le> INT_MAX \<and>
     wire_log (packet_datagram s P) (nat (window_size s)) (wire s) S"

text \<open>What no operation of the protocol changes.\<close>

definition conf ::
    "client_sender \<Rightarrow> (int \<times> int \<times> int \<times> int) \<times> data_processor \<times> bool" where
  "conf s = ((packet_size s, window_size s, max_seq_number s, max_seq_num_b10 s),
     dataProcessor s, finished_sending_data s)"

lemmas rel_defs = sender_cfg_def slots_ok_def slot_ok_def timers_ok_def clock_ok_def
  window_rel_def counters_rel_def

subsection \<open>Consequences of the configuration\<close>

lemma cfg_ring:
  assumes "sender_cfg s"
  shows "max_seq_num_b10 s + 1 = int (ring_size s)" and "0 < ring_size s"
    and "ring_size s = 10 ^ digits s" and "int (ring_size s) \<le> 1000000000"
    and "window_size s = int (nat (window_size s))" and "nat (window_size s) < ring_size s"
    and "0 < nat (window_size s)" and "max_seq_number s = int (digits s)"
    and "iadd (max_seq_num_b10 s) 1 = Inr (int (ring_size s))"
    and "0 < window_size s" and "window_size s < int (ring_size s)"
proof -
  have m: "max_seq_num_b10 s + 1 = 10 ^ digits s" using assms by (simp add: sender_cfg_def)
  then show eq: "max_seq_num_b10 s + 1 = int (ring_size s)" and "ring_size s = 10 ^ digits s"
    and "0 < ring_size s"
    by (simp_all add: ring_size_def nat_power_eq)
  have "digits s \<le> 9" using assms by (simp add: sender_cfg_def digits_def nat_le_iff)
  then have "(10::int) ^ digits s \<le> 10 ^ 9" by (intro power_increasing) auto
  with m eq show le: "int (ring_size s) \<le> 1000000000" by simp
  show "0 < window_size s" using assms by (simp add: sender_cfg_def)
  have "window_size s \<le> max_seq_num_b10 s" using assms by (simp add: sender_cfg_def)
  then show "window_size s < int (ring_size s)" using eq by linarith
  then show "nat (window_size s) < ring_size s"
    using \<open>0 < window_size s\<close> by (simp add: nat_less_iff)
  show "window_size s = int (nat (window_size s))" "0 < nat (window_size s)"
    "max_seq_number s = int (digits s)"
    using assms by (auto simp: sender_cfg_def digits_def)
  show "iadd (max_seq_num_b10 s) 1 = Inr (int (ring_size s))"
    using eq le by (subst iadd_in) (auto simp: int_bounds)
qed

lemma cfg_fits:
  assumes "sender_cfg s"
  shows "fits (digits s) (int (i mod ring_size s))"
proof -
  note c = cfg_ring [OF assms]
  have lt: "i mod ring_size s < ring_size s" using c(2) by simp
  moreover have "int (i mod ring_size s) \<le> INT_MAX" using lt c(4) by (simp add: int_bounds)
  moreover have "0 < digits s" "int (digits s) + 32 \<le> INT_MAX"
    using assms by (auto simp: sender_cfg_def digits_def int_bounds)
  moreover have "int (i mod ring_size s) < 10 ^ digits s"
    using lt c(3) by (metis of_nat_less_iff of_nat_numeral of_nat_power)
  ultimately show ?thesis unfolding fits_def by simp
qed

lemma cfg_imod:
  assumes "sender_cfg s" and "a \<le> 2 * ring_size s"
  shows "imod (int a) (int (ring_size s)) = Inr (int (a mod ring_size s))"
proof -
  note c = cfg_ring [OF assms(1)]
  have "in_int (int a)" using assms(2) c(4) by (auto simp: int_bounds)
  then show ?thesis using c(2) by (simp add: zmod_int)
qed

lemma cfg_slot: "sender_cfg s \<Longrightarrow> i mod ring_size s < length (window_map s)"
  using cfg_ring(2) [of s] by (simp add: sender_cfg_def)

subsection \<open>The window test\<close>

lemma canAdvance_indices:
  assumes cfg: "sender_cfg s" and AS: "A \<le> S" "S \<le> A + nat (window_size s)"
    and b: "base_idx s = int (A mod ring_size s)" and n: "next_seq_num_idx s = int (S mod ring_size s)"
  shows "canAdvance s = Inr (S < A + nat (window_size s))"
proof -
  let ?N = "ring_size s" and ?w = "nat (window_size s)"
  note c = cfg_ring [OF cfg]
  have lt: "A mod ?N < ?N" using c(2) by simp
  then have "in_int (int (A mod ?N) + window_size s)"
    using c(4,10,11) unfolding int_bounds by linarith
  then have add: "iadd (int (A mod ?N)) (window_size s) = Inr (int (A mod ?N + ?w))"
    using c(5) by simp
  have md: "imod (int (A mod ?N + ?w)) (int ?N) = Inr (int ((A mod ?N + ?w) mod ?N))"
    using lt c(6) by (intro cfg_imod [OF cfg]) linarith
  show ?thesis
    using window_test [OF c(2) AS c(6)] add md c(9)
    by (auto simp: canAdvance_def getNextSeqNum_def getBaseIdx_def getWindowSize_def b n
        simp del: of_nat_add iadd_in imod_nonneg split: if_splits)
qed

lemma canAdvance_window:
  assumes "sender_rel t0 P C A S s"
  shows "canAdvance s = Inr (S < A + nat (window_size s))"
  using assms by (intro canAdvance_indices) (simp_all add: sender_rel_def counters_rel_def)

subsection \<open>Which operations touch what\<close>

lemma ring_digits_frame [simp]:
  "ring_size (s\<lparr>timers := a\<rparr>) = ring_size s" "digits (s\<lparr>timers := a\<rparr>) = digits s"
  "ring_size (s\<lparr>olderTimers := b\<rparr>) = ring_size s" "digits (s\<lparr>olderTimers := b\<rparr>) = digits s"
  "ring_size (s\<lparr>timeoutTimer := c\<rparr>) = ring_size s" "digits (s\<lparr>timeoutTimer := c\<rparr>) = digits s"
  "ring_size (s\<lparr>wire := f\<rparr>) = ring_size s" "digits (s\<lparr>wire := f\<rparr>) = digits s"
  "ring_size (s\<lparr>now := g\<rparr>) = ring_size s" "digits (s\<lparr>now := g\<rparr>) = digits s"
  "ring_size (s\<lparr>window_map := h\<rparr>) = ring_size s" "digits (s\<lparr>window_map := h\<rparr>) = digits s"
  "ring_size (s\<lparr>base_idx := i\<rparr>) = ring_size s" "digits (s\<lparr>base_idx := i\<rparr>) = digits s"
  "ring_size (s\<lparr>next_seq_num_idx := i\<rparr>) = ring_size s"
  "digits (s\<lparr>next_seq_num_idx := i\<rparr>) = digits s"
  "ring_size (s\<lparr>acked_count := i\<rparr>) = ring_size s" "digits (s\<lparr>acked_count := i\<rparr>) = digits s"
  "ring_size (s\<lparr>last_acked_packet := i\<rparr>) = ring_size s"
  "digits (s\<lparr>last_acked_packet := i\<rparr>) = digits s"
  "ring_size (s\<lparr>estimated_rtt := i\<rparr>) = ring_size s" "digits (s\<lparr>estimated_rtt := i\<rparr>) = digits s"
  "ring_size (s\<lparr>max_seq_num_sent := i\<rparr>) = ring_size s"
  "digits (s\<lparr>max_seq_num_sent := i\<rparr>) = digits s"
  "ring_size (s\<lparr>finished_sending_data := m\<rparr>) = ring_size s"
  "digits (s\<lparr>finished_sending_data := m\<rparr>) = digits s"
  "ring_size (s\<lparr>dataProcessor := n\<rparr>) = ring_size s" "digits (s\<lparr>dataProcessor := n\<rparr>) = digits s"
  by (simp_all add: ring_size_def digits_def)

text \<open>Starting a timer, as one record update.\<close>

definition stopped_timers :: "client_sender \<Rightarrow> timer list" where
  "stopped_timers s =
     (case timeoutTimer s of None \<Rightarrow> timers s
      | Some i \<Rightarrow> (timers s)[i := timer_stop (timers s ! i)])"

lemma startTimeoutTimer_eq:
  "startTimeoutTimer s =
     s\<lparr>olderTimers := olderTimers s @ [timeoutTimer s],
       timers := stopped_timers s @ [startTimeout (now s) (estimated_rtt s) False],
       timeoutTimer := Some (length (timers s))\<rparr>"
  by (simp add: startTimeoutTimer_def stop_timer_at_def stopped_timers_def Let_def
      split: option.split)

lemma started_timer_stop [simp]: "started (timer_stop t) = started t"
  by (simp add: timer_ops)

lemma stopped_timers_ok:
  assumes "timers_ok s"
  shows "length (stopped_timers s) = length (timers s)"
    and "\<forall>t \<in> set (stopped_timers s). started t"
proof -
  show "length (stopped_timers s) = length (timers s)"
    by (simp add: stopped_timers_def split: option.split)
  have "started (timers s ! i)" if "timeoutTimer s = Some i" for i
    using that assms by (simp add: timers_ok_def)
  then show "\<forall>t \<in> set (stopped_timers s). started t"
    using assms by (auto simp: stopped_timers_def timers_ok_def split: option.splits
        dest!: set_update_subset_insert [THEN subsetD])
qed

lemma packet_datagram_frame [simp]:
  "packet_datagram (s\<lparr>window_map := h\<rparr>) = packet_datagram s"
  "packet_datagram (s\<lparr>wire := f\<rparr>) = packet_datagram s"
  "packet_datagram (s\<lparr>now := g\<rparr>) = packet_datagram s"
  "packet_datagram (s\<lparr>next_seq_num_idx := i\<rparr>) = packet_datagram s"
  "packet_datagram (s\<lparr>base_idx := i\<rparr>) = packet_datagram s"
  "packet_datagram (s\<lparr>acked_count := i\<rparr>) = packet_datagram s"
  "packet_datagram (s\<lparr>last_acked_packet := i\<rparr>) = packet_datagram s"
  "packet_datagram (s\<lparr>max_seq_num_sent := i\<rparr>) = packet_datagram s"
  "packet_datagram (s\<lparr>estimated_rtt := i\<rparr>) = packet_datagram s"
  "packet_datagram (s\<lparr>finished_sending_data := m\<rparr>) = packet_datagram s"
  "packet_datagram (s\<lparr>dataProcessor := n\<rparr>) = packet_datagram s"
  "packet_datagram (s\<lparr>timers := a\<rparr>) = packet_datagram s"
  "packet_datagram (s\<lparr>olderTimers := b\<rparr>) = packet_datagram s"
  "packet_datagram (s\<lparr>timeoutTimer := c\<rparr>) = packet_datagram s"
  by (simp_all add: packet_datagram_def fun_eq_iff)

text \<open>The parts of the relation that do not look at the timers.\<close>

definition core_rel :: "int \<Rightarrow> string list \<Rightarrow> nat \<Rightarrow> nat \<Rightarrow> nat \<Rightarrow> client_sender \<Rightarrow> bool" where
  "core_rel t0 P C A S s \<longleftrightarrow>
     sender_cfg s \<and> counters_rel C A S s \<and> window_rel P A S s \<and> slots_ok t0 s \<and>
     clock_ok t0 s \<and> S \<le> length P \<and> int (length P) \<le> INT_MAX \<and>
     wire_log (packet_datagram s P) (nat (window_size s)) (wire s) S"

lemma sender_rel_core:
  "sender_rel t0 P C A S s \<longleftrightarrow>
     core_rel t0 P C A S s \<and> timers_ok s \<and> (0 < S \<longrightarrow> timeoutTimer s \<noteq> None)"
  by (auto simp: sender_rel_def core_rel_def)

lemma core_rel_timers [simp]:
  "core_rel t0 P C A S (s\<lparr>timers := a\<rparr>) = core_rel t0 P C A S s"
  "core_rel t0 P C A S (s\<lparr>olderTimers := b\<rparr>) = core_rel t0 P C A S s"
  "core_rel t0 P C A S (s\<lparr>timeoutTimer := c\<rparr>) = core_rel t0 P C A S s"
  "core_rel t0 P C A S (s\<lparr>max_seq_num_sent := i\<rparr>) = core_rel t0 P C A S s"
  "core_rel t0 P C A S (s\<lparr>finished_sending_data := m\<rparr>) = core_rel t0 P C A S s"
  "core_rel t0 P C A S (s\<lparr>dataProcessor := n\<rparr>) = core_rel t0 P C A S s"
  by (simp_all add: core_rel_def rel_defs)

lemma timers_ok_start: "timers_ok s \<Longrightarrow> timers_ok (startTimeoutTimer s)"
  using stopped_timers_ok [of s]
  by (auto simp: startTimeoutTimer_eq timers_ok_def less_Suc_eq)

lemma sender_rel_startTimeoutTimer:
  "core_rel t0 P C A S s \<Longrightarrow> timers_ok s \<Longrightarrow> sender_rel t0 P C A S (startTimeoutTimer s)"
  using timers_ok_start [of s] by (simp add: sender_rel_core) (simp add: startTimeoutTimer_eq)

lemma sender_rel_stop_timer:
  "sender_rel t0 P C A S s \<Longrightarrow> i < length (timers s) \<Longrightarrow>
     sender_rel t0 P C A S (stop_timer_at i s)"
  by (auto simp: sender_rel_core stop_timer_at_def timers_ok_def
      dest!: set_update_subset_insert [THEN subsetD])

lemma sender_rel_cleanTimers:
  "sender_rel t0 P C A S s \<Longrightarrow> sender_rel t0 P C A S (cleanTimers s)"
  by (auto simp: sender_rel_core cleanTimers_def timers_ok_def dest: set_dropWhileD)

subsection \<open>Slots of the window\<close>

lemma window_get_slot:
  assumes "sender_cfg s" and "window_map s ! (i mod ring_size s) = Some p"
  shows "window_get (int (i mod ring_size s)) s = Inr p"
  using assms cfg_slot [OF assms(1), of i] by (simp add: window_get_def)

lemma window_put_slot:
  assumes "sender_cfg s"
  shows "window_put (int (i mod ring_size s)) p s =
    Inr (s\<lparr>window_map := (window_map s)[i mod ring_size s := Some p]\<rparr>)"
  using assms cfg_slot [OF assms(1), of i] by (simp add: window_put_def)

lemma sender_cfg_slot [simp]:
  "sender_cfg (s\<lparr>window_map := (window_map s)[k := x]\<rparr>) = sender_cfg s"
  "sender_cfg (s\<lparr>max_seq_num_sent := i\<rparr>) = sender_cfg s"
  "sender_cfg (s\<lparr>estimated_rtt := i\<rparr>) = sender_cfg s"
  "sender_cfg (s\<lparr>base_idx := i\<rparr>) = sender_cfg s"
  by (simp_all add: sender_cfg_def)

lemma slots_ok_update:
  assumes "slots_ok t0 s" and "slot_ok t0 s k p"
  shows "slots_ok t0 (s\<lparr>window_map := (window_map s)[k := Some p]\<rparr>)"
  using assms by (auto simp: slots_ok_def slot_ok_def nth_update_if split: if_splits)

subsection \<open>Sending the next packet\<close>

text \<open>The packet \<open>sendPacketReliable\<close> leaves in the window.\<close>

definition sent_packet :: "client_sender \<Rightarrow> string \<Rightarrow> nat \<Rightarrow> packet" where
  "sent_packet s data S =
     snd (generatePacketString (startTimeoutCount (now s)
       (new_Packet (int (digits s)) (int (S mod ring_size s)) data)))"

lemma sent_packet_ok:
  assumes "sender_cfg s"
  shows "fst (generatePacketString (startTimeoutCount (now s)
      (new_Packet (int (digits s)) (int (S mod ring_size s)) data))) =
      datagram (digits s) (int (S mod ring_size s)) data"
    and "packet_ok (digits s) (sent_packet s data S)"
    and "seqnum (sent_packet s data S) = int (S mod ring_size s)"
    and "packet_data (sent_packet s data S) = data"
    and "\<not> acked (sent_packet s data S)"
    and "starting_time (sent_packet s data S) = now s"
proof -
  have ok: "packet_ok (digits s) (startTimeoutCount (now s)
      (new_Packet (int (digits s)) (int (S mod ring_size s)) data))"
    using packet_ok_new [OF cfg_fits [OF assms]] by simp
  show "fst (generatePacketString (startTimeoutCount (now s)
      (new_Packet (int (digits s)) (int (S mod ring_size s)) data))) =
      datagram (digits s) (int (S mod ring_size s)) data"
    using generatePacketString_ok(1) [OF ok] by (simp add: packet_ops)
  show "packet_ok (digits s) (sent_packet s data S)"
    using generatePacketString_ok(2) [OF ok] by (simp add: sent_packet_def)
qed (simp_all add: sent_packet_def generatePacketString_frame packet_ops)

lemma cfg_next:
  assumes cfg: "sender_cfg s" and nxt: "next_seq_num_idx s = int (S mod ring_size s)"
  shows "incNextSeqNum s = Inr (s\<lparr>next_seq_num_idx := int (Suc S mod ring_size s)\<rparr>)"
proof -
  note c = cfg_ring [OF cfg]
  have lt: "S mod ring_size s < ring_size s" using c(2) by simp
  then have "in_int (int (S mod ring_size s) + 1)" using c(4) unfolding int_bounds by linarith
  then have add: "iadd (int (S mod ring_size s)) 1 = Inr (int (Suc (S mod ring_size s)))"
    by simp
  have md: "imod (int (Suc (S mod ring_size s))) (int (ring_size s)) =
      Inr (int (Suc S mod ring_size s))"
    using cfg_imod [OF cfg, of "Suc (S mod ring_size s)"] lt ring_Suc [OF c(2), of S] by simp
  show ?thesis using add md c(9) by (simp add: incNextSeqNum_def nxt del: of_nat_Suc)
qed

text \<open>The state after \<open>sendPacketReliable\<close>, before its timer and its increment.\<close>

definition sent_state :: "client_sender \<Rightarrow> string \<Rightarrow> nat \<Rightarrow> client_sender" where
  "sent_state s data S =
     s\<lparr>max_seq_num_sent := int (S mod ring_size s),
       window_map := (window_map s)[S mod ring_size s := Some (sent_packet s data S)],
       wire := wire s @ [datagram (digits s) (int (S mod ring_size s)) data]\<rparr>"

lemma send_packet_eq:
  assumes cfg: "sender_cfg s" and nxt: "next_seq_num_idx s = int (S mod ring_size s)"
  shows "send_packet data s = Inr (sent_state s data S)"
proof -
  let ?n = "int (S mod ring_size s)" and ?k = "S mod ring_size s"
  let ?p0 = "new_Packet (int (digits s)) ?n data"
  define s0 where "s0 = s\<lparr>max_seq_num_sent := ?n\<rparr>"
  define s1 where "s1 = s0\<lparr>window_map := (window_map s0)[?k := Some ?p0]\<rparr>"
  have cfg0: "sender_cfg s0" and cfg1: "sender_cfg s1"
    using cfg by (simp_all add: s0_def s1_def sender_cfg_def)
  have r: "ring_size s0 = ring_size s" "ring_size s1 = ring_size s" "now s1 = now s"
    "digits s0 = digits s" by (simp_all add: s0_def s1_def)
  have k: "?k < length (window_map s0)" using cfg_slot [OF cfg0, of S] r by simp
  have put: "window_put ?n ?p0 s0 = Inr s1"
    using window_put_slot [OF cfg0, of S ?p0] r by (simp add: s1_def)
  have get: "window_get ?n s1 = Inr ?p0"
    using window_get_slot [OF cfg1, of S ?p0] r k by (simp add: s1_def)
  have put2: "window_put ?n (sent_packet s data S) s1 =
      Inr (s1\<lparr>window_map := (window_map s1)[?k := Some (sent_packet s data S)]\<rparr>)"
    using window_put_slot [OF cfg1, of S] r by simp
  have gen: "generatePacketString (startTimeoutCount (now s1) ?p0) =
      (datagram (digits s) ?n data, sent_packet s data S)"
    using sent_packet_ok(1) [OF cfg, of S data] r by (metis prod.collapse sent_packet_def)
  have gp: "generatePacket data ?n s0 = ?p0"
    using cfg_ring(8) [OF cfg] by (simp add: generatePacket_def s0_def)
  have st: "s1\<lparr>window_map := (window_map s1)[?k := Some (sent_packet s data S)],
      wire := wire s1 @ [datagram (digits s) ?n data]\<rparr> = sent_state s data S"
    by (simp add: s1_def s0_def sent_state_def)
  show ?thesis
    using put get put2 gen gp nxt
    by (simp add: send_packet_def Let_def getNextSeqNum_def s0_def [symmetric] sendPacketUnreliable_def
        UNRELIABLE_PACKET_DELAY_MS_def st)
qed

lemma sendPacketReliable_eq:
  assumes cfg: "sender_cfg s" and nxt: "next_seq_num_idx s = int (S mod ring_size s)"
  shows "sendPacketReliable data s =
    Inr ((if base_idx s = next_seq_num_idx s then startTimeoutTimer (sent_state s data S)
          else sent_state s data S)\<lparr>next_seq_num_idx := int (Suc S mod ring_size s)\<rparr>)"
    (is "_ = Inr ?r")
proof -
  let ?n = "int (S mod ring_size s)"
  let ?t = "if base_idx s = next_seq_num_idx s then startTimeoutTimer (sent_state s data S)
          else sent_state s data S"
  have "sender_cfg ?t" "next_seq_num_idx ?t = ?n" "ring_size ?t = ring_size s"
    using cfg nxt by (simp_all add: startTimeoutTimer_eq sent_state_def sender_cfg_def)
  then have "incNextSeqNum ?t = Inr ?r" using cfg_next [of ?t S] by simp
  moreover have "base_idx (sent_state s data S) = base_idx s" "next_seq_num_idx (sent_state s data S) = next_seq_num_idx s"
    by (simp_all add: sent_state_def)
  ultimately show ?thesis
    using send_packet_eq [OF cfg nxt, of data]
    by (simp add: sendPacketReliable_def Let_def getNextSeqNum_def getBaseIdx_def)
qed

lemma core_rel_sent:
  assumes rel: "core_rel t0 P C A S s" and room: "S < A + nat (window_size s)"
    and more: "S < length P"
  shows "core_rel t0 P C A (Suc S)
    (sent_state s (P ! S) S\<lparr>next_seq_num_idx := int (Suc S mod ring_size s)\<rparr>)"
    (is "core_rel _ _ _ _ _ ?t")
proof -
  have cfg: "sender_cfg s" and cnt: "counters_rel C A S s" and win: "window_rel P A S s"
    and slots: "slots_ok t0 s" and clk: "clock_ok t0 s"
    and w: "wire_log (packet_datagram s P) (nat (window_size s)) (wire s) S"
    and len: "int (length P) \<le> INT_MAX"
    using rel by (auto simp: core_rel_def)
  note c = cfg_ring [OF cfg] and p = sent_packet_ok [OF cfg, where data = "P ! S" and S = S]
  have AS: "A \<le> S" "C \<le> A" using cnt by (auto simp: counters_rel_def)
  have k: "S mod ring_size s < length (window_map s)" by (rule cfg_slot [OF cfg])
  have neq: "i mod ring_size s \<noteq> S mod ring_size s" if "A - 1 \<le> i" "i < S" for i
    using that c(2,6) room AS by (intro ring_neq) auto
  have slot: "window_map ?t ! (i mod ring_size s) = window_map s ! (i mod ring_size s)"
    if "A - 1 \<le> i" "i < S" for i
    using neq [OF that] by (simp add: sent_state_def)
  have new: "window_map ?t ! (S mod ring_size s) = Some (sent_packet s (P ! S) S)"
    using k by (simp add: sent_state_def)
  have "window_rel P A (Suc S) ?t"
    unfolding window_rel_def
  proof (intro conjI allI impI)
    fix i assume i: "A \<le> i \<and> i < Suc S"
    show "\<exists>p. window_map ?t ! (i mod ring_size ?t) = Some p \<and> packet_data p = P ! i \<and> \<not> acked p"
    proof (cases "i = S")
      case True
      with new p(4,5) show ?thesis by (simp add: sent_state_def)
    next
      case False
      with i have "A - 1 \<le> i" "i < S" "A \<le> i" by auto
      with slot win show ?thesis by (simp add: window_rel_def sent_state_def)
    qed
  next
    assume A: "0 < A"
    then have "A - 1 < S" using AS by simp
    with A slot win show "\<exists>p. window_map ?t ! ((A - 1) mod ring_size ?t) = Some p \<and> acked p"
      by (simp add: window_rel_def sent_state_def)
  qed
  moreover have "slots_ok t0 ?t"
  proof -
    have "slot_ok t0 s (S mod ring_size s) (sent_packet s (P ! S) S)"
      using p clk by (simp add: slot_ok_def clock_ok_def)
    then show ?thesis
      using slots by (auto simp: slots_ok_def slot_ok_def sent_state_def nth_update_if
          split: if_splits)
  qed
  moreover have "wire_log (packet_datagram ?t P) (nat (window_size ?t)) (wire ?t) (Suc S)"
    using log_new [OF w] by (simp add: sent_state_def) (simp add: packet_datagram_def)
  moreover have "sender_cfg ?t" "counters_rel C A (Suc S) ?t" "clock_ok t0 ?t"
    using cfg cnt clk room by (auto simp: sent_state_def rel_defs)
  ultimately show ?thesis using more len by (simp add: core_rel_def)
qed

lemma sendPacketReliable_rel:
  assumes rel: "sender_rel t0 P C A S s" and room: "S < A + nat (window_size s)"
    and more: "S < length P"
  shows "\<exists>s'. sendPacketReliable (P ! S) s = Inr s' \<and> sender_rel t0 P C A (Suc S) s' \<and>
    wire s' = wire s @ [packet_datagram s P S] \<and> conf s' = conf s"
proof -
  let ?u = "sent_state s (P ! S) S"
  have core: "core_rel t0 P C A S s" and tm: "timers_ok s"
    and t: "0 < S \<Longrightarrow> timeoutTimer s \<noteq> None"
    using rel by (auto simp: sender_rel_core)
  then have cfg: "sender_cfg s" and cnt: "counters_rel C A S s" by (auto simp: core_rel_def)
  then have nxt: "next_seq_num_idx s = int (S mod ring_size s)" by (simp add: counters_rel_def)
  have tu: "timers_ok ?u" "timeoutTimer ?u = timeoutTimer s"
    using tm by (auto simp: sent_state_def timers_ok_def)
  have first: "S = 0 \<Longrightarrow> base_idx s = next_seq_num_idx s"
    using cnt by (simp add: counters_rel_def)
  let ?nx = "\<lambda>s'. s'\<lparr>next_seq_num_idx := int (Suc S mod ring_size s)\<rparr>"
  have core': "core_rel t0 P C A (Suc S) (?nx ?u)" by (rule core_rel_sent [OF core room more])
  define r where
    "r = ?nx (if base_idx s = next_seq_num_idx s then startTimeoutTimer ?u else ?u)"
  have "sender_rel t0 P C A (Suc S) r"
  proof (cases "base_idx s = next_seq_num_idx s")
    case True
    then have "r = startTimeoutTimer (?nx ?u)"
      by (simp add: r_def startTimeoutTimer_eq stopped_timers_def split: option.split)
    then show ?thesis
      using core' tu(1) by (auto intro: sender_rel_startTimeoutTimer simp: timers_ok_def)
  next
    case False
    then have "0 < S" "r = ?nx ?u" using first by (auto simp: r_def)
    then show ?thesis using core' tu t by (simp add: sender_rel_core timers_ok_def)
  qed
  moreover have "wire r = wire s @ [packet_datagram s P S]" "conf r = conf s"
    by (simp_all add: r_def startTimeoutTimer_eq sent_state_def packet_datagram_def conf_def)
  ultimately show ?thesis
    using sendPacketReliable_eq [OF cfg nxt, of "P ! S"] unfolding r_def by blast
qed

subsection \<open>Retransmission\<close>

lemma core_rel_slot:
  assumes "core_rel t0 P C A S s" and "A \<le> i" and "i < S"
  obtains p where "window_map s ! (i mod ring_size s) = Some p" and "packet_data p = P ! i"
    and "\<not> acked p" and "slot_ok t0 s (i mod ring_size s) p"
proof -
  have cfg: "sender_cfg s" using assms(1) by (simp add: core_rel_def)
  from assms obtain p where p: "window_map s ! (i mod ring_size s) = Some p" "packet_data p = P ! i"
    "\<not> acked p" by (auto simp: core_rel_def window_rel_def)
  moreover have "slot_ok t0 s (i mod ring_size s) p"
    using assms(1) p(1) cfg_ring(2) [OF cfg] by (auto simp: core_rel_def slots_ok_def)
  ultimately show ?thesis by (rule that)
qed

lemma core_rel_distinct:
  assumes "core_rel t0 P C A S s" and "A - 1 \<le> i" and "i < j" and "j < S"
  shows "i mod ring_size s \<noteq> j mod ring_size s"
proof -
  have cfg: "sender_cfg s" and cnt: "counters_rel C A S s" using assms(1) by (auto simp: core_rel_def)
  then have "S \<le> A + nat (window_size s)" by (simp add: counters_rel_def)
  then show ?thesis using cfg_ring(2,6) [OF cfg] assms(2-4) by (intro ring_neq) auto
qed

text \<open>Changing a packet in the window but not its data, number or acknowledgement.\<close>

lemma core_rel_window_update:
  assumes rel: "core_rel t0 P C A S s" and i: "A \<le> i" "i < S"
    and old: "window_map s ! (i mod ring_size s) = Some p"
    and new: "packet_data q = packet_data p" "acked q = acked p"
      "slot_ok t0 s (i mod ring_size s) q"
  shows "core_rel t0 P C A S (s\<lparr>window_map := (window_map s)[i mod ring_size s := Some q]\<rparr>)"
    (is "core_rel _ _ _ _ _ ?t")
proof -
  have cfg: "sender_cfg s" and win: "window_rel P A S s" and slots: "slots_ok t0 s"
    using rel by (auto simp: core_rel_def)
  have pd: "packet_data p = P ! i \<and> \<not> acked p"
    using win i old by (auto simp: window_rel_def)
  have same: "window_map ?t ! (k mod ring_size s) = window_map s ! (k mod ring_size s)"
    if "A - 1 \<le> k" "k < S" "k \<noteq> i" for k
    using core_rel_distinct [OF rel, of k i] core_rel_distinct [OF rel, of i k] that i
    by (cases "k < i") auto
  have at: "window_map ?t ! (i mod ring_size s) = Some q"
    using cfg_slot [OF cfg, of i] by simp
  have "window_rel P A S ?t"
    unfolding window_rel_def
  proof (intro conjI allI impI)
    fix k assume k: "A \<le> k \<and> k < S"
    show "\<exists>p. window_map ?t ! (k mod ring_size ?t) = Some p \<and> packet_data p = P ! k \<and> \<not> acked p"
    proof (cases "k = i")
      case True
      then show ?thesis using at new pd by simp
    next
      case False
      with k have "window_map ?t ! (k mod ring_size s) = window_map s ! (k mod ring_size s)"
        by (intro same) auto
      with k win show ?thesis by (simp add: window_rel_def)
    qed
  next
    assume "0 < A"
    with same [of "A - 1"] win i
    show "\<exists>p. window_map ?t ! ((A - 1) mod ring_size ?t) = Some p \<and> acked p"
      by (simp add: window_rel_def)
  qed
  moreover have "slots_ok t0 ?t" by (rule slots_ok_update [OF slots new(3)])
  moreover have "sender_cfg ?t" "counters_rel C A S ?t" "clock_ok t0 ?t"
    using rel by (auto simp: core_rel_def rel_defs)
  ultimately show ?thesis using rel by (simp add: core_rel_def)
qed

lemma core_rel_wire:
  assumes "core_rel t0 P C A S s" and "A \<le> i" and "i < S"
  shows "core_rel t0 P C A S (s\<lparr>wire := wire s @ [packet_datagram s P i]\<rparr>)"
proof -
  have "S \<le> i + nat (window_size s)" using assms by (auto simp: core_rel_def counters_rel_def)
  then have "wire_log (packet_datagram s P) (nat (window_size s))
      (wire s @ [packet_datagram s P i]) S"
    using assms by (intro log_again) (auto simp: core_rel_def)
  then show ?thesis using assms by (simp add: core_rel_def rel_defs)
qed

lemma resend_packet_rel:
  assumes rel: "core_rel t0 P C A S s" and i: "A \<le> i" "i < S"
  shows "\<exists>wm. resend_packet (int (i mod ring_size s)) s =
      Inr (s\<lparr>window_map := wm, wire := wire s @ [packet_datagram s P i]\<rparr>) \<and>
    core_rel t0 P C A S (s\<lparr>window_map := wm, wire := wire s @ [packet_datagram s P i]\<rparr>)"
proof -
  have cfg: "sender_cfg s" using rel by (simp add: core_rel_def)
  obtain p where p: "window_map s ! (i mod ring_size s) = Some p" "packet_data p = P ! i"
    "\<not> acked p" "slot_ok t0 s (i mod ring_size s) p"
    by (rule core_rel_slot [OF rel i])
  define q where "q = snd (generatePacketString (setRetransmitted p))"
  have ok: "packet_ok (digits s) (setRetransmitted p)" using p(4) by (simp add: slot_ok_def)
  have str: "generatePacketString (setRetransmitted p) = (packet_datagram s P i, q)"
    using generatePacketString_ok(1) [OF ok] p(2,4)
    by (simp add: q_def packet_datagram_def slot_ok_def packet_ops prod_eq_iff)
  have q: "packet_data q = packet_data p" "acked q = acked p" "slot_ok t0 s (i mod ring_size s) q"
    using generatePacketString_ok(2) [OF ok] p(4)
    by (simp_all add: q_def slot_ok_def generatePacketString_frame)
       (simp_all add: packet_ops)
  let ?t = "s\<lparr>window_map := (window_map s)[i mod ring_size s := Some q]\<rparr>"
  have core: "core_rel t0 P C A S ?t" by (rule core_rel_window_update [OF rel i p(1) q])
  have "core_rel t0 P C A S (?t\<lparr>wire := wire ?t @ [packet_datagram ?t P i]\<rparr>)"
    by (rule core_rel_wire [OF core i])
  moreover have "resend_packet (int (i mod ring_size s)) s =
      Inr (?t\<lparr>wire := wire ?t @ [packet_datagram ?t P i]\<rparr>)"
    using str window_get_slot [OF cfg p(1)] window_put_slot [OF cfg, of i q]
    by (simp add: resend_packet_def sendPacketUnreliable_def UNRELIABLE_PACKET_DELAY_MS_def)
  ultimately show ?thesis by (intro exI [of _ "window_map ?t"]) simp
qed

lemma core_rel_resend_guard:
  assumes "core_rel t0 P C A S s" and "A \<le> j" and "j \<le> S"
  shows "resend_guard (int (S mod ring_size s)) (int (A mod ring_size s))
      (int (ring_size s)) (window_size s) (int (j mod ring_size s)) \<longleftrightarrow> j < S"
proof -
  have cfg: "sender_cfg s" and "S \<le> A + nat (window_size s)"
    using assms(1) by (auto simp: core_rel_def counters_rel_def)
  then show ?thesis
    using resend_test [of "ring_size s" A j S "nat (window_size s)"] cfg_ring(2,6) [OF cfg] assms(2,3)
    unfolding cfg_ring(5) [OF cfg, symmetric] by blast
qed

text \<open>The loop ends and resends exactly the packets between the indices, in order.\<close>

lemma resend_loop_rel:
  assumes "core_rel t0 P C A S s" and "A \<le> j" and "j \<le> S"
  shows "\<exists>wm. resend_loop (int (S mod ring_size s)) (int (A mod ring_size s))
        (int (ring_size s)) (window_size s) (int (j mod ring_size s)) s =
      Some (Inr (s\<lparr>window_map := wm, wire := wire s @ map (packet_datagram s P) [j..<S]\<rparr>)) \<and>
    core_rel t0 P C A S (s\<lparr>window_map := wm, wire := wire s @ map (packet_datagram s P) [j..<S]\<rparr>)"
  using assms
proof (induction "S - j" arbitrary: j s)
  case 0
  then have cfg: "sender_cfg s" and cnt: "counters_rel C A S s" and js: "j = S"
    by (auto simp: core_rel_def)
  have "\<not> resend_guard (int (S mod ring_size s)) (int (A mod ring_size s))
      (int (ring_size s)) (window_size s) (int (j mod ring_size s))"
    using core_rel_resend_guard [OF 0(2-4)] js by simp
  then have "resend_loop (int (S mod ring_size s)) (int (A mod ring_size s))
      (int (ring_size s)) (window_size s) (int (j mod ring_size s)) s = Some (Inr s)"
    by (subst resend_loop.simps) simp
  then show ?case using 0(2) js by (intro exI [of _ "window_map s"]) simp
next
  case (Suc m)
  then have cfg: "sender_cfg s" and cnt: "counters_rel C A S s" and js: "j < S"
    by (auto simp: core_rel_def)
  note c = cfg_ring [OF cfg]
  have g: "resend_guard (int (S mod ring_size s)) (int (A mod ring_size s))
      (int (ring_size s)) (window_size s) (int (j mod ring_size s))"
    using core_rel_resend_guard [OF Suc.prems] js by simp
  obtain wm where wm: "resend_packet (int (j mod ring_size s)) s =
      Inr (s\<lparr>window_map := wm, wire := wire s @ [packet_datagram s P j]\<rparr>)"
    and core: "core_rel t0 P C A S (s\<lparr>window_map := wm, wire := wire s @ [packet_datagram s P j]\<rparr>)"
      (is "core_rel _ _ _ _ _ ?s1")
    using resend_packet_rel [OF Suc.prems(1,2) js] by blast
  have lt: "j mod ring_size s < ring_size s" using c(2) by simp
  then have "in_int (int (j mod ring_size s) + 1)" using c(4) unfolding int_bounds by linarith
  then have add: "iadd (int (j mod ring_size s)) 1 = Inr (int (Suc (j mod ring_size s)))" by simp
  have md: "imod (int (Suc (j mod ring_size s))) (int (ring_size s)) =
      Inr (int (Suc j mod ring_size s))"
    using cfg_imod [OF cfg, of "Suc (j mod ring_size s)"] lt ring_Suc [OF c(2), of j] by simp
  have step: "resend_loop (int (S mod ring_size s)) (int (A mod ring_size s))
        (int (ring_size s)) (window_size s) (int (j mod ring_size s)) s =
      resend_loop (int (S mod ring_size s)) (int (A mod ring_size s))
        (int (ring_size s)) (window_size s) (int (Suc j mod ring_size s)) ?s1"
    using g wm add md by (subst resend_loop.simps) (simp del: of_nat_Suc)
  have "m = S - Suc j" "A \<le> Suc j" "Suc j \<le> S" using Suc.hyps(2) Suc.prems js by auto
  from Suc.hyps(1) [OF this(1) core this(2,3)] obtain wm' where
    "resend_loop (int (S mod ring_size s)) (int (A mod ring_size s))
        (int (ring_size s)) (window_size s) (int (Suc j mod ring_size s)) ?s1 =
      Some (Inr (?s1\<lparr>window_map := wm', wire := wire ?s1 @ map (packet_datagram ?s1 P) [Suc j..<S]\<rparr>))"
    "core_rel t0 P C A S (?s1\<lparr>window_map := wm', wire := wire ?s1 @ map (packet_datagram ?s1 P) [Suc j..<S]\<rparr>)"
    by auto
  moreover have "map (packet_datagram s P) [j..<S] =
      packet_datagram s P j # map (packet_datagram ?s1 P) [Suc j..<S]"
    using js by (simp add: upt_conv_Cons)
  ultimately show ?case using step by (intro exI [of _ wm']) simp
qed

lemma timeoutHandler_rel:
  assumes rel: "sender_rel t0 P C A S s" and active: "\<not> finished_sending_data s"
  shows "\<exists>s'. timeoutHandler s = Some (Inr s') \<and> sender_rel t0 P C A S s' \<and>
    wire s' = wire s @ map (packet_datagram s P) [A..<S] \<and> conf s' = conf s"
proof -
  have core: "core_rel t0 P C A S s" and tm: "timers_ok s"
    using rel by (auto simp: sender_rel_core)
  then have cfg: "sender_cfg s" and cnt: "counters_rel C A S s" by (auto simp: core_rel_def)
  then have b: "base_idx s = int (A mod ring_size s)" "next_seq_num_idx s = int (S mod ring_size s)"
    and "A \<le> S" by (auto simp: counters_rel_def)
  obtain wm where wm: "resend_loop (int (S mod ring_size s)) (int (A mod ring_size s))
        (int (ring_size s)) (window_size s) (int (A mod ring_size s)) s =
      Some (Inr (s\<lparr>window_map := wm, wire := wire s @ map (packet_datagram s P) [A..<S]\<rparr>))"
    and core': "core_rel t0 P C A S
      (s\<lparr>window_map := wm, wire := wire s @ map (packet_datagram s P) [A..<S]\<rparr>)"
      (is "core_rel _ _ _ _ _ ?t")
    using resend_loop_rel [OF core, of A] \<open>A \<le> S\<close> by blast
  have "timeoutHandler s = Some (Inr (startTimeoutTimer ?t))"
    using active wm cfg_ring(9) [OF cfg]
    by (simp add: timeoutHandler_def Let_def getNextSeqNum_def getBaseIdx_def getWindowSize_def b)
  moreover have "sender_rel t0 P C A S (startTimeoutTimer ?t)"
    using core' tm by (intro sender_rel_startTimeoutTimer) (simp_all add: timers_ok_def)
  ultimately show ?thesis by (simp add: startTimeoutTimer_eq conf_def)
qed

subsection \<open>Acknowledgements\<close>

text \<open>The smoothed round-trip time lies between the estimate and the sample.\<close>

lemma smoothed_rtt_between:
  assumes "0 \<le> lo" and "lo \<le> e" and "e \<le> hi" and "lo \<le> x" and "x \<le> hi" and "hi \<le> INT_MAX"
  shows "\<exists>r. smoothed_rtt e x = Inr r \<and> lo \<le> r \<and> r \<le> hi"
proof -
  define r where "r = (7 * e + x) div 8"
  have "(7 * e + x) sdiv 8 = r" using assms by (simp add: sdiv_nonneg r_def)
  moreover have "lo \<le> r" "r \<le> hi" using assms by (auto simp: r_def)
  moreover have "in_int r" using calculation assms by (auto simp: int_bounds)
  ultimately show ?thesis by (simp add: smoothed_rtt_def)
qed

lemma sample_rtt_rel:
  assumes rel: "clock_ok t0 s" and p: "slot_ok t0 s k p"
  shows "\<exists>r. sample_rtt p s = Inr (s\<lparr>estimated_rtt := r\<rparr>) \<and> 0 \<le> r \<and> r \<le> INT_MAX"
proof -
  have clk: "0 \<le> estimated_rtt s" "estimated_rtt s \<le> INT_MAX" "now s \<le> t0 + INT_MAX"
    using rel by (auto simp: clock_ok_def)
  moreover have "t0 \<le> starting_time p" "starting_time p \<le> now s" using p by (auto simp: slot_ok_def)
  ultimately obtain r where "smoothed_rtt (estimated_rtt s) (now s - starting_time p) = Inr r"
    "0 \<le> r" "r \<le> INT_MAX"
    using smoothed_rtt_between [of 0 "estimated_rtt s" INT_MAX "now s - starting_time p"] by auto
  with clk show ?thesis
    by (cases "retransmitted p") (auto simp: sample_rtt_def packet_ops intro: exI [of _ "estimated_rtt s"])
qed

text \<open>The number of packets an acknowledgement adds, computed from positions on the ring.\<close>

lemma count_acked_eq:
  assumes cfg: "sender_cfg s" and j: "A \<le> j" "j < A + nat (window_size s)" "C \<le> A"
    and last: "last_acked_packet s = (if A = 0 then -1 else int ((A - 1) mod ring_size s))"
    and cnt: "acked_count s = int A - int C" and max: "int (Suc j) \<le> INT_MAX"
  shows "count_acked (int (j mod ring_size s)) s =
    Inr (s\<lparr>acked_count := int (Suc j) - int C, last_acked_packet := int (j mod ring_size s)\<rparr>)"
proof -
  let ?N = "ring_size s" and ?k = "int (j mod ring_size s)"
  note c = cfg_ring [OF cfg]
  have kN: "0 \<le> ?k" "?k < int ?N" using c(2) by simp_all
  have b10: "max_seq_num_b10 s = int ?N - 1" using c(1) by linarith
  have tot: "in_int (acked_count s + (int (Suc j) - int A))"
    using cnt max j by (auto simp: int_bounds)
  have goal: "acked_count s + (int (Suc j) - int A) = int (Suc j) - int C" using cnt by simp
  show ?thesis
  proof (cases "?k < last_acked_packet s")
    case True
    then have A: "0 < A" "last_acked_packet s = int ((A - 1) mod ?N)"
      using last kN by (auto split: if_splits)
    then have "?k = int ((A - 1) mod ?N) + (int j - int (A - 1)) - int ?N"
      using True ring_split [of ?N "A - 1" j] c(2,6) j by (auto simp: of_nat_diff split: if_splits)
    then have m: "(max_seq_num_b10 s - last_acked_packet s) + ?k + 1 = int (Suc j) - int A"
      using A b10 by (simp add: of_nat_diff)
    have l: "0 \<le> last_acked_packet s" "last_acked_packet s < int ?N" using A(2) c(2) by simp_all
    have "in_int (max_seq_num_b10 s - last_acked_packet s)"
      "in_int (max_seq_num_b10 s - last_acked_packet s + ?k)"
      "in_int (max_seq_num_b10 s - last_acked_packet s + ?k + 1)"
      using l kN b10 c(4) unfolding int_bounds by linarith+
    then have "isub (max_seq_num_b10 s) (last_acked_packet s) =
        Inr (max_seq_num_b10 s - last_acked_packet s)"
      "iadd (max_seq_num_b10 s - last_acked_packet s) ?k =
        Inr (max_seq_num_b10 s - last_acked_packet s + ?k)"
      "iadd (max_seq_num_b10 s - last_acked_packet s + ?k) 1 = Inr (int (Suc j) - int A)"
      unfolding m [symmetric] by (simp_all only: isub_in iadd_in)
    moreover have "iadd (acked_count s) (int (Suc j) - int A) = Inr (int (Suc j) - int C)"
      using tot goal by (simp only: iadd_in)
    ultimately show ?thesis
      using True by (simp only: count_acked_def if_True rbind_simps)
  next
    case False
    have m: "?k - last_acked_packet s = int (Suc j) - int A"
    proof (cases "A = 0")
      case True
      then have "j < ?N" using j c(6) by linarith
      with True last show ?thesis by simp
    next
      case A: False
      then show ?thesis
        using False last ring_split [of ?N "A - 1" j] c(2,6) j
        by (auto simp: of_nat_diff split: if_splits)
    qed
    then have "in_int (?k - last_acked_packet s)" using j max by (auto simp: int_bounds)
    then show ?thesis using False m tot goal by (simp add: count_acked_def)
  qed
qed

lemma setBaseIdx_eq:
  assumes cfg: "sender_cfg s"
  shows "iadd (int (j mod ring_size s)) 1 = Inr (int (Suc (j mod ring_size s)))"
    and "setBaseIdx (int (Suc (j mod ring_size s))) s =
      Inr (s\<lparr>base_idx := int (Suc j mod ring_size s)\<rparr>)"
proof -
  note c = cfg_ring [OF cfg]
  have lt: "j mod ring_size s < ring_size s" using c(2) by simp
  then have "in_int (int (j mod ring_size s) + 1)" using c(4) unfolding int_bounds by linarith
  then show "iadd (int (j mod ring_size s)) 1 = Inr (int (Suc (j mod ring_size s)))" by simp
  have "imod (int (Suc (j mod ring_size s))) (int (ring_size s)) =
      Inr (int (Suc j mod ring_size s))"
    using cfg_imod [OF cfg, of "Suc (j mod ring_size s)"] lt ring_Suc [OF c(2), of j] by simp
  then show "setBaseIdx (int (Suc (j mod ring_size s))) s =
      Inr (s\<lparr>base_idx := int (Suc j mod ring_size s)\<rparr>)"
    using c(9) by (simp add: setBaseIdx_def del: of_nat_Suc)
qed

text \<open>The fields of the timers, changed in any way.\<close>

definition same_but_timers :: "client_sender \<Rightarrow> client_sender \<Rightarrow> bool" where
  "same_but_timers s s' \<longleftrightarrow>
     (\<exists>a b c. s' = s\<lparr>olderTimers := a, timers := b, timeoutTimer := c\<rparr>)"

lemma stop_or_restart_timer_rel:
  assumes tm: "timers_ok s" and t: "timeoutTimer s \<noteq> None"
  shows "\<exists>s'. stop_or_restart_timer s = Inr s' \<and> same_but_timers s s' \<and> timers_ok s' \<and>
    timeoutTimer s' \<noteq> None \<and>
    s' = (if base_idx s = next_seq_num_idx s then stop_timer_at (the (timeoutTimer s)) s
          else startTimeoutTimer s)"
proof -
  obtain i where i: "timeoutTimer s = Some i" using t by blast
  then have "i < length (timers s)" using tm by (simp add: timers_ok_def)
  then have "timers_ok (stop_timer_at i s)"
    using tm i by (auto simp: stop_timer_at_def timers_ok_def
        dest!: set_update_subset_insert [THEN subsetD])
  moreover have "same_but_timers s (stop_timer_at i s)"
    unfolding same_but_timers_def
    by (intro exI [of _ "olderTimers s"] exI [of _ "timers (stop_timer_at i s)"]
        exI [of _ "timeoutTimer s"]) (simp add: stop_timer_at_def)
  moreover have "same_but_timers s (startTimeoutTimer s)"
    unfolding same_but_timers_def startTimeoutTimer_eq by blast
  ultimately show ?thesis
    using timers_ok_start [OF tm] i
    by (auto simp: stop_or_restart_timer_def getBaseIdx_def getNextSeqNum_def startTimeoutTimer_eq
        stop_timer_at_def)
qed

lemma core_rel_acked:
  assumes rel: "core_rel t0 P C A S s" and j: "A \<le> j" "j < S"
    and p: "window_map s ! (j mod ring_size s) = Some p" "packet_data p = P ! j"
      "slot_ok t0 s (j mod ring_size s) p"
    and r: "0 \<le> r" "r \<le> INT_MAX"
  shows "core_rel t0 P C (Suc j) S
    (s\<lparr>estimated_rtt := r, base_idx := int (Suc j mod ring_size s),
       acked_count := int (Suc j) - int C, last_acked_packet := int (j mod ring_size s),
       window_map := (window_map s)[j mod ring_size s := Some (setAcked p)]\<rparr>)"
    (is "core_rel _ _ _ _ _ ?t")
proof -
  have cfg: "sender_cfg s" and win: "window_rel P A S s" and slots: "slots_ok t0 s"
    and cnt: "counters_rel C A S s" and clk: "clock_ok t0 s"
    using rel by (auto simp: core_rel_def)
  have same: "window_map ?t ! (k mod ring_size s) = window_map s ! (k mod ring_size s)"
    if "Suc j \<le> k" "k < S" for k
    using core_rel_distinct [OF rel, of j k] that j by simp
  have at: "window_map ?t ! (j mod ring_size s) = Some (setAcked p)"
    using cfg_slot [OF cfg, of j] by simp
  have "window_rel P (Suc j) S ?t"
    using same at win j by (simp add: window_rel_def) (simp add: packet_ops)
  moreover have "slots_ok t0 ?t"
  proof -
    have "seqnum (setAcked p) = seqnum p" "starting_time (setAcked p) = starting_time p"
      by (simp_all add: packet_ops)
    then have "slot_ok t0 s (j mod ring_size s) (setAcked p)"
      using p(3) by (simp add: slot_ok_def)
    from slots_ok_update [OF slots this] show ?thesis by (simp add: slots_ok_def slot_ok_def)
  qed
  moreover have "sender_cfg ?t" using cfg by (simp add: sender_cfg_def)
  moreover have "clock_ok t0 ?t" using clk r by (simp add: clock_ok_def)
  moreover have "counters_rel C (Suc j) S ?t" using cnt j by (simp add: counters_rel_def)
  ultimately show ?thesis using rel by (simp add: core_rel_def)
qed

text \<open>An acknowledgement of a packet in the window acknowledges all packets up to it.\<close>

lemma ackedPacket_rel:
  assumes rel: "sender_rel t0 P C A S s" and active: "\<not> finished_sending_data s"
    and j: "A \<le> j" "j < S"
  shows "\<exists>s'. ackedPacket (int (j mod ring_size s)) s = Inr s' \<and>
    sender_rel t0 P C (Suc j) S s' \<and> wire s' = wire s \<and> conf s' = conf s \<and>
    (\<exists>q. window_map s' = (window_map s)[j mod ring_size s := Some q])"
proof -
  define u where "u = cleanTimers s"
  have ru: "ring_size u = ring_size s" "wire u = wire s" "finished_sending_data u = finished_sending_data s"
    by (simp_all add: u_def cleanTimers_def)
  have relu: "sender_rel t0 P C A S u" using sender_rel_cleanTimers [OF rel] by (simp add: u_def)
  then have core: "core_rel t0 P C A S u" and tm: "timers_ok u" and t: "timeoutTimer u \<noteq> None"
    using j by (auto simp: sender_rel_core)
  have cfg: "sender_cfg u" and cnt: "counters_rel C A S u" and len: "S \<le> length P"
    "int (length P) \<le> INT_MAX" using core by (auto simp: core_rel_def)
  let ?k = "int (j mod ring_size u)"
  obtain p where p: "window_map u ! (j mod ring_size u) = Some p" "packet_data p = P ! j"
    "\<not> acked p" "slot_ok t0 u (j mod ring_size u) p"
    by (rule core_rel_slot [OF core j])
  obtain r where r: "sample_rtt p u = Inr (u\<lparr>estimated_rtt := r\<rparr>)" "0 \<le> r" "r \<le> INT_MAX"
    using sample_rtt_rel [OF _ p(4)] core by (auto simp: core_rel_def)
  define v where "v = u\<lparr>estimated_rtt := r, base_idx := int (Suc j mod ring_size u)\<rparr>"
  obtain m where base: "iadd ?k 1 = Inr m" "setBaseIdx m (u\<lparr>estimated_rtt := r\<rparr>) = Inr v"
    using setBaseIdx_eq [of "u\<lparr>estimated_rtt := r\<rparr>" j] cfg by (simp add: v_def)
  have tv: "timers_ok v" "timeoutTimer v \<noteq> None" using tm t by (simp_all add: v_def timers_ok_def)
  obtain w a b c where w: "stop_or_restart_timer v = Inr w" "timers_ok w" "timeoutTimer w \<noteq> None"
    and weq: "w = v\<lparr>olderTimers := a, timers := b, timeoutTimer := c\<rparr>"
    using stop_or_restart_timer_rel [OF tv] unfolding same_but_timers_def by blast
  have rw: "ring_size w = ring_size u" by (simp add: weq v_def)
  have cfgw: "sender_cfg w" using cfg by (simp add: weq v_def sender_cfg_def)
  define x where "x = w\<lparr>acked_count := int (Suc j) - int C, last_acked_packet := ?k\<rparr>"
  have "count_acked ?k w = Inr x"
    using count_acked_eq [OF cfgw, of A j C] cnt j len rw
    by (simp add: x_def counters_rel_def weq v_def)
  moreover have "window_get ?k x = Inr p"
    using window_get_slot [of x j p] cfgw p(1) rw
    by (simp add: x_def sender_cfg_def weq v_def ring_size_def)
  moreover have "window_put ?k (setAcked p) x =
      Inr (x\<lparr>window_map := (window_map x)[j mod ring_size u := Some (setAcked p)]\<rparr>)"
    using window_put_slot [of x j "setAcked p"] cfgw rw
    by (simp add: x_def sender_cfg_def weq v_def ring_size_def)
  ultimately have res: "ackedPacket ?k s =
      Inr (x\<lparr>window_map := (window_map x)[j mod ring_size u := Some (setAcked p)]\<rparr>)"
      (is "_ = Inr ?y")
    using active window_get_slot [OF cfg p(1)] p(3) r(1) base w(1)
    by (simp add: ackedPacket_def Let_def u_def [symmetric] ru getAcked_def)
  let ?T = "u\<lparr>estimated_rtt := r, base_idx := int (Suc j mod ring_size u),
       acked_count := int (Suc j) - int C, last_acked_packet := ?k,
       window_map := (window_map u)[j mod ring_size u := Some (setAcked p)]\<rparr>"
  have y: "?y = ?T\<lparr>olderTimers := a, timers := b, timeoutTimer := c\<rparr>"
    by (simp add: x_def weq v_def)
  have "core_rel t0 P C (Suc j) S ?T"
    by (rule core_rel_acked [OF core j p(1,2,4) r(2,3)])
  then have "core_rel t0 P C (Suc j) S ?y" by (simp only: y core_rel_timers)
  moreover have "timers_ok ?y" "timeoutTimer ?y \<noteq> None"
    using w(2,3) by (simp_all add: x_def timers_ok_def)
  moreover have "wire ?y = wire s" "conf ?y = conf s"
    using ru by (simp_all add: x_def weq v_def conf_def) (simp_all add: u_def cleanTimers_def)
  moreover have "window_map ?y = (window_map s)[j mod ring_size s := Some (setAcked p)]"
    using ru by (simp add: x_def weq v_def) (simp add: u_def cleanTimers_def)
  ultimately show ?thesis using res ru by (auto simp: sender_rel_core)
qed

text \<open>A repetition of the last acknowledgement only tidies the timers.\<close>

lemma ackedPacket_duplicate:
  assumes rel: "sender_rel t0 P C A S s" and active: "\<not> finished_sending_data s"
    and A: "0 < A"
  shows "ackedPacket (int ((A - 1) mod ring_size s)) s = Inr (cleanTimers s)"
proof -
  define u where "u = cleanTimers s"
  have ru: "ring_size u = ring_size s" "finished_sending_data u = finished_sending_data s"
    by (simp_all add: u_def cleanTimers_def)
  have "sender_rel t0 P C A S u" using sender_rel_cleanTimers [OF rel] by (simp add: u_def)
  then have cfg: "sender_cfg u" and win: "window_rel P A S u" by (auto simp: sender_rel_def)
  then obtain p where p: "window_map u ! ((A - 1) mod ring_size u) = Some p" "acked p"
    using A by (auto simp: window_rel_def)
  then show ?thesis
    using active window_get_slot [OF cfg p(1)] ru
    by (simp add: ackedPacket_def Let_def u_def [symmetric] getAcked_def)
qed

subsection \<open>The other operations\<close>

lemma sender_rel_data [simp]:
  "sender_rel t0 P C A S (s\<lparr>dataProcessor := dp\<rparr>) = sender_rel t0 P C A S s"
  by (simp add: sender_rel_core timers_ok_def)

lemma sender_rel_timer_update:
  assumes "sender_rel t0 P C A S s" and "started t"
  shows "sender_rel t0 P C A S (s\<lparr>timers := (timers s)[i := t]\<rparr>)"
  using assms by (auto simp: sender_rel_core timers_ok_def dest!: set_update_subset_insert [THEN subsetD])

lemma core_rel_tick:
  assumes core: "core_rel t0 P C A S s" and "now s \<le> n" and "n \<le> t0 + INT_MAX"
  shows "core_rel t0 P C A S (s\<lparr>now := n\<rparr>)"
proof -
  have "slots_ok t0 (s\<lparr>now := n\<rparr>)" "clock_ok t0 (s\<lparr>now := n\<rparr>)"
    using assms by (fastforce simp: core_rel_def slots_ok_def slot_ok_def clock_ok_def)+
  moreover have "sender_cfg (s\<lparr>now := n\<rparr>) = sender_cfg s"
    "counters_rel C A S (s\<lparr>now := n\<rparr>) = counters_rel C A S s"
    "window_rel P A S (s\<lparr>now := n\<rparr>) = window_rel P A S s"
    by (simp_all add: sender_cfg_def counters_rel_def window_rel_def)
  ultimately show ?thesis using core by (simp add: core_rel_def)
qed

lemma sender_rel_tick:
  "sender_rel t0 P C A S s \<Longrightarrow> now s \<le> n \<Longrightarrow> n \<le> t0 + INT_MAX \<Longrightarrow> sender_rel t0 P C A S (s\<lparr>now := n\<rparr>)"
  using core_rel_tick [of t0 P C A S s n] by (simp add: sender_rel_core timers_ok_def)

lemma core_rel_end:
  "core_rel t0 P C A S s \<Longrightarrow> core_rel t0 P C A S (s\<lparr>wire := wire s @ [[]]\<rparr>)"
  by (simp add: core_rel_def) (auto simp: rel_defs intro: log_end)

lemma sender_rel_endConnection:
  "sender_rel t0 P C A S s \<Longrightarrow> sender_rel t0 P C A S (endConnection s)"
  using core_rel_end [of t0 P C A S s]
  by (simp add: sender_rel_core endConnection_def sendPacketUnreliable_def timers_ok_def)

lemma sender_rel_finished [simp]:
  "sender_rel t0 P C A S (s\<lparr>finished_sending_data := b\<rparr>) = sender_rel t0 P C A S s"
  by (simp add: sender_rel_core timers_ok_def)

lemma sender_rel_threadFun_end:
  assumes "sender_rel t0 P C A S s"
  shows "sender_rel t0 P C A S (threadFun_end s)"
proof -
  let ?s = "endConnection (s\<lparr>finished_sending_data := True\<rparr>)"
  have rel: "sender_rel t0 P C A S ?s" using assms by (intro sender_rel_endConnection) simp
  then have "i < length (timers ?s)" if "timeoutTimer ?s = Some i" for i
    using that by (simp add: sender_rel_core timers_ok_def)
  then show ?thesis
    using rel sender_rel_stop_timer [OF rel]
    by (simp add: threadFun_end_def Let_def split: option.split)
qed

text \<open>Closing a chunk starts the count of its successor.\<close>

lemma sender_rel_close_chunk:
  assumes "sender_rel t0 P C A S s"
  shows "sender_rel t0 P A A S (close_chunk s)"
proof -
  have "core_rel t0 P A A S (u\<lparr>acked_count := 0\<rparr>)" if "core_rel t0 P C A S u" for u
    using that by (simp add: core_rel_def rel_defs)
  then show ?thesis
    using sender_rel_cleanTimers [OF assms]
    by (simp add: close_chunk_def resetChunkVars_def setAckedPacketsCount_def sender_rel_core
        timers_ok_def)
qed

lemma conf_simps [simp]:
  "conf (cleanTimers s) = conf s"
  "conf (endConnection s) = conf s"
  "conf (close_chunk s) = conf s"
  "conf (s\<lparr>timers := a\<rparr>) = conf s"
  "conf (s\<lparr>now := n\<rparr>) = conf s"
  "conf (threadFun_end s) = (fst (conf s), dataProcessor s, True)"
  by (simp_all add: conf_def cleanTimers_def endConnection_def sendPacketUnreliable_def
      close_chunk_def resetChunkVars_def setAckedPacketsCount_def threadFun_end_def stop_timer_at_def
      Let_def split: option.split)

subsection \<open>Acknowledgements the protocol can produce\<close>

text \<open>
  On a channel that keeps the order, an acknowledgement is of a packet between the two
  indices or repeats the last one; after the end, any number may arrive.
\<close>

definition in_window :: "client_sender \<Rightarrow> int \<Rightarrow> bool" where
  "in_window s k \<longleftrightarrow>
     (let n = max_seq_num_b10 s + 1
      in (k - base_idx s) mod n < (next_seq_num_idx s - base_idx s) mod n)"

definition plausible_ack :: "client_sender \<Rightarrow> int \<Rightarrow> bool" where
  "plausible_ack s k \<longleftrightarrow>
     0 \<le> k \<and> k \<le> max_seq_num_b10 s \<and>
     (finished_sending_data s \<or> in_window s k \<or> k = last_acked_packet s)"

lemma ring_distance:
  assumes "A \<le> S" and "S < A + N"
  shows "(int (S mod N) - int (A mod N)) mod int N = int (S - A)"
proof -
  have "(int (S mod N) - int (A mod N)) mod int N = (int S - int A) mod int N"
    by (simp add: of_nat_mod mod_diff_eq)
  also have "\<dots> = int (S - A)" using assms by (simp add: of_nat_diff)
  finally show ?thesis .
qed

lemma unacked_distance:
  assumes "sender_rel t0 P C A S s"
  shows "(next_seq_num_idx s - base_idx s) mod (max_seq_num_b10 s + 1) = int (S - A)"
proof -
  have cfg: "sender_cfg s" and cnt: "counters_rel C A S s" using assms by (auto simp: sender_rel_def)
  then show ?thesis
    using cfg_ring(6) [OF cfg] ring_distance [of A S "ring_size s"]
    unfolding cfg_ring(1) [OF cfg] by (auto simp: counters_rel_def)
qed

lemma in_window_iff:
  assumes rel: "sender_rel t0 P C A S s" and k: "0 \<le> k" "k \<le> max_seq_num_b10 s"
  shows "in_window s k \<longleftrightarrow> (\<exists>j. A \<le> j \<and> j < S \<and> k = int (j mod ring_size s))"
proof -
  let ?N = "ring_size s"
  have cfg: "sender_cfg s" and cnt: "counters_rel C A S s" using rel by (auto simp: sender_rel_def)
  have AS: "A \<le> S" "S < A + ?N" and b: "base_idx s = int (A mod ?N)"
    using cnt cfg_ring(6) [OF cfg] by (auto simp: counters_rel_def)
  have w: "in_window s k \<longleftrightarrow> (k - int (A mod ?N)) mod int ?N < int (S - A)"
    using unacked_distance [OF rel] cfg_ring(1) [OF cfg] b by (simp add: in_window_def)
  show ?thesis
  proof
    assume in_w: "in_window s k"
    define j where "j = A + nat ((k - int (A mod ?N)) mod int ?N)"
    have pos: "0 \<le> (k - int (A mod ?N)) mod int ?N" using cfg_ring(2) [OF cfg] by simp
    then have "int j = int A + (k - int (A mod ?N)) mod int ?N" by (simp add: j_def)
    then have "int j mod int ?N = (int A + (k - int A)) mod int ?N"
      by (simp add: of_nat_mod mod_simps)
    also have "\<dots> = k" using k cfg_ring(1) [OF cfg] by simp
    finally have "k = int (j mod ?N)" by (simp add: of_nat_mod)
    moreover have "j < S"
      using in_w w AS \<open>int j = int A + (k - int (A mod ?N)) mod int ?N\<close> by linarith
    moreover have "A \<le> j" by (simp add: j_def)
    ultimately show "\<exists>j. A \<le> j \<and> j < S \<and> k = int (j mod ?N)" by blast
  next
    assume "\<exists>j. A \<le> j \<and> j < S \<and> k = int (j mod ?N)"
    then obtain j where "A \<le> j" "j < S" "k = int (j mod ?N)" by blast
    then show "in_window s k" using w AS ring_distance [of A j ?N] by simp
  qed
qed

text \<open>What an operation gives to the socket: packets by number, or the empty datagram.\<close>

definition sent_log :: "client_sender \<Rightarrow> string list \<Rightarrow> nat option list \<Rightarrow> string list" where
  "sent_log s P xs = map (\<lambda>x. case x of None \<Rightarrow> [] | Some i \<Rightarrow> packet_datagram s P i) xs"

definition wire_grows ::
    "string list \<Rightarrow> nat \<Rightarrow> nat \<Rightarrow> client_sender \<Rightarrow> client_sender \<Rightarrow> bool" where
  "wire_grows P A S s s' \<longleftrightarrow>
     (finished_sending_data s \<longrightarrow> finished_sending_data s') \<and>
     (\<exists>xs. wire s' = wire s @ sent_log s P xs \<and> (\<forall>i. Some i \<in> set xs \<longrightarrow> A \<le> i \<and> i < S) \<and>
        (None \<in> set xs \<longrightarrow> finished_sending_data s'))"

lemma conf_finished:
  "conf s' = conf s \<Longrightarrow> finished_sending_data s' = finished_sending_data s"
  by (simp add: conf_def)

lemma wire_grows_same:
  "wire s' = wire s \<Longrightarrow> finished_sending_data s' = finished_sending_data s \<Longrightarrow> wire_grows P A S s s'"
  unfolding wire_grows_def sent_log_def by (intro conjI exI [of _ "[]"]) simp_all

lemma wire_grows_end:
  "wire s' = wire s @ [[]] \<Longrightarrow> finished_sending_data s' \<Longrightarrow> wire_grows P A S s s'"
  unfolding wire_grows_def sent_log_def by (intro conjI exI [of _ "[None]"]) simp_all

lemma wire_grows_packets:
  "wire s' = wire s @ map (packet_datagram s P) [A..<S] \<Longrightarrow>
     finished_sending_data s' = finished_sending_data s \<Longrightarrow> wire_grows P A S s s'"
  unfolding wire_grows_def sent_log_def by (intro conjI exI [of _ "map Some [A..<S]"]) auto

lemma wire_grows_packet:
  "wire s' = wire s @ [packet_datagram s P S] \<Longrightarrow> A \<le> S \<Longrightarrow>
     finished_sending_data s' = finished_sending_data s \<Longrightarrow> wire_grows P A (Suc S) s s'"
  unfolding wire_grows_def sent_log_def by (intro conjI exI [of _ "[Some S]"]) auto

lemma packet_datagram_conf:
  "fst (conf s) = fst (conf s') \<Longrightarrow> packet_datagram s = packet_datagram s'"
  by (simp add: conf_def packet_datagram_def digits_def ring_size_def fun_eq_iff)

lemma wire_grows_trans:
  assumes "fst (conf s1) = fst (conf s)" and "wire_grows P A S s s1" and "wire_grows P A S s1 s2"
  shows "wire_grows P A S s s2"
proof -
  obtain xs ys where "wire s1 = wire s @ sent_log s P xs" "\<forall>i. Some i \<in> set xs \<longrightarrow> A \<le> i \<and> i < S"
    and "None \<in> set xs \<longrightarrow> finished_sending_data s1"
    and "wire s2 = wire s1 @ sent_log s1 P ys" "\<forall>i. Some i \<in> set ys \<longrightarrow> A \<le> i \<and> i < S"
    and "None \<in> set ys \<longrightarrow> finished_sending_data s2"
    using assms(2,3) unfolding wire_grows_def by blast
  moreover have "sent_log s1 P ys = sent_log s P ys"
    using packet_datagram_conf [OF assms(1)] by (simp add: sent_log_def cong: option.case_cong)
  ultimately have "wire s2 = wire s @ sent_log s P (xs @ ys)"
    "\<forall>i. Some i \<in> set (xs @ ys) \<longrightarrow> A \<le> i \<and> i < S"
    "None \<in> set (xs @ ys) \<longrightarrow> finished_sending_data s2"
    using assms(3) by (auto simp: sent_log_def wire_grows_def)
  then show ?thesis using assms(2,3) unfolding wire_grows_def by blast
qed

lemma wire_frame [simp]:
  "wire (cleanTimers s) = wire s"
  "wire (endConnection s) = wire s @ [[]]"
  "wire (close_chunk s) = wire s"
  "wire (threadFun_end s) = wire s @ [[]]"
  "finished_sending_data (cleanTimers s) = finished_sending_data s"
  "finished_sending_data (endConnection s) = finished_sending_data s"
  "finished_sending_data (close_chunk s) = finished_sending_data s"
  "finished_sending_data (threadFun_end s)"
  by (simp_all add: cleanTimers_def endConnection_def sendPacketUnreliable_def close_chunk_def
      resetChunkVars_def setAckedPacketsCount_def threadFun_end_def stop_timer_at_def Let_def
      split: option.split)

text \<open>Every plausible acknowledgement is taken, and the window only moves forward.\<close>

lemma plausible_ack_rel:
  assumes rel: "sender_rel t0 P C A S s" and k: "plausible_ack s k"
  shows "\<exists>A' s'. ackedPacket k s = Inr s' \<and> sender_rel t0 P C A' S s' \<and> conf s' = conf s \<and>
    A \<le> A' \<and> A' \<le> S \<and> (if in_window s k \<and> \<not> finished_sending_data s then A < A' else A' = A) \<and>
    (\<forall>P A S. wire_grows P A S s s')"
proof -
  have AS: "A \<le> S" using rel by (auto simp: sender_rel_def counters_rel_def)
  show ?thesis
  proof (cases "finished_sending_data s")
    case True
    then have "ackedPacket k s = Inr (endConnection (cleanTimers s))"
      by (simp add: ackedPacket_def Let_def cleanTimers_def)
    then show ?thesis
      using sender_rel_endConnection [OF sender_rel_cleanTimers [OF rel]] True AS
      by (intro exI [of _ A]) (simp add: wire_grows_end)
  next
    case False
    show ?thesis
    proof (cases "in_window s k")
      case True
      then obtain j where j: "A \<le> j" "j < S" "k = int (j mod ring_size s)"
        using k in_window_iff [OF rel] by (auto simp: plausible_ack_def)
      then show ?thesis
        using ackedPacket_rel [OF rel False j(1,2)] True False
        by (intro exI [of _ "Suc j"]) (auto intro: wire_grows_same dest: conf_finished)
    next
      case out: False
      then have "k = last_acked_packet s" "0 \<le> k" using k False by (auto simp: plausible_ack_def)
      then have "0 < A" "k = int ((A - 1) mod ring_size s)"
        using rel by (auto simp: sender_rel_def counters_rel_def split: if_splits)
      then show ?thesis
        using ackedPacket_duplicate [OF rel False] sender_rel_cleanTimers [OF rel] out AS
        by (intro exI [of _ A]) (simp add: wire_grows_same)
    qed
  qed
qed

subsection \<open>Acknowledgements out of order\<close>

text \<open>The number of packets between the new and the last acknowledgement, on the ring.\<close>

lemma count_acked_ring:
  assumes cfg: "sender_cfg s" and k: "0 \<le> k" "k < int (ring_size s)"
    and last: "0 \<le> last_acked_packet s" "last_acked_packet s < int (ring_size s)"
    and cnt: "0 \<le> acked_count s" "acked_count s + int (ring_size s) \<le> INT_MAX"
  shows "count_acked k s =
    Inr (s\<lparr>acked_count := acked_count s + (k - last_acked_packet s) mod int (ring_size s),
           last_acked_packet := k\<rparr>)"
proof -
  let ?N = "int (ring_size s)" and ?l = "last_acked_packet s"
  note c = cfg_ring [OF cfg]
  have b10: "max_seq_num_b10 s = ?N - 1" using c(1) by linarith
  show ?thesis
  proof (cases "k < ?l")
    case True
    have "(k - ?l) mod ?N = (k - ?l + ?N) mod ?N" by simp
    also have "\<dots> = k - ?l + ?N" using True k last by (intro mod_pos_pos_trivial) auto
    finally have m: "(k - ?l) mod ?N = max_seq_num_b10 s - ?l + k + 1" using b10 by simp
    have "in_int (max_seq_num_b10 s - ?l)" "in_int (max_seq_num_b10 s - ?l + k)"
      "in_int (max_seq_num_b10 s - ?l + k + 1)"
      "in_int (acked_count s + (max_seq_num_b10 s - ?l + k + 1))"
      using True k last b10 c(4) cnt unfolding int_bounds by linarith+
    then show ?thesis using True m by (simp add: count_acked_def)
  next
    case False
    then have "(k - ?l) mod ?N = k - ?l" using k last by (intro mod_pos_pos_trivial) auto
    moreover have "in_int (k - ?l)" "in_int (acked_count s + (k - ?l))"
      using False k last c(4) cnt unfolding int_bounds by linarith+
    ultimately show ?thesis using False by (simp add: count_acked_def)
  qed
qed

text \<open>
  An acknowledgement that arrives after a later one, of a packet that was only
  acknowledged through that one: the base goes back and the ring's worth of packets
  between is counted.
\<close>

lemma ackedPacket_stale:
  assumes rel: "sender_rel t0 P C A S s" and active: "\<not> finished_sending_data s"
    and j: "Suc j < A" "A \<le> j + ring_size s"
    and slot: "window_map s ! (j mod ring_size s) = Some p" "\<not> acked p"
    and room: "acked_count s + int (ring_size s) \<le> INT_MAX"
  shows "\<exists>s'. ackedPacket (int (j mod ring_size s)) s = Inr s' \<and>
    base_idx s' = int (Suc j mod ring_size s) \<and>
    acked_count s' = acked_count s + (int (ring_size s) - int (A - Suc j))"
proof -
  define u where "u = cleanTimers s"
  have ru: "ring_size u = ring_size s" "finished_sending_data u = finished_sending_data s"
    "window_map u = window_map s" "acked_count u = acked_count s"
    by (simp_all add: u_def cleanTimers_def)
  let ?k = "int (j mod ring_size u)"
  have relu: "sender_rel t0 P C A S u" using sender_rel_cleanTimers [OF rel] by (simp add: u_def)
  then have core: "core_rel t0 P C A S u" and tm: "timers_ok u" and "0 < S \<longrightarrow> timeoutTimer u \<noteq> None"
    by (auto simp: sender_rel_core)
  moreover from core have cfg: "sender_cfg u" and cnt: "counters_rel C A S u"
    and slots: "slots_ok t0 u" by (auto simp: core_rel_def)
  ultimately have t: "timeoutTimer u \<noteq> None" using j by (auto simp: counters_rel_def)
  note c = cfg_ring [OF cfg]
  have p: "window_map u ! (j mod ring_size u) = Some p" "slot_ok t0 u (j mod ring_size u) p"
    using slot slots c(2) ru by (auto simp: slots_ok_def)
  obtain r where r: "sample_rtt p u = Inr (u\<lparr>estimated_rtt := r\<rparr>)"
    using sample_rtt_rel [OF _ p(2)] core by (auto simp: core_rel_def)
  define v where "v = u\<lparr>estimated_rtt := r, base_idx := int (Suc j mod ring_size u)\<rparr>"
  obtain m where base: "iadd ?k 1 = Inr m" "setBaseIdx m (u\<lparr>estimated_rtt := r\<rparr>) = Inr v"
    using setBaseIdx_eq [of "u\<lparr>estimated_rtt := r\<rparr>" j] cfg by (simp add: v_def)
  have tv: "timers_ok v" "timeoutTimer v \<noteq> None" using tm t by (simp_all add: v_def timers_ok_def)
  obtain w a b d where w: "stop_or_restart_timer v = Inr w"
    and weq: "w = v\<lparr>olderTimers := a, timers := b, timeoutTimer := d\<rparr>"
    using stop_or_restart_timer_rel [OF tv] unfolding same_but_timers_def by blast
  have rw: "ring_size w = ring_size u" "acked_count w = acked_count s"
    by (simp_all add: weq v_def ru)
  have cfgw: "sender_cfg w" using cfg by (simp add: weq v_def sender_cfg_def)
  have last: "last_acked_packet w = int ((A - 1) mod ring_size u)"
    using cnt j by (simp add: weq v_def counters_rel_def)
  define x where "x = w\<lparr>acked_count := acked_count w + (?k - last_acked_packet w) mod int (ring_size w),
      last_acked_packet := ?k\<rparr>"
  have "count_acked ?k w = Inr x"
    unfolding x_def
  proof (rule count_acked_ring [OF cfgw])
    show "0 \<le> acked_count w" using cnt rw ru by (simp add: counters_rel_def)
  qed (use rw last c(2) room ru in simp_all)
  moreover have "window_get ?k x = Inr p"
    using window_get_slot [of x j p] cfgw p(1) rw
    by (simp add: x_def sender_cfg_def weq v_def ring_size_def)
  moreover have "window_put ?k (setAcked p) x =
      Inr (x\<lparr>window_map := (window_map x)[j mod ring_size u := Some (setAcked p)]\<rparr>)"
    using window_put_slot [of x j "setAcked p"] cfgw rw
    by (simp add: x_def sender_cfg_def weq v_def ring_size_def)
  ultimately have res: "ackedPacket ?k s =
      Inr (x\<lparr>window_map := (window_map x)[j mod ring_size u := Some (setAcked p)]\<rparr>)"
    using active window_get_slot [OF cfg p(1)] slot(2) r base w
    by (simp add: ackedPacket_def Let_def u_def [symmetric] ru getAcked_def)
  have "(?k - int ((A - 1) mod ring_size u)) mod int (ring_size u) =
      (int j - int (A - 1)) mod int (ring_size u)"
    by (simp add: of_nat_mod mod_diff_eq)
  also have "\<dots> = (int (ring_size u) - int (A - Suc j)) mod int (ring_size u)"
  proof -
    have "int (ring_size u) - int (A - Suc j) = int j - int (A - 1) + int (ring_size u)"
      using j by (simp add: of_nat_diff)
    then show ?thesis by simp
  qed
  also have "\<dots> = int (ring_size u) - int (A - Suc j)"
    using j ru c(2) by (intro mod_pos_pos_trivial) auto
  finally have "acked_count x = acked_count s + (int (ring_size s) - int (A - Suc j))"
    using last rw ru by (simp add: x_def)
  moreover have "base_idx x = int (Suc j mod ring_size s)" by (simp add: x_def weq v_def ru)
  ultimately show ?thesis using res ru by simp
qed

text \<open>How many packets are in flight.\<close>

definition unacked :: "client_sender \<Rightarrow> nat" where
  "unacked s = nat ((next_seq_num_idx s - base_idx s) mod (max_seq_num_b10 s + 1))"

lemma unacked_eq: "sender_rel t0 P C A S s \<Longrightarrow> unacked s = S - A"
  by (simp add: unacked_def unacked_distance)

end
