(* ===== verification/Splitting.thy ===== *)
theory Splitting
  imports ClientSender
begin

section \<open>Splitting chunks in packets\<close>

text \<open>
  \<open>generatePacketsData\<close> computes quotients, offsets and sizes; its result is the list
  of consecutive pieces of the chunk. With the chunks of \<open>DataProcessor\<close> this gives the
  sequence of all packets of a file.
\<close>

lemma piece:
  assumes "0 < (n::nat)" and "i < ceil_div F n" and "F \<le> length raw"
  shows "int i * int n \<le> int F"
    and "(if int i = int F div int n then int F mod int n else int n) = int (min n (F - i * n))"
    and "take n (drop (i * n) (take F raw)) = take (min n (F - i * n)) (drop (i * n) raw)"
proof -
  have le: "i \<le> F div n" using assms(2) by (auto simp: ceil_div_def split: if_splits)
  then have "i * n \<le> F div n * n" by (rule mult_le_mono1)
  also have "\<dots> \<le> F" by simp
  finally have iF: "i * n \<le> F" .
  then show "int i * int n \<le> int F" by (metis of_nat_le_iff of_nat_mult)
  show "(if int i = int F div int n then int F mod int n else int n) = int (min n (F - i * n))"
  proof (cases "i = F div n")
    case True
    then have "F - i * n = F mod n" by (simp add: minus_div_mult_eq_mod)
    moreover have "F mod n < n" using assms(1) by simp
    ultimately show ?thesis using True by (simp add: zmod_int zdiv_int)
  next
    case False
    then have "Suc i \<le> F div n" using le by simp
    then have "Suc i * n \<le> F div n * n" by (rule mult_le_mono1)
    also have "\<dots> \<le> F" by simp
    finally have "n \<le> F - i * n" by simp
    moreover have "int i \<noteq> int F div int n" using False by (simp flip: zdiv_int)
    ultimately show ?thesis by simp
  qed
  show "take n (drop (i * n) (take F raw)) = take (min n (F - i * n)) (drop (i * n) raw)"
    by (simp add: drop_take min.commute)
qed

lemma packets_loop_chunks:
  assumes "0 < (n::nat)" and "F \<le> length raw" and "int F \<le> INT_MAX"
    and "i + m = ceil_div F n"
  shows "packets_loop raw (int n) (int F div int n) (int F mod int n) (int i) m =
    Inr (drop i (chunks n (take F raw)))"
  using assms(4)
proof (induction m arbitrary: i)
  case 0
  then show ?case using assms(1,2) by (simp add: length_chunks min_def)
next
  case (Suc m)
  let ?l = "chunks n (take F raw)"
  have lt: "i < ceil_div F n" using Suc.prems by simp
  note p = piece [OF assms(1) lt assms(2)]
  have len: "i < length ?l" using lt assms(1,2) by (simp add: length_chunks min_def)
  have nth: "?l ! i = take (min n (F - i * n)) (drop (i * n) raw)"
    using nth_chunks [OF assms(1) len] p(3) by simp
  have iF: "i * n \<le> F" using p(1) by (metis of_nat_le_iff of_nat_mult)
  have "0 \<le> int i * int n" by simp
  then have "in_int (int i * int n)" using p(1) assms(3) unfolding int_bounds by linarith
  then have mul: "imul (int i) (int n) = Inr (int (i * n))" by simp
  have bound: "\<not> int (length raw) < int (i * n) + int (min n (F - i * n))"
  proof -
    have "i * n + min n (F - i * n) \<le> length raw" using iF assms(2) by linarith
    then show ?thesis by (simp only: of_nat_add [symmetric] of_nat_less_iff not_less)
  qed
  have rec: "packets_loop raw (int n) (int F div int n) (int F mod int n) (int i + 1) m =
      Inr (drop (Suc i) ?l)"
    using Suc.IH [of "Suc i"] Suc.prems by (simp add: add.commute)
  have "drop i ?l = take (min n (F - i * n)) (drop (i * n) raw) # drop (Suc i) ?l"
    using len nth by (simp add: Cons_nth_drop_Suc [symmetric])
  then show ?case
    using mul bound rec p(2) by (simp del: of_nat_min of_nat_mult)
qed

lemma generatePacketsData_chunks:
  assumes "0 < n" and "F \<le> length raw" and "int F \<le> INT_MAX" and "int n \<le> INT_MAX"
  shows "generatePacketsData (int n) raw (int F) = Inr (chunks n (take F raw))"
proof -
  have F: "in_int (int F)" using assms(3) by (simp add: int_bounds)
  have tot: "int F div int n + (if 0 < int F mod int n then 1 else 0) = int (ceil_div F n)"
    by (auto simp: ceil_div_def simp flip: zdiv_int zmod_int)
  have "ceil_div F n \<le> F"
  proof (cases "F = 0")
    case False
    have "F div n * 1 + F mod n \<le> F div n * n + F mod n" using assms(1) by (intro add_mono mult_le_mono2) auto
    then have "F div n + F mod n \<le> F" by simp
    then show ?thesis by (auto simp: ceil_div_def)
  qed (simp add: ceil_div_def)
  then have "in_int (int (ceil_div F n))" using assms(3) by (auto simp: int_bounds)
  then have "iadd (int F div int n) (if 0 < int F mod int n then 1 else 0) =
      Inr (int (ceil_div F n))"
    using tot by (simp only: iadd_in)
  then show ?thesis
    using assms F packets_loop_chunks [OF assms(1-3), of 0 "ceil_div F n"]
    by (simp add: generatePacketsData_def)
qed

text \<open>The packets of a list of chunks, in the order they are sent.\<close>

definition packets_of :: "int \<Rightarrow> string list \<Rightarrow> string list" where
  "packets_of psize cs = concat (map (chunks (nat psize)) cs)"

lemma packets_of_simps [simp]:
  "packets_of psize [] = []"
  "packets_of psize (c # cs) = chunks (nat psize) c @ packets_of psize cs"
  by (simp_all add: packets_of_def)

lemma concat_packets_of [simp]: "0 < psize \<Longrightarrow> concat (packets_of psize cs) = concat cs"
  by (induction cs) auto

lemma packets_of_pieces:
  "0 < psize \<Longrightarrow> p \<in> set (packets_of psize cs) \<Longrightarrow> p \<noteq> [] \<and> int (length p) \<le> psize"
  by (auto simp: packets_of_def dest: chunks_pieces)

lemma length_packets_of_le:
  assumes "0 < psize"
  shows "length (packets_of psize cs) \<le> length (concat cs)"
proof -
  have "length ps \<le> length (concat ps)" if "\<forall>p \<in> set ps. p \<noteq> []" for ps :: "string list"
    using that
  proof (induction ps)
    case (Cons a ps)
    then have "0 < length a" "length ps \<le> length (concat ps)" by auto
    then show ?case by (cases a) auto
  qed simp
  then show ?thesis
    using packets_of_pieces [OF assms] concat_packets_of [OF assms, of cs] by metis
qed

text \<open>Reading the next chunk and splitting it.\<close>

lemma sendChunk_read_end:
  "dp_wf (dataProcessor s) \<Longrightarrow> dp_left (dataProcessor s) = [] \<Longrightarrow>
     sendChunk_read s = Inr (None, s)"
  using dp.remaining_0_iff [of "dataProcessor s"] by (simp add: sendChunk_read_def)

lemma sendChunk_read_next:
  assumes wf: "dp_wf (dataProcessor s)" and left: "dp_left (dataProcessor s) = c # cs"
    and psize: "0 < packet_size s" "packet_size s \<le> INT_MAX" and len: "int (length c) \<le> INT_MAX"
  shows "\<exists>dp'. sendChunk_read s =
      Inr (Some (chunks (nat (packet_size s)) c), s\<lparr>dataProcessor := dp'\<rparr>) \<and>
    dp_wf dp' \<and> dp_left dp' = cs"
proof -
  obtain buf dp' where r: "readChunk (dataProcessor s) = Inr (Some buf, dp')"
    "getCurrentChunkSize dp' = int (length c)" "take (length c) buf = c" "dp_left dp' = cs" "dp_wf dp'"
    using dp.read_some [OF wf left] by blast
  have "remainingChunks (dataProcessor s) \<noteq> 0"
    using dp.remaining_0_iff [OF wf] left by simp
  moreover have "length c \<le> length buf"
    using r(3) by (metis length_take min.cobounded1)
  then have "generatePacketsData (packet_size s) buf (int (length c)) =
      Inr (chunks (nat (packet_size s)) c)"
    using generatePacketsData_chunks [of "nat (packet_size s)" "length c" buf] psize len r(3) by simp
  ultimately show ?thesis
    using r by (intro exI [of _ dp']) (simp add: sendChunk_read_def)
qed

end
