(* ===== verification/ClientSystem.thy ===== *)
theory ClientSystem
  imports Client GoBackN Splitting
begin

section \<open>The running client\<close>

text \<open>
  The invariant of \<open>client_step\<close>: the sender represents a state \<open>(A, S)\<close> of Go-back-N
  over the packets of the file, and the data not sent yet is what is left in the loop of
  \<open>sendChunk\<close> and in the file.
\<close>

subsection \<open>Configuration and environment\<close>

definition file_packets :: "int \<Rightarrow> string \<Rightarrow> string list" where
  "file_packets psize contents = packets_of psize (chunks (nat CHUNK_SIZE) contents)"

definition good_subject :: "client_subject \<Rightarrow> bool" where
  "good_subject subj \<longleftrightarrow>
     1 \<le> getMax_seq_number subj \<and> getMax_seq_number subj \<le> 9 \<and>
     0 < getWindow_size subj \<and> getWindow_size subj < 10 ^ nat (getMax_seq_number subj) \<and>
     0 < getPacket_size subj \<and> getPacket_size subj + 32 + 9 + 256 \<le> INT_MAX"

text \<open>
  A channel that keeps the order, in front of a receiver that acknowledges what it got:
  what arrives is a plausible acknowledgement, garbage, or, after the end, the empty
  datagram.
\<close>

definition accepts_ack :: "system \<Rightarrow> int \<Rightarrow> bool" where
  "accepts_ack y k \<longleftrightarrow> plausible_ack (clientSender y) k"

definition ordered_net :: "system \<Rightarrow> string \<Rightarrow> bool" where
  "ordered_net y dg \<longleftrightarrow>
     (\<exists>n. receiver_buffer y = Some n \<and>
        harmless accepts_ack (nat (rx_max_seq_number (clientReceiver y))) n y dg) \<and>
     (dg = [] \<longrightarrow> sender_at y = Done)"

subsection \<open>The invariant\<close>

definition loop_data :: "system \<Rightarrow> string list" where
  "loop_data y = (case sender_at y of Sending ds q \<Rightarrow> ds | _ \<Rightarrow> [])"

definition unsent :: "system \<Rightarrow> string list" where
  "unsent y = loop_data y @ packets_of (packet_size (clientSender y)) (dp_left (dataProcessor (clientSender y)))"

fun phase_ok :: "bool option \<Rightarrow> nat \<Rightarrow> nat \<Rightarrow> nat \<Rightarrow> string list \<Rightarrow> sender_pc \<Rightarrow> bool" where
  "phase_ok ret C A S cs Not_started \<longleftrightarrow> C = A \<and> A = S"
| "phase_ok ret C A S cs At_chunk \<longleftrightarrow> C = A \<and> A = S"
| "phase_ok ret C A S cs (Sending ds q) \<longleftrightarrow> S + length ds = C + q"
| "phase_ok ret C A S cs (Wait_acks q) \<longleftrightarrow> S = C + q"
| "phase_ok ret C A S cs Done \<longleftrightarrow> A = S \<and> (ret = Some True \<longrightarrow> cs = [])"

definition source_ok :: "client_sender \<Rightarrow> bool" where
  "source_ok s \<longleftrightarrow> dp_wf (dataProcessor s) \<and> 0 < packet_size s \<and> packet_size s \<le> INT_MAX"

definition receiver_ok :: "system \<Rightarrow> bool" where
  "receiver_ok y \<longleftrightarrow>
     rx_max_seq_number (clientReceiver y) = max_seq_number (clientSender y) \<and>
     (\<exists>n. rx_buffer_size (clientReceiver y) = Inr n \<and> digits (clientSender y) + 32 < n) \<and>
     (\<forall>n. receiver_buffer y = Some n \<longrightarrow> digits (clientSender y) + 32 < n) \<and>
     (sender_at y = Not_started \<longrightarrow> receiver_buffer y = None) \<and>
     (receiver_buffer y = None \<longrightarrow> sender_at y \<in> {Not_started, Done})"

definition system_rel ::
    "bool option \<Rightarrow> int \<Rightarrow> string list \<Rightarrow> nat \<Rightarrow> nat \<Rightarrow> nat \<Rightarrow> system \<Rightarrow> bool" where
  "system_rel ret t0 P C A S y \<longleftrightarrow>
     sender_rel t0 P C A S (clientSender y) \<and> source_ok (clientSender y) \<and> receiver_ok y \<and>
     (finished_sending_data (clientSender y) \<longleftrightarrow> sender_at y = Done) \<and>
     drop S P = unsent y \<and>
     phase_ok ret C A S (dp_left (dataProcessor (clientSender y))) (sender_at y)"

text \<open>The configuration the run was started with.\<close>

definition configured :: "client_subject \<Rightarrow> system \<Rightarrow> bool" where
  "configured subj y \<longleftrightarrow>
     packet_size (clientSender y) = getPacket_size subj \<and>
     window_size (clientSender y) = getWindow_size subj \<and>
     max_seq_number (clientSender y) = getMax_seq_number subj"

definition system_inv ::
    "bool option \<Rightarrow> int \<Rightarrow> client_subject \<Rightarrow> string \<Rightarrow> system res \<Rightarrow> bool" where
  "system_inv ret t0 subj contents x \<longleftrightarrow>
     (\<exists>y C A S. x = Inr y \<and> configured subj y \<and>
        system_rel ret t0 (file_packets (getPacket_size subj) contents) C A S y)"

text \<open>One step of the client, as a step of Go-back-N or none.\<close>

definition gbn_move :: "nat \<Rightarrow> nat \<Rightarrow> nat \<times> nat \<Rightarrow> nat \<times> nat \<Rightarrow> bool" where
  "gbn_move w T a b \<longleftrightarrow> a = b \<or> gbn_step w T a b"

definition good_step ::
    "bool option \<Rightarrow> int \<Rightarrow> string list \<Rightarrow> nat \<Rightarrow> nat \<Rightarrow> system \<Rightarrow> system res \<Rightarrow> bool" where
  "good_step ret t0 P A S y r \<longleftrightarrow>
     (\<exists>y' C' A' S'. r = Inr y' \<and> system_rel ret t0 P C' A' S' y' \<and>
        fst (conf (clientSender y')) = fst (conf (clientSender y)) \<and>
        wire_grows P A S' (clientSender y) (clientSender y') \<and>
        gbn_move (nat (window_size (clientSender y))) (length P) (A, S) (A', S'))"

text \<open>A step of any thread but the receiver's leaves the acknowledged packets as they are.\<close>

definition own_step ::
    "bool option \<Rightarrow> int \<Rightarrow> string list \<Rightarrow> nat \<Rightarrow> nat \<Rightarrow> system \<Rightarrow> system res \<Rightarrow> bool" where
  "own_step ret t0 P A S y r \<longleftrightarrow>
     (\<exists>y' C' S'. r = Inr y' \<and> system_rel ret t0 P C' A S' y' \<and>
        fst (conf (clientSender y')) = fst (conf (clientSender y)) \<and>
        wire_grows P A S' (clientSender y) (clientSender y') \<and>
        gbn_move (nat (window_size (clientSender y))) (length P) (A, S) (A, S'))"

lemma own_stepI:
  "system_rel ret t0 P C' A S' y' \<Longrightarrow> r = Inr y' \<Longrightarrow>
   fst (conf (clientSender y')) = fst (conf (clientSender y)) \<Longrightarrow>
   wire_grows P A S' (clientSender y) (clientSender y') \<Longrightarrow>
   S' = S \<or> gbn_step (nat (window_size (clientSender y))) (length P) (A, S) (A, S') \<Longrightarrow>
   own_step ret t0 P A S y r"
  unfolding own_step_def gbn_move_def by blast

lemma own_step_good: "own_step ret t0 P A S y r \<Longrightarrow> good_step ret t0 P A S y r"
  unfolding own_step_def good_step_def by blast

subsection \<open>Replacing the sender\<close>

lemma conf_eq_fields:
  assumes "conf s = conf s'"
  shows "packet_size s = packet_size s'" and "dataProcessor s = dataProcessor s'"
    and "max_seq_number s = max_seq_number s'" and "digits s = digits s'"
    and "finished_sending_data s = finished_sending_data s'" and "source_ok s = source_ok s'"
  using assms by (simp_all add: conf_def digits_def source_ok_def)

lemma phase_ok_acked:
  "phase_ok ret C A S ch pc \<Longrightarrow> A \<le> A' \<Longrightarrow> A' \<le> S \<Longrightarrow> phase_ok ret C A' S ch pc"
  by (cases pc) auto

lemma system_rel_sender:
  assumes rel: "system_rel ret t0 P C A S y" and s': "conf s' = conf (clientSender y)"
    and rel': "sender_rel t0 P C A' S s'" and A: "A \<le> A'"
  shows "system_rel ret t0 P C A' S (y\<lparr>clientSender := s'\<rparr>)"
proof -
  note eq = conf_eq_fields [OF s']
  have "A' \<le> S" using rel' by (simp add: sender_rel_def counters_rel_def)
  with A rel have "phase_ok ret C A' S (dp_left (dataProcessor (clientSender y))) (sender_at y)"
    by (auto simp: system_rel_def intro: phase_ok_acked)
  moreover have "receiver_ok (y\<lparr>clientSender := s'\<rparr>) = receiver_ok y"
    "unsent (y\<lparr>clientSender := s'\<rparr>) = unsent y"
    by (simp_all add: receiver_ok_def unsent_def loop_data_def eq)
  ultimately show ?thesis using rel rel' by (simp add: system_rel_def eq)
qed

lemma own_step_sender:
  assumes "system_rel ret t0 P C A S y" and "conf s' = conf (clientSender y)"
    and "sender_rel t0 P C A S s'" and "wire_grows P A S (clientSender y) s'"
  shows "own_step ret t0 P A S y (Inr (y\<lparr>clientSender := s'\<rparr>))"
  using assms(2,4) by (intro own_stepI [OF system_rel_sender [OF assms(1-3)]]) auto

subsection \<open>The steps\<close>

lemma start_own:
  assumes rel: "system_rel ret t0 P C A S y" and pc: "sender_at y = Not_started"
  shows "own_step ret t0 P A S y (client_start y)"
proof -
  obtain n where n: "rx_buffer_size (clientReceiver y) = Inr n" "digits (clientSender y) + 32 < n"
    using rel by (auto simp: system_rel_def receiver_ok_def)
  have "system_rel ret t0 P C A S (y\<lparr>receiver_buffer := Some n, sender_at := At_chunk\<rparr>)"
    using rel pc n by (auto simp: system_rel_def receiver_ok_def unsent_def loop_data_def)
  from own_stepI [OF this] show ?thesis
    using n by (simp add: client_start_def wire_grows_same)
qed

lemma finish_rel:
  assumes rel: "system_rel ret t0 P C A S y" and AS: "A = S"
    and pc: "sender_at y \<noteq> Not_started" "loop_data y = []"
    and last: "ret = Some True \<longrightarrow> dp_left (dataProcessor (clientSender y)) = []"
  shows "system_rel ret t0 P C A S (finish_sending y)"
proof -
  let ?s = "clientSender y"
  have c: "conf (threadFun_end ?s) = (fst (conf ?s), dataProcessor ?s, True)" by simp
  then have eq: "dataProcessor (threadFun_end ?s) = dataProcessor ?s"
    "finished_sending_data (threadFun_end ?s)" "packet_size (threadFun_end ?s) = packet_size ?s"
    "max_seq_number (threadFun_end ?s) = max_seq_number ?s"
    by (simp_all add: conf_def)
  have "sender_rel t0 P C A S (threadFun_end ?s)"
    using rel by (auto simp: system_rel_def intro: sender_rel_threadFun_end)
  then show ?thesis
    using rel AS pc last
    by (simp add: system_rel_def finish_sending_def source_ok_def receiver_ok_def unsent_def
        loop_data_def eq digits_def)
qed

lemma sender_chunk_end:
  assumes "source_ok (clientSender y)" and "dp_left (dataProcessor (clientSender y)) = []"
  shows "sender_chunk y = Inr (finish_sending y)"
  using assms sendChunk_read_end [of "clientSender y"] by (simp add: sender_chunk_def source_ok_def)

lemma sender_chunk_next:
  assumes src: "source_ok (clientSender y)"
    and left: "dp_left (dataProcessor (clientSender y)) = c # cs"
  shows "\<exists>dp'. sender_chunk y =
      Inr (y\<lparr>clientSender := (clientSender y)\<lparr>dataProcessor := dp'\<rparr>,
             sender_at := Sending (chunks (nat (packet_size (clientSender y))) c)
               (length (chunks (nat (packet_size (clientSender y))) c))\<rparr>) \<and>
    dp_wf dp' \<and> dp_left dp' = cs"
proof -
  let ?s = "clientSender y"
  have wf: "dp_wf (dataProcessor ?s)" and psize: "0 < packet_size ?s" "packet_size ?s \<le> INT_MAX"
    using src by (auto simp: source_ok_def)
  have "length c \<le> length (file_rest (dataProcessor ?s))"
    using dp_left_Cons_size(3) [OF wf left] by (metis length_take min.cobounded1)
  moreover have "int (length (file_rest (dataProcessor ?s))) \<le> INT_MAX"
    using wf by (auto simp: dp_wf_def in_int_def intro: order_trans [rotated])
  ultimately have len: "int (length c) \<le> INT_MAX" by linarith
  obtain dp' where "sendChunk_read ?s =
      Inr (Some (chunks (nat (packet_size ?s)) c), ?s\<lparr>dataProcessor := dp'\<rparr>)"
    and "dp_wf dp'" "dp_left dp' = cs"
    using sendChunk_read_next [OF wf left psize len] by blast
  then show ?thesis by (intro exI [of _ dp']) (simp add: sender_chunk_def)
qed

lemma chunk_own:
  assumes rel: "system_rel ret t0 P C A S y" and pc: "sender_at y = At_chunk"
  shows "own_step ret t0 P A S y (sender_chunk y)"
proof -
  let ?s = "clientSender y"
  have src: "source_ok ?s" and CAS: "C = A" "A = S"
    and uns: "drop S P = packets_of (packet_size ?s) (dp_left (dataProcessor ?s))"
    using rel pc by (auto simp: system_rel_def unsent_def loop_data_def)
  show ?thesis
  proof (cases "dp_left (dataProcessor ?s)")
    case Nil
    have "system_rel ret t0 P C A S (finish_sending y)"
      using finish_rel [OF rel CAS(2)] pc Nil by (simp add: loop_data_def)
    from own_stepI [OF this] have "own_step ret t0 P A S y (Inr (finish_sending y))"
      by (simp add: finish_sending_def wire_grows_end)
    then show ?thesis using sender_chunk_end [OF src Nil] by simp
  next
    case (Cons c cs)
    let ?ds = "chunks (nat (packet_size ?s)) c"
    obtain dp' where r: "sender_chunk y =
        Inr (y\<lparr>clientSender := ?s\<lparr>dataProcessor := dp'\<rparr>, sender_at := Sending ?ds (length ?ds)\<rparr>)"
        (is "_ = Inr ?y")
      and dp': "dp_wf dp'" "dp_left dp' = cs"
      using sender_chunk_next [OF src Cons] by blast
    have "system_rel ret t0 P C A S ?y"
      using rel pc dp' Cons uns CAS
      by (simp add: system_rel_def source_ok_def receiver_ok_def unsent_def loop_data_def digits_def)
    from own_stepI [OF this] have "own_step ret t0 P A S y (Inr ?y)"
      by (simp add: conf_def wire_grows_same)
    then show ?thesis using r by simp
  qed
qed

lemma sender_send_rel:
  assumes rel: "system_rel ret t0 P C A S y" and pc: "sender_at y = Sending (d # ds) q"
    and adv: "canAdvance (clientSender y) = Inr True"
  shows "\<exists>s'. sender_send d ds q y = Inr (y\<lparr>clientSender := s', sender_at := Sending ds q\<rparr>) \<and>
    system_rel ret t0 P C A (Suc S) (y\<lparr>clientSender := s', sender_at := Sending ds q\<rparr>) \<and>
    conf s' = conf (clientSender y) \<and> wire_grows P A (Suc S) (clientSender y) s' \<and>
    gbn_step (nat (window_size (clientSender y))) (length P) (A, S) (A, Suc S)"
proof -
  let ?s = "clientSender y" and ?w = "nat (window_size (clientSender y))"
  have srel: "sender_rel t0 P C A S ?s" using rel by (simp add: system_rel_def)
  have room: "S < A + ?w" using canAdvance_window [OF srel] adv by simp
  have uns: "drop S P = d # unsent (y\<lparr>sender_at := Sending ds q\<rparr>)"
    using rel pc by (simp add: system_rel_def unsent_def loop_data_def)
  then have more: "S < length P" by (metis drop_eq_Nil linorder_not_less list.distinct(1))
  then have d: "P ! S = d" and rest: "drop (Suc S) P = unsent (y\<lparr>sender_at := Sending ds q\<rparr>)"
    using uns by (simp_all add: Cons_nth_drop_Suc [symmetric])
  obtain s' where s': "sendPacketReliable d ?s = Inr s'" "sender_rel t0 P C A (Suc S) s'"
    "conf s' = conf ?s" "wire s' = wire ?s @ [packet_datagram ?s P S]"
    using sendPacketReliable_rel [OF srel room more] d by auto
  have "A \<le> S" using srel by (simp add: sender_rel_def counters_rel_def)
  then have "wire_grows P A (Suc S) ?s s'" using s'(4) conf_finished [OF s'(3)]
    by (intro wire_grows_packet)
  note eq = conf_eq_fields [OF s'(3)]
  have "system_rel ret t0 P C A (Suc S) (y\<lparr>clientSender := s', sender_at := Sending ds q\<rparr>)"
    using rel pc s'(2) rest eq by (simp add: system_rel_def receiver_ok_def unsent_def loop_data_def)
  with \<open>wire_grows P A (Suc S) ?s s'\<close> show ?thesis
    using s'(1,3) gbn_send [OF room more] by (auto simp: sender_send_def)
qed

lemma send_own:
  assumes rel: "system_rel ret t0 P C A S y" and pc: "sender_at y = Sending (d # ds) q"
    and adv: "canAdvance (clientSender y) = Inr True"
  shows "own_step ret t0 P A S y (sender_send d ds q y)"
  using sender_send_rel [OF assms] own_stepI by fastforce

lemma sent_own:
  assumes rel: "system_rel ret t0 P C A S y" and pc: "sender_at y = Sending [] q"
  shows "own_step ret t0 P A S y (Inr (y\<lparr>sender_at := Wait_acks q\<rparr>))"
  using assms
  by (intro own_stepI [of _ _ _ C A S "y\<lparr>sender_at := Wait_acks q\<rparr>"])
     (auto simp: system_rel_def receiver_ok_def unsent_def loop_data_def wire_grows_same)

lemma acked_own:
  assumes rel: "system_rel ret t0 P C A S y" and pc: "sender_at y = Wait_acks q"
    and acked: "chunk_acked q (clientSender y)" and ret: "ret \<noteq> None"
  shows "own_step ret t0 P A S y (sendChunk_end ret y)"
proof -
  let ?s = "clientSender y" and ?u = "close_chunk (clientSender y)"
  have srel: "sender_rel t0 P C A S ?s" and S: "S = C + q"
    using rel pc by (auto simp: system_rel_def)
  have cnt: "C \<le> A" "A \<le> S" "acked_count ?s = int A - int C" "S \<le> length P"
    "int (length P) \<le> INT_MAX"
    using srel by (auto simp: sender_rel_def counters_rel_def)
  have "0 \<le> acked_count ?s" "acked_count ?s \<le> INT_MAX" using cnt by linarith+
  then have "to_size_t (acked_count ?s) = nat (acked_count ?s)"
    by (intro to_size_t_nonneg) (simp_all add: int_bounds)
  then have AS: "A = S" using acked cnt S by (simp add: chunk_acked_def getAckedPacketsCount_def)
  have u: "sender_rel t0 P A A S ?u" by (rule sender_rel_close_chunk [OF srel])
  have c: "conf ?u = conf ?s" by simp
  note eq = conf_eq_fields [OF c]
  let ?y = "y\<lparr>clientSender := ?u, sender_at := At_chunk\<rparr>"
  have "drop S P = unsent ?y" "receiver_ok ?y" "source_ok ?u" "\<not> finished_sending_data ?u"
    using rel pc by (auto simp: system_rel_def receiver_ok_def unsent_def loop_data_def eq)
  then have at: "system_rel r t0 P A A S ?y" for r
    using u AS by (simp add: system_rel_def)
  show ?thesis
  proof (cases "ret = Some True")
    case True
    with c show ?thesis by (intro own_stepI [OF at]) (auto simp: sendChunk_end_def wire_grows_same)
  next
    case False
    then have r: "ret = Some False" using ret by auto
    have "system_rel ret t0 P A A S (finish_sending ?y)"
      using finish_rel [OF at AS] r by (simp add: loop_data_def)
    moreover have "sendChunk_end ret y = Inr (finish_sending ?y)"
      using r by (simp add: sendChunk_end_def finish_sending_def)
    ultimately show ?thesis
      using c own_stepI [of ret t0 P A A S "finish_sending ?y" _ y S]
      by (simp add: finish_sending_def wire_grows_end)
  qed
qed

text \<open>The clock and the timers only replace the sender by one that represents the same state.\<close>

definition background ::
    "int \<Rightarrow> string list \<Rightarrow> nat \<Rightarrow> nat \<Rightarrow> nat \<Rightarrow> system \<Rightarrow> system res \<Rightarrow> bool" where
  "background t0 P C A S y r \<longleftrightarrow>
     (\<exists>s'. r = Inr (y\<lparr>clientSender := s'\<rparr>) \<and> sender_rel t0 P C A S s' \<and> conf s' = conf (clientSender y) \<and>
        wire_grows P A S (clientSender y) s')"

lemma background_own: "system_rel ret t0 P C A S y \<Longrightarrow> background t0 P C A S y r \<Longrightarrow> own_step ret t0 P A S y r"
  unfolding background_def by (auto intro: own_step_sender)

lemma background_rel:
  assumes "system_rel ret t0 P C A S y" and "background t0 P C A S y r"
  shows "\<exists>z. r = Inr z \<and> system_rel ret t0 P C A S z \<and> sender_at z = sender_at y"
  using assms(2) system_rel_sender [OF assms(1)] unfolding background_def by fastforce

lemma tick_background:
  assumes rel: "system_rel ret t0 P C A S y" and n: "now (clientSender y) \<le> n" "n \<le> t0 + INT_MAX"
  shows "background t0 P C A S y (Inr (y\<lparr>clientSender := (clientSender y)\<lparr>now := n\<rparr>\<rparr>))"
  using rel n sender_rel_tick [of t0 P C A S "clientSender y" n] unfolding background_def
  by (intro exI [of _ "(clientSender y)\<lparr>now := n\<rparr>"]) (simp add: system_rel_def wire_grows_same)

lemma thread_wait_started: "thread_wait n t = Some t' \<Longrightarrow> started t' = started t"
  by (auto simp: thread_wait_def split: if_splits)

lemma sender_rel_put_timer:
  "sender_rel t0 P C A S s \<Longrightarrow> i < length (timers s) \<Longrightarrow> started t = started (timers s ! i) \<Longrightarrow>
     sender_rel t0 P C A S (put_timer i t s)"
  unfolding put_timer_def
  by (rule sender_rel_timer_update) (simp_all add: sender_rel_def timers_ok_def)

lemma timer_background:
  assumes rel: "system_rel ret t0 P C A S y" and i: "i < length (timers (clientSender y))"
    and t: "thread_wait (now (clientSender y)) (timers (clientSender y) ! i) = Some t"
  shows "background t0 P C A S y (Inr (y\<lparr>clientSender := put_timer i t (clientSender y)\<rparr>))"
proof -
  have "sender_rel t0 P C A S (put_timer i t (clientSender y))"
    using rel i thread_wait_started [OF t] by (intro sender_rel_put_timer) (simp_all add: system_rel_def)
  then show ?thesis unfolding background_def
    by (intro exI [of _ "put_timer i t (clientSender y)"]) (simp add: put_timer_def wire_grows_same)
qed

lemma fire_background:
  assumes rel: "system_rel ret t0 P C A S y" and r: "timer_fires i y = Some r"
  shows "background t0 P C A S y r"
proof -
  let ?s = "clientSender y"
  have srel: "sender_rel t0 P C A S ?s" using rel by (simp add: system_rel_def)
  obtain s' where s': "timeoutHandler ?s = Some (Inr s')" "sender_rel t0 P C A S s'" "conf s' = conf ?s"
    "wire_grows P A S ?s s'"
  proof (cases "finished_sending_data ?s")
    case True
    then have "timeoutHandler ?s = Some (Inr ?s)" by (simp add: timeoutHandler_def)
    then show ?thesis
      by (rule that [OF _ srel refl]) (simp add: wire_grows_same)
  next
    case False
    then obtain s' where "timeoutHandler ?s = Some (Inr s')" "sender_rel t0 P C A S s'"
      "wire s' = wire ?s @ map (packet_datagram ?s P) [A..<S]" and c: "conf s' = conf ?s"
      using timeoutHandler_rel [OF srel] by blast
    then show ?thesis
      by (intro that [OF _ _ c] wire_grows_packets conf_finished [OF c])
  qed
  let ?s2 = "put_timer i (thread_exit (timers s' ! i)) s'"
  have "sender_rel t0 P C A S ?s2"
  proof (cases "i < length (timers s')")
    case True
    with s'(2) show ?thesis by (intro sender_rel_put_timer) (simp_all add: thread_exit_def)
  next
    case False
    with s'(2) show ?thesis by (simp add: put_timer_def list_update_beyond)
  qed
  moreover have "conf ?s2 = conf ?s" "wire_grows P A S ?s ?s2"
    using s'(3,4) by (simp_all add: put_timer_def wire_grows_def)
  moreover have "r = Inr (y\<lparr>clientSender := ?s2\<rparr>)" using r s'(1) by (auto simp: timer_fires_def)
  ultimately show ?thesis unfolding background_def by blast
qed

subsection \<open>The receiver's step\<close>

text \<open>The states an acknowledgement can lead to from \<open>(A, S)\<close>.\<close>

definition ack_inv ::
    "bool option \<Rightarrow> int \<Rightarrow> string list \<Rightarrow> nat \<Rightarrow> nat \<Rightarrow> nat \<Rightarrow> system \<Rightarrow> system \<Rightarrow> bool" where
  "ack_inv ret t0 P C A S y z \<longleftrightarrow>
     conf (clientSender z) = conf (clientSender y) \<and>
     (\<forall>A'. wire_grows P A' S (clientSender y) (clientSender z)) \<and>
     (\<exists>A'. A \<le> A' \<and> A' \<le> S \<and> system_rel ret t0 P C A' S z)"

lemma client_ackedPacket_ok:
  assumes "ack_inv ret t0 P C A S y z" and "accepts_ack z k"
  shows "\<exists>z'. client_ackedPacket k z = Inr z' \<and> ack_inv ret t0 P C A S y z'"
proof -
  obtain A1 where A1: "A \<le> A1" "system_rel ret t0 P C A1 S z"
    and c: "conf (clientSender z) = conf (clientSender y)"
    and w: "\<And>A'. wire_grows P A' S (clientSender y) (clientSender z)"
    using assms(1) by (auto simp: ack_inv_def)
  then have srel: "sender_rel t0 P C A1 S (clientSender z)" by (simp add: system_rel_def)
  obtain A2 s' where s': "ackedPacket k (clientSender z) = Inr s'" "sender_rel t0 P C A2 S s'"
    "conf s' = conf (clientSender z)" "A1 \<le> A2" "A2 \<le> S"
    "\<And>A'. wire_grows P A' S (clientSender z) s'"
    using plausible_ack_rel [OF srel] assms(2) unfolding accepts_ack_def by blast
  then have "ack_inv ret t0 P C A S y (z\<lparr>clientSender := s'\<rparr>)"
    using system_rel_sender [OF A1(2) s'(3,2,4)] A1(1) c
      wire_grows_trans [OF _ w s'(6)]
    by (auto simp: ack_inv_def intro!: exI [of _ A2])
  with s'(1) show ?thesis by (simp add: client_ackedPacket_def)
qed

interpretation sink: ack_sink client_ackedPacket "ack_inv ret t0 P C A S y" accepts_ack
  for ret t0 P C A S y
  by unfold_locales (rule client_ackedPacket_ok)

lemma receive_good:
  assumes rel: "system_rel ret t0 P C A S y" and n: "receiver_buffer y = Some n"
    and net: "ordered_net y dg"
  shows "good_step ret t0 P A S y (receiver_round n dg y)"
proof -
  have d: "rx_max_seq_number (clientReceiver y) = int (digits (clientSender y))"
    and buf: "digits (clientSender y) + 32 < n" and AS: "A \<le> S"
    using rel n cfg_ring(8) [of "clientSender y"]
    by (auto simp: system_rel_def receiver_ok_def sender_rel_def counters_rel_def)
  have inv: "ack_inv ret t0 P C A S y y"
    using rel AS by (auto simp: ack_inv_def wire_grows_same)
  have harm: "harmless accepts_ack (digits (clientSender y)) n y dg"
    using net n d by (auto simp: ordered_net_def)
  obtain z where z: "receive_datagram client_ackedPacket (clientReceiver y) n dg y = Inr (dg \<noteq> [], z)"
    "ack_inv ret t0 P C A S y z"
    using sink.receive_harmless [OF inv harm d buf] by blast
  define z' where "z' = (if dg \<noteq> [] then z else z\<lparr>receiver_buffer := None\<rparr>)"
  obtain A' where A': "A \<le> A'" "A' \<le> S" "system_rel ret t0 P C A' S z"
    and c: "conf (clientSender z) = conf (clientSender y)"
    and w: "wire_grows P A S (clientSender y) (clientSender z)"
    using z(2) by (auto simp: ack_inv_def)
  have "dg = [] \<Longrightarrow> z = y" using z(1) by simp
  then have "system_rel ret t0 P C A' S z'"
    using A'(3) net
    by (auto simp: z'_def ordered_net_def system_rel_def receiver_ok_def unsent_def loop_data_def)
  moreover have "receiver_round n dg y = Inr z'" using z(1) by (simp add: receiver_round_def z'_def)
  moreover have "fst (conf (clientSender z')) = fst (conf (clientSender y))"
    using c by (simp add: z'_def)
  moreover have "wire_grows P A S (clientSender y) (clientSender z')"
    using w by (simp add: z'_def)
  moreover have "(A, S) = (A', S) \<or>
      gbn_step (nat (window_size (clientSender y))) (length P) (A, S) (A', S)"
    using A'(1,2) by (cases A') (auto simp: gbn_step_simps le_Suc_eq)
  ultimately show ?thesis unfolding good_step_def gbn_move_def by blast
qed

subsection \<open>Invariance and refinement\<close>

lemma client_step_cases:
  assumes rel: "system_rel ret t0 P C A S y" and ret: "ret \<noteq> None"
    and stp: "client_step ret net (t0 + INT_MAX) (Inr y) r"
  shows "own_step ret t0 P A S y r \<or>
    (\<exists>n dg. receiver_buffer y = Some n \<and> net y dg \<and> r = receiver_round n dg y)"
  using stp
proof (rule client_stepE)
  fix d ds q e assume "canAdvance (clientSender y) = Inl e"
  then show ?thesis
    using rel canAdvance_window [of t0 P C A S "clientSender y"] by (simp add: system_rel_def)
qed (auto intro: start_own [OF rel] chunk_own [OF rel] send_own [OF rel] sent_own [OF rel]
      acked_own [OF rel _ _ ret] background_own [OF rel] timer_background [OF rel] fire_background [OF rel] tick_background [OF rel])

lemma client_step_good:
  assumes "system_rel ret t0 P C A S y" and "ret \<noteq> None"
    and "client_step ret ordered_net (t0 + INT_MAX) (Inr y) r"
  shows "good_step ret t0 P A S y r"
  using client_step_cases [OF assms] own_step_good receive_good [OF assms(1)] by blast

definition initial ::
    "file_system \<Rightarrow> int \<Rightarrow> client_subject \<Rightarrow> system res \<Rightarrow> bool" where
  "initial fs t0 subj x \<longleftrightarrow>
     x = rbind (new_Client fs t0 (getServer_host subj) (getFilename subj) (getWindow_size subj)
           (getPacket_size subj) (getMax_seq_number subj) (getServer_port subj)
           (getClient_port subj)) (\<lambda>c. Inr (system_of c))"

text \<open>A file the client can open, of less than 2 GiB.\<close>

definition readable :: "file_system \<Rightarrow> client_subject \<Rightarrow> string \<Rightarrow> bool" where
  "readable fs subj contents \<longleftrightarrow>
     fs (getFilename subj) = Some contents \<and> int (length contents) < INT_MAX"

lemma good_subject_ints:
  assumes "good_subject subj"
  shows "pow10_minus_1 (getMax_seq_number subj) = Inr (10 ^ nat (getMax_seq_number subj) - 1)"
    and "iadd (10 ^ nat (getMax_seq_number subj) - 1) 1 = Inr (10 ^ nat (getMax_seq_number subj))"
    and "iadd (getPacket_size subj) 32 = Inr (getPacket_size subj + 32)"
    and "iadd (getPacket_size subj + 32) (getMax_seq_number subj) =
      Inr (getPacket_size subj + 32 + getMax_seq_number subj)"
    and "iadd (getPacket_size subj + 32 + getMax_seq_number subj) 256 =
      Inr (getPacket_size subj + 32 + getMax_seq_number subj + 256)"
    and "iadd (getPacket_size subj) 1 = Inr (getPacket_size subj + 1)"
    and "iadd (getPacket_size subj + 1) 32 = Inr (getPacket_size subj + 33)"
    and "iadd (getPacket_size subj + 33) (getMax_seq_number subj) =
      Inr (getPacket_size subj + 33 + getMax_seq_number subj)"
proof -
  have m: "1 \<le> getMax_seq_number subj" "getMax_seq_number subj \<le> 9" "0 < getPacket_size subj"
    "getPacket_size subj + 32 + 9 + 256 \<le> INT_MAX"
    using assms by (auto simp: good_subject_def)
  show "pow10_minus_1 (getMax_seq_number subj) = Inr (10 ^ nat (getMax_seq_number subj) - 1)"
    using m by (simp add: pow10_minus_1_def)
  have "(10::int) ^ nat (getMax_seq_number subj) \<le> 10 ^ 9"
    using m by (intro power_increasing) auto
  then have "(10::int) ^ nat (getMax_seq_number subj) \<le> 1000000000" by simp
  moreover have "(0::int) < 10 ^ nat (getMax_seq_number subj)" by simp
  ultimately have "in_int ((10::int) ^ nat (getMax_seq_number subj))"
    unfolding int_bounds by linarith
  then show "iadd (10 ^ nat (getMax_seq_number subj) - 1) 1 =
      Inr (10 ^ nat (getMax_seq_number subj))" by simp
qed (use assms in \<open>simp_all add: good_subject_def int_bounds iadd_def ret_int_def\<close>)

text \<open>The constructors of both halves succeed and represent \<open>(0, 0)\<close>.\<close>

lemma new_ClientSender_rel:
  assumes good: "good_subject subj" and cont: "readable fs subj contents"
    and P: "P = file_packets (getPacket_size subj) contents"
  shows "\<exists>s. new_ClientSender fs t0 CHUNK_SIZE subj = Inr s \<and> sender_rel t0 P 0 0 0 s \<and>
    source_ok s \<and> \<not> finished_sending_data s \<and>
    P = packets_of (packet_size s) (dp_left (dataProcessor s)) \<and>
    packet_size s = getPacket_size subj \<and> window_size s = getWindow_size subj \<and>
    max_seq_number s = getMax_seq_number subj"
proof -
  obtain dp where dp: "new_DataProcessor fs (getFilename subj) CHUNK_SIZE = Inr dp" "dp_wf dp"
    "dp_left dp = chunks (nat CHUNK_SIZE) contents"
    using new_DataProcessor_wf [of fs "getFilename subj" contents CHUNK_SIZE] cont
    by (auto simp: readable_def CHUNK_SIZE_def INT_MAX_def)
  have psize: "0 < getPacket_size subj" "getPacket_size subj \<le> INT_MAX"
    using good by (auto simp: good_subject_def)
  have "concat (chunks (nat CHUNK_SIZE) contents) = contents" by (simp add: CHUNK_SIZE_def)
  then have len: "int (length P) \<le> INT_MAX"
    using length_packets_of_le [OF psize(1), of "chunks (nat CHUNK_SIZE) contents"] cont
    by (simp add: P file_packets_def readable_def)
  obtain s where s: "new_ClientSender fs t0 CHUNK_SIZE subj = Inr s"
    and fields: "dataProcessor s = dp" "base_idx s = 0" "next_seq_num_idx s = 0"
      "acked_count s = 0" "window_size s = getWindow_size subj" "packet_size s = getPacket_size subj"
      "max_seq_number s = getMax_seq_number subj"
      "max_seq_num_b10 s = 10 ^ nat (getMax_seq_number subj) - 1" "last_acked_packet s = -1"
      "\<not> finished_sending_data s"
      "window_map s = replicate (nat (10 ^ nat (getMax_seq_number subj))) None"
      "estimated_rtt s = 1000" "timeoutTimer s = None" "olderTimers s = []" "timers s = []"
      "wire s = []" "now s = t0"
    using dp(1) good_subject_ints [OF good]
    by (simp add: new_ClientSender_def TIMEOUT_MILLISECONDS_WAIT_def)
  have cfg: "sender_cfg s"
    using good by (simp add: sender_cfg_def fields good_subject_def digits_def ring_size_def)
  moreover have "counters_rel 0 0 0 s" by (simp add: counters_rel_def fields)
  moreover have "window_rel P 0 0 s" by (simp add: window_rel_def)
  moreover have "slots_ok t0 s" by (simp add: slots_ok_def fields ring_size_def)
  moreover have "timers_ok s" by (simp add: timers_ok_def fields)
  moreover have "clock_ok t0 s" by (simp add: clock_ok_def fields INT_MAX_def)
  ultimately have "sender_rel t0 P 0 0 0 s"
    using len by (simp add: sender_rel_def fields log_start)
  moreover have "source_ok s" using dp(2) psize by (simp add: source_ok_def fields)
  ultimately show ?thesis
    using s dp(3) fields by (auto simp: P file_packets_def)
qed

lemma initial_rel:
  assumes good: "good_subject subj" and cont: "readable fs subj contents"
    and init: "initial fs t0 subj x"
  shows "\<exists>y. x = Inr y \<and> configured subj y \<and> sender_at y = Not_started \<and>
    system_rel ret t0 (file_packets (getPacket_size subj) contents) 0 0 0 y"
proof -
  define P where "P = file_packets (getPacket_size subj) contents"
  obtain s where s: "new_ClientSender fs t0 CHUNK_SIZE subj = Inr s" "sender_rel t0 P 0 0 0 s"
    "source_ok s" "\<not> finished_sending_data s"
    "P = packets_of (packet_size s) (dp_left (dataProcessor s))"
    and fields: "packet_size s = getPacket_size subj" "window_size s = getWindow_size subj"
    "max_seq_number s = getMax_seq_number subj"
    using new_ClientSender_rel [OF good cont P_def] by blast
  note ints = good_subject_ints [OF good]
  have m: "1 \<le> getMax_seq_number subj" "0 < getPacket_size subj"
    using good by (auto simp: good_subject_def)
  have subj: "\<lparr>getWindow_size = getWindow_size subj, getPacket_size = getPacket_size subj,
      getMax_seq_number = getMax_seq_number subj, getServer_port = getServer_port subj,
      getServer_host = getServer_host subj, getClient_port = getClient_port subj,
      getFilename = getFilename subj\<rparr> = subj" by simp
  obtain r where r: "new_ClientReceiver subj = Inr r" "rx_max_seq_number r = getMax_seq_number subj"
    "rx_packet_size r = getPacket_size subj"
    using ints(1) by (simp add: new_ClientReceiver_def)
  have buf: "rx_buffer_size r = Inr (nat (getPacket_size subj + 33 + getMax_seq_number subj))"
    using r ints m by (simp add: rx_buffer_size_def)
  define y where "y = system_of \<lparr>subject = subj, clientSender = s, clientReceiver = r\<rparr>"
  have y: "clientSender y = s" "clientReceiver y = r" "sender_at y = Not_started"
    "receiver_buffer y = None"
    by (simp_all add: y_def system_of_def client.defs)
  have "x = Inr y"
    using init s(1) r(1) subj by (simp add: initial_def new_Client_def y_def)
  moreover have "system_rel ret t0 P 0 0 0 y"
    using s r buf m fields
    by (simp add: system_rel_def receiver_ok_def unsent_def loop_data_def y digits_def)
  ultimately show ?thesis
    using fields by (auto simp: configured_def y P_def)
qed

lemma initial_inv:
  "good_subject subj \<Longrightarrow> readable fs subj contents \<Longrightarrow> initial fs t0 subj x \<Longrightarrow>
     system_inv ret t0 subj contents x"
  unfolding system_inv_def by (drule (2) initial_rel) blast

lemma step_inv:
  assumes inv: "system_inv ret t0 subj contents x" and ret: "ret \<noteq> None"
    and stp: "client_step ret ordered_net (t0 + INT_MAX) x r"
  shows "system_inv ret t0 subj contents r"
proof -
  obtain y C A S where y: "x = Inr y" "configured subj y"
    "system_rel ret t0 (file_packets (getPacket_size subj) contents) C A S y"
    using inv by (auto simp: system_inv_def)
  obtain y' C' A' S' where y': "r = Inr y'"
    "system_rel ret t0 (file_packets (getPacket_size subj) contents) C' A' S' y'"
    "fst (conf (clientSender y')) = fst (conf (clientSender y))"
    using client_step_good [OF y(3) ret] stp y(1) unfolding good_step_def by blast
  then show ?thesis using y(2) by (auto simp: system_inv_def configured_def conf_def)
qed

interpretation client_sys: invariant_system
  "\<lambda>x. good_subject subj \<and> readable fs subj contents \<and> initial fs t0 subj x"
  "client_step (Some b) ordered_net (t0 + INT_MAX)"
  "system_inv (Some b) t0 subj contents"
  for fs t0 subj contents b
  by unfold_locales (auto intro: initial_inv step_inv)

subsection \<open>Progress\<close>

text \<open>
  What is left to do: packets to send (each also has to be acknowledged), chunks to
  read, the place of the thread, the receiver.
\<close>

fun pc_work :: "sender_pc \<Rightarrow> nat" where
  "pc_work Not_started = 4"
| "pc_work At_chunk = 1"
| "pc_work (Sending ds q) = 3"
| "pc_work (Wait_acks q) = 2"
| "pc_work Done = 0"

definition work :: "system \<Rightarrow> nat" where
  "work y =
     2 * length (unsent y) +
     nat ((next_seq_num_idx (clientSender y) - base_idx (clientSender y)) mod
          (max_seq_num_b10 (clientSender y) + 1)) +
     3 * length (dp_left (dataProcessor (clientSender y))) + pc_work (sender_at y) +
     (if receiver_buffer y = None then 0 else 1)"

definition rank :: "system res \<Rightarrow> nat" where
  "rank x = (case x of Inl e \<Rightarrow> 0 | Inr y \<Rightarrow> work y)"

definition finished_run :: "system res \<Rightarrow> bool" where
  "finished_run x \<longleftrightarrow> (\<exists>y. x = Inr y \<and> sender_at y = Done \<and> receiver_buffer y = None)"

lemma work_eq:
  assumes "system_rel ret t0 P C A S y"
  shows "work y = 2 * (length P - S) + (S - A) +
    3 * length (dp_left (dataProcessor (clientSender y))) + pc_work (sender_at y) +
    (if receiver_buffer y = None then 0 else 1)"
proof -
  have "sender_rel t0 P C A S (clientSender y)" using assms by (simp add: system_rel_def)
  moreover have "length (unsent y) = length P - S"
    using assms by (metis length_drop system_rel_def)
  ultimately show ?thesis by (simp add: work_def unacked_distance)
qed

text \<open>Every packet in flight can be acknowledged.\<close>

lemma ack_round:
  assumes rel: "system_rel ret t0 P C A S y" and j: "A \<le> j" "j < S"
    and run: "sender_at y \<noteq> Done" "receiver_buffer y = Some n"
  shows "\<exists>dg s'. ordered_net y dg \<and> receiver_round n dg y = Inr (y\<lparr>clientSender := s'\<rparr>) \<and>
    system_rel ret t0 P C (Suc j) S (y\<lparr>clientSender := s'\<rparr>) \<and> work (y\<lparr>clientSender := s'\<rparr>) < work y"
proof -
  let ?s = "clientSender y"
  let ?d = "digits ?s" and ?k = "int (j mod ring_size ?s)"
  have srel: "sender_rel t0 P C A S ?s" and act: "\<not> finished_sending_data ?s"
    using rel run by (auto simp: system_rel_def)
  then have cfg: "sender_cfg ?s" by (auto simp: sender_rel_def)
  note c = cfg_ring [OF cfg]
  have "j mod ring_size ?s < ring_size ?s" using c(2) by simp
  then have k: "0 \<le> ?k" "?k \<le> max_seq_num_b10 ?s" using c(1) by linarith+
  have "in_window ?s ?k" using in_window_iff [OF srel k] j by auto
  then have pl: "plausible_ack ?s ?k" using k by (simp add: plausible_ack_def)
  have d: "rx_max_seq_number (clientReceiver y) = int ?d" and buf: "?d + 32 < n"
    using rel run(2) c(8) by (auto simp: system_rel_def receiver_ok_def)
  note fit = cfg_fits [OF cfg, of j]
  have net: "ordered_net y (ack_datagram ?d ?k)"
    using run(2) d fit ack_datagram_accepted(3) [OF fit] pl
    by (auto simp: ordered_net_def harmless_def accepts_ack_def)
  obtain s' where s': "ackedPacket ?k ?s = Inr s'" "sender_rel t0 P C (Suc j) S s'" "conf s' = conf ?s"
    using ackedPacket_rel [OF srel act j] by blast
  let ?z = "y\<lparr>clientSender := s'\<rparr>"
  have "receiver_round n (ack_datagram ?d ?k) y = Inr ?z"
    using receive_ack_datagram [OF fit d buf, of client_ackedPacket y] s'(1)
    by (simp add: receiver_round_def client_ackedPacket_def)
  moreover have relz: "system_rel ret t0 P C (Suc j) S ?z"
    using system_rel_sender [OF rel s'(3,2)] j(1) by simp
  then have "work ?z < work y"
    using work_eq [OF rel] work_eq [OF relz] conf_eq_fields(2) [OF s'(3)] j by simp
  ultimately show ?thesis using net relz by blast
qed

lemma ack_progress:
  assumes "system_rel ret t0 P C A S y" and "A < S" and "sender_at y \<noteq> Done" and n: "receiver_buffer y = Some n"
  shows "\<exists>z. client_step ret ordered_net h (Inr y) (Inr z) \<and> work z < work y"
  using ack_round [OF assms(1) _ assms(2-4)] step_receive [OF n, of ordered_net _ ret h] by (metis order_refl)

text \<open>One lemma per place of the sender's thread: a step that leaves less to do.\<close>

lemma start_progress:
  assumes rel: "system_rel ret t0 P C A S y" and pc: "sender_at y = Not_started"
  shows "\<exists>z. client_step ret net h (Inr y) (Inr z) \<and> work z < work y"
proof -
  obtain n where "rx_buffer_size (clientReceiver y) = Inr n"
    using rel by (auto simp: system_rel_def receiver_ok_def)
  then have st: "client_start y = Inr (y\<lparr>receiver_buffer := Some n, sender_at := At_chunk\<rparr>)"
    by (simp add: client_start_def)
  have "receiver_buffer y = None" using rel pc by (simp add: system_rel_def receiver_ok_def)
  then have "work (y\<lparr>receiver_buffer := Some n, sender_at := At_chunk\<rparr>) < work y"
    using pc by (simp add: work_def unsent_def loop_data_def)
  with step_start [OF pc, of ret net h] st show ?thesis by auto
qed

lemma chunk_progress:
  assumes rel: "system_rel ret t0 P C A S y" and pc: "sender_at y = At_chunk"
  shows "\<exists>z. client_step ret net h (Inr y) (Inr z) \<and> work z < work y"
proof -
  let ?s = "clientSender y"
  have src: "source_ok ?s" using rel by (simp add: system_rel_def)
  show ?thesis
  proof (cases "dp_left (dataProcessor ?s)")
    case Nil
    have "S = length P" "A = S"
      using rel pc Nil by (auto simp: system_rel_def unsent_def loop_data_def sender_rel_def)
    moreover have "system_rel ret t0 P C A S (finish_sending y)"
      using finish_rel [OF rel] pc Nil \<open>A = S\<close> by (simp add: loop_data_def)
    moreover have "dataProcessor (threadFun_end ?s) = dataProcessor ?s"
      using conf_simps(6) [of ?s] by (simp add: conf_def)
    ultimately have "work (finish_sending y) < work y"
      using work_eq [of ret t0 P C A S] rel pc Nil by (simp add: finish_sending_def)
    with step_chunk [OF pc, of ret net h] sender_chunk_end [OF src Nil] show ?thesis by auto
  next
    case (Cons c cs)
    let ?ds = "chunks (nat (packet_size ?s)) c"
    obtain dp' where r: "sender_chunk y =
        Inr (y\<lparr>clientSender := ?s\<lparr>dataProcessor := dp'\<rparr>, sender_at := Sending ?ds (length ?ds)\<rparr>)"
        (is "_ = Inr ?y") and dp': "dp_left dp' = cs"
      using sender_chunk_next [OF src Cons] by blast
    have "work ?y < work y" using pc dp' Cons by (simp add: work_def unsent_def loop_data_def)
    with step_chunk [OF pc, of ret net h] r show ?thesis by auto
  qed
qed

lemma sending_progress:
  assumes rel: "system_rel ret t0 P C A S y" and pc: "sender_at y = Sending ds q"
  shows "\<exists>z. client_step ret ordered_net h (Inr y) (Inr z) \<and> work z < work y"
proof (cases ds)
  case Nil
  have "work (y\<lparr>sender_at := Wait_acks q\<rparr>) < work y"
    using pc Nil by (simp add: work_def unsent_def loop_data_def)
  with step_sent [of y q ret ordered_net h] pc Nil show ?thesis by auto
next
  case (Cons d ds')
  let ?s = "clientSender y"
  have srel: "sender_rel t0 P C A S ?s" using rel by (simp add: system_rel_def)
  show ?thesis
  proof (cases "S < A + nat (window_size ?s)")
    case True
    then have adv: "canAdvance ?s = Inr True" using canAdvance_window [OF srel] by simp
    obtain s' where s': "sender_send d ds' q y = Inr (y\<lparr>clientSender := s', sender_at := Sending ds' q\<rparr>)"
        (is "_ = Inr ?y")
      and rel': "system_rel ret t0 P C A (Suc S) (y\<lparr>clientSender := s', sender_at := Sending ds' q\<rparr>)"
      and c: "conf s' = conf ?s"
      and move: "gbn_step (nat (window_size ?s)) (length P) (A, S) (A, Suc S)"
      using sender_send_rel [OF rel, of d ds' q] pc Cons adv by blast
    have "A \<le> S" using srel by (simp add: sender_rel_def counters_rel_def)
    then have "work ?y < work y"
      using work_eq [OF rel] work_eq [OF rel'] pc conf_eq_fields(2) [OF c] move
      by (auto simp: gbn_step_simps)
    with step_send [of y d ds' q ret ordered_net h] pc Cons adv s' show ?thesis by auto
  next
    case False
    moreover have "0 < nat (window_size ?s)"
      using srel cfg_ring(7) [of ?s] by (simp add: sender_rel_def)
    ultimately have "A < S" by linarith
    moreover obtain n where "receiver_buffer y = Some n"
      using rel pc by (auto simp: system_rel_def receiver_ok_def)
    ultimately show ?thesis using ack_progress [OF rel] pc by simp
  qed
qed

lemma waiting_progress:
  assumes rel: "system_rel (Some True) t0 P C A S y" and pc: "sender_at y = Wait_acks q"
  shows "\<exists>z. client_step (Some True) ordered_net h (Inr y) (Inr z) \<and> work z < work y"
proof (cases "A = S")
  case True
  let ?s = "clientSender y"
  have "acked_count ?s = int q" "int q \<le> INT_MAX"
    using rel pc True by (auto simp: system_rel_def sender_rel_def counters_rel_def)
  then have acked: "chunk_acked q ?s"
    by (simp add: chunk_acked_def getAckedPacketsCount_def to_size_t_def int_bounds)
  let ?y = "y\<lparr>clientSender := close_chunk ?s, sender_at := At_chunk\<rparr>"
  have c: "conf (close_chunk ?s) = conf ?s" by simp
  have "base_idx (close_chunk ?s) = base_idx ?s" "next_seq_num_idx (close_chunk ?s) = next_seq_num_idx ?s"
    "max_seq_num_b10 (close_chunk ?s) = max_seq_num_b10 ?s"
    by (simp_all add: close_chunk_def resetChunkVars_def setAckedPacketsCount_def cleanTimers_def)
  then have "work ?y < work y"
    using pc conf_eq_fields [OF c] by (simp add: work_def unsent_def loop_data_def)
  moreover have "sendChunk_end (Some True) y = Inr ?y" by (simp add: sendChunk_end_def)
  ultimately show ?thesis using step_acked [OF pc acked, of "Some True" ordered_net h] by auto
next
  case False
  then have "A < S" using rel by (auto simp: system_rel_def sender_rel_def counters_rel_def)
  moreover obtain n where "receiver_buffer y = Some n"
    using rel pc by (auto simp: system_rel_def receiver_ok_def)
  ultimately show ?thesis using ack_progress [OF rel] pc by simp
qed

lemma end_progress:
  assumes pc: "sender_at y = Done" and n: "receiver_buffer y = Some n"
  shows "\<exists>z. client_step ret ordered_net h (Inr y) (Inr z) \<and> work z < work y"
proof -
  have "ordered_net y []" using assms by (simp add: ordered_net_def harmless_def)
  moreover have "receiver_round n [] y = Inr (y\<lparr>receiver_buffer := None\<rparr>)"
    by (simp add: receiver_round_def)
  moreover have "work (y\<lparr>receiver_buffer := None\<rparr>) < work y"
    using n by (simp add: work_def unsent_def loop_data_def)
  ultimately show ?thesis using step_receive [OF n, of ordered_net "[]" ret h] by auto
qed

lemma client_progress:
  assumes inv: "system_inv (Some True) t0 subj contents x" and unfinished: "\<not> finished_run x"
  shows "\<exists>z. client_step (Some True) ordered_net (t0 + INT_MAX) x z \<and> rank z < rank x"
proof -
  obtain y C A S where x: "x = Inr y" and
    rel: "system_rel (Some True) t0 (file_packets (getPacket_size subj) contents) C A S y"
    using inv by (auto simp: system_inv_def)
  have "\<exists>z. client_step (Some True) ordered_net (t0 + INT_MAX) (Inr y) (Inr z) \<and> work z < work y"
  proof (cases "sender_at y")
    case Done
    then show ?thesis
      using unfinished x end_progress [OF Done] by (auto simp: finished_run_def)
  qed (use start_progress [OF rel] chunk_progress [OF rel] sending_progress [OF rel]
        waiting_progress [OF rel] in blast)+
  then show ?thesis by (auto simp: x rank_def)
qed

interpretation client_end: progress_system
  "\<lambda>x. good_subject subj \<and> readable fs subj contents \<and> initial fs t0 subj x"
  "client_step (Some True) ordered_net (t0 + INT_MAX)"
  "system_inv (Some True) t0 subj contents" finished_run rank
  for fs t0 subj contents
  by unfold_locales (rule client_progress)

end
