(* ===== verification/Network.thy ===== *)
theory Network
  imports ClientSystem
begin

section \<open>The client, a network and the other end\<close>

text \<open>
  The server is not part of the repository. This theory puts the client in front of the
  receiver its packet format and its acknowledgements are made for (Go-back-N: in order,
  cumulative acknowledgements, a repetition of the last one for anything else), over
  channels that keep the order but lose, damage and delay. The receiver is a
  specification, written with the check \<open>Packet\<close> has for data.
\<close>

subsection \<open>The other end\<close>

definition peer :: "nat \<Rightarrow> string list \<Rightarrow> string \<Rightarrow> string list \<times> string list" where
  "peer d got dg =
     (if dg = [] then (got, [[]])
      else if checkPacketIntegrity dg (int d) False = Inr True
      then (if extract_seq_num dg (int d) = Inr (int (length got mod 10 ^ d))
            then (got @ [drop (d + 32) dg], [ack_datagram d (int (length got mod 10 ^ d))])
            else (got, if got = [] then []
                       else [ack_datagram d (int ((length got - 1) mod 10 ^ d))]))
      else (got, []))"

subsection \<open>The composition\<close>

record network =
  host :: "system res"
  outgoing :: "string list"
  incoming :: "string list"
  received :: "string list"

definition new_wire :: "system \<Rightarrow> system res \<Rightarrow> string list" where
  "new_wire y r =
     (case r of
        Inl e \<Rightarrow> []
      | Inr z \<Rightarrow> drop (length (wire (clientSender y))) (wire (clientSender z)))"

definition no_net :: "system \<Rightarrow> string \<Rightarrow> bool" where
  "no_net y dg \<longleftrightarrow> False"

inductive network_step :: "bool option \<Rightarrow> int \<Rightarrow> nat \<Rightarrow> network \<Rightarrow> network \<Rightarrow> bool"
  for ret :: "bool option" and t0 :: int and d :: nat
where
  host_steps: "host v = Inr y \<Longrightarrow> client_step ret no_net (t0 + INT_MAX) (Inr y) r \<Longrightarrow>
    network_step ret t0 d v (v\<lparr>host := r, outgoing := outgoing v @ new_wire y r\<rparr>)"
| host_receives: "host v = Inr y \<Longrightarrow> receiver_buffer y = Some n \<Longrightarrow> incoming v = dg # rest \<Longrightarrow>
    network_step ret t0 d v
      (v\<lparr>host := receiver_round n dg y, incoming := rest,
         outgoing := outgoing v @ new_wire y (receiver_round n dg y)\<rparr>)"
| host_noise: "host v = Inr y \<Longrightarrow> receiver_buffer y = Some n \<Longrightarrow> corrupted (int d) n dg \<Longrightarrow>
    network_step ret t0 d v (v\<lparr>host := receiver_round n dg y\<rparr>)"
| peer_receives: "outgoing v = dg # rest \<Longrightarrow> peer d (received v) dg = (got, as) \<Longrightarrow>
    network_step ret t0 d v (v\<lparr>outgoing := rest, received := got, incoming := incoming v @ as\<rparr>)"
| lost_out: "outgoing v = xs @ dg # ys \<Longrightarrow> network_step ret t0 d v (v\<lparr>outgoing := xs @ ys\<rparr>)"
| lost_in: "incoming v = xs @ dg # ys \<Longrightarrow> network_step ret t0 d v (v\<lparr>incoming := xs @ ys\<rparr>)"
| damaged: "outgoing v = xs @ dg # ys \<Longrightarrow> dg' \<noteq> [] \<Longrightarrow>
    checkPacketIntegrity dg' (int d) False \<noteq> Inr True \<Longrightarrow>
    network_step ret t0 d v (v\<lparr>outgoing := xs @ dg' # ys\<rparr>)"

inductive_cases network_stepE: "network_step ret t0 d v v'"

subsection \<open>What is in flight\<close>

datatype flight = Pkt nat | End | Garbage

fun carries :: "(nat \<Rightarrow> string) \<Rightarrow> nat \<Rightarrow> string \<Rightarrow> flight \<Rightarrow> bool" where
  "carries pd d dg (Pkt i) \<longleftrightarrow> dg = pd i"
| "carries pd d dg End \<longleftrightarrow> dg = []"
| "carries pd d dg Garbage \<longleftrightarrow> dg \<noteq> [] \<and> checkPacketIntegrity dg (int d) False \<noteq> Inr True"

fun numbers :: "flight list \<Rightarrow> nat list" where
  "numbers [] = []"
| "numbers (Pkt i # fs) = i # numbers fs"
| "numbers (_ # fs) = numbers fs"

lemma numbers_append [simp]: "numbers (xs @ ys) = numbers xs @ numbers ys"
  by (induction xs rule: numbers.induct) simp_all

lemma numbers_Cons: "numbers (f # fs) = numbers [f] @ numbers fs"
  by (cases f) simp_all

text \<open>
  Packets in flight: \<open>R\<close> packets have been taken by the other end. A packet that is
  overtaken by none and is at most \<open>w\<close> behind \<open>R\<close> and behind what travels ahead of it
  cannot be mistaken for another.
\<close>

definition out_ok ::
    "(nat \<Rightarrow> string) \<Rightarrow> nat \<Rightarrow> nat \<Rightarrow> nat \<Rightarrow> nat \<Rightarrow> bool \<Rightarrow> string list \<Rightarrow> bool" where
  "out_ok pd d w R S done out \<longleftrightarrow>
     (\<exists>fs. list_all2 (carries pd d) out fs \<and>
        (\<forall>i \<in> set (numbers fs). R \<le> i + w \<and> i < S) \<and>
        sorted_wrt (\<lambda>a b. a < b + w) (numbers fs) \<and> (End \<in> set fs \<longrightarrow> done))"

text \<open>Acknowledgements in flight: of packets taken, in order, not older than the last one used.\<close>

definition in_ok :: "nat \<Rightarrow> nat \<Rightarrow> nat \<Rightarrow> bool \<Rightarrow> string list \<Rightarrow> bool" where
  "in_ok d A R done inc \<longleftrightarrow>
     (\<exists>fs. list_all2 (carries (\<lambda>j. ack_datagram d (int (j mod 10 ^ d))) d) inc fs \<and>
        Garbage \<notin> set fs \<and> (\<forall>j \<in> set (numbers fs). A \<le> Suc j \<and> j < R) \<and>
        sorted (numbers fs) \<and> (End \<in> set fs \<longrightarrow> done))"

lemma list_all2_delete:
  assumes "list_all2 Q (xs @ x # ys) fs"
  shows "\<exists>fs1 f fs2. fs = fs1 @ f # fs2 \<and> list_all2 Q xs fs1 \<and> Q x f \<and> list_all2 Q ys fs2"
  using assms by (auto simp: list_all2_append1 list_all2_Cons1)

lemma out_ok_lost: "out_ok pd d w R S b (xs @ dg # ys) \<Longrightarrow> out_ok pd d w R S b (xs @ ys)"
proof -
  assume "out_ok pd d w R S b (xs @ dg # ys)"
  then obtain fs1 f fs2 where fs: "list_all2 (carries pd d) xs fs1" "list_all2 (carries pd d) ys fs2"
    and i: "\<forall>i \<in> set (numbers (fs1 @ f # fs2)). R \<le> i + w \<and> i < S"
    and s: "sorted_wrt (\<lambda>a b. a < b + w) (numbers (fs1 @ f # fs2))"
    and e: "End \<in> set (fs1 @ f # fs2) \<longrightarrow> b"
    by (auto simp: out_ok_def dest!: list_all2_delete)
  then have "list_all2 (carries pd d) (xs @ ys) (fs1 @ fs2)" by (simp add: list_all2_appendI)
  moreover have "sorted_wrt (\<lambda>a b. a < b + w) (numbers (fs1 @ fs2))"
    using s by (cases f) (simp_all add: sorted_wrt_append)
  moreover have "\<forall>i \<in> set (numbers (fs1 @ fs2)). R \<le> i + w \<and> i < S"
    using i by (cases f) auto
  ultimately show ?thesis unfolding out_ok_def using e by (intro exI [of _ "fs1 @ fs2"]) auto
qed

lemma out_ok_damaged:
  assumes "out_ok pd d w R S b (xs @ dg # ys)" and "carries pd d dg' Garbage"
  shows "out_ok pd d w R S b (xs @ dg' # ys)"
proof -
  obtain fs1 f fs2 where fs: "list_all2 (carries pd d) xs fs1" "list_all2 (carries pd d) ys fs2"
    and i: "\<forall>i \<in> set (numbers (fs1 @ f # fs2)). R \<le> i + w \<and> i < S"
    and s: "sorted_wrt (\<lambda>a b. a < b + w) (numbers (fs1 @ f # fs2))"
    and e: "End \<in> set (fs1 @ f # fs2) \<longrightarrow> b"
    using assms(1) by (auto simp: out_ok_def dest!: list_all2_delete)
  have "list_all2 (carries pd d) (xs @ dg' # ys) (fs1 @ Garbage # fs2)"
    using fs assms(2) by (intro list_all2_appendI) simp_all
  moreover have "sorted_wrt (\<lambda>a b. a < b + w) (numbers (fs1 @ Garbage # fs2))"
    using s by (cases f) (simp_all add: sorted_wrt_append)
  moreover have "\<forall>i \<in> set (numbers (fs1 @ Garbage # fs2)). R \<le> i + w \<and> i < S"
    using i by (cases f) auto
  ultimately show ?thesis
    unfolding out_ok_def using e by (intro exI [of _ "fs1 @ Garbage # fs2"]) auto
qed

lemma in_ok_lost: "in_ok d A R b (xs @ dg # ys) \<Longrightarrow> in_ok d A R b (xs @ ys)"
proof -
  let ?pd = "\<lambda>j. ack_datagram d (int (j mod 10 ^ d))"
  assume "in_ok d A R b (xs @ dg # ys)"
  then obtain fs1 f fs2 where fs: "list_all2 (carries ?pd d) xs fs1" "list_all2 (carries ?pd d) ys fs2"
    and i: "\<forall>j \<in> set (numbers (fs1 @ f # fs2)). A \<le> Suc j \<and> j < R"
    and s: "sorted (numbers (fs1 @ f # fs2))"
    and e: "End \<in> set (fs1 @ f # fs2) \<longrightarrow> b" "Garbage \<notin> set (fs1 @ f # fs2)"
    by (auto simp: in_ok_def dest!: list_all2_delete)
  then have "list_all2 (carries ?pd d) (xs @ ys) (fs1 @ fs2)" by (simp add: list_all2_appendI)
  moreover have "sorted (numbers (fs1 @ fs2))"
    using s by (cases f) (simp_all add: sorted_append)
  moreover have "\<forall>j \<in> set (numbers (fs1 @ fs2)). A \<le> Suc j \<and> j < R"
    using i by (cases f) auto
  ultimately show ?thesis unfolding in_ok_def using e by (intro exI [of _ "fs1 @ fs2"]) auto
qed

subsection \<open>Sending and taking packets\<close>

fun to_flight :: "nat option \<Rightarrow> flight" where
  "to_flight None = End"
| "to_flight (Some i) = Pkt i"

lemma in_numbers_to_flight: "i \<in> set (numbers (map to_flight xs)) \<longleftrightarrow> Some i \<in> set xs"
proof (induction xs)
  case (Cons x xs)
  have "numbers (map to_flight (x # xs)) =
      (case x of None \<Rightarrow> numbers (map to_flight xs) | Some k \<Rightarrow> k # numbers (map to_flight xs))"
    by (cases x) simp_all
  with Cons show ?case by (cases x) simp_all
qed simp

lemma End_to_flight: "End \<in> set (map to_flight xs) \<longleftrightarrow> None \<in> set xs"
proof -
  have "End = to_flight x \<longleftrightarrow> x = None" for x by (cases x) simp_all
  then show ?thesis by (simp add: image_iff)
qed

lemma sorted_wrt_all:
  "(\<And>a b. a \<in> set xs \<Longrightarrow> b \<in> set xs \<Longrightarrow> Q a b) \<Longrightarrow> sorted_wrt Q xs"
  by (induction xs) auto

lemma out_ok_append:
  assumes out: "out_ok pd d w R S b out" and b: "b \<longrightarrow> b'"
    and S: "A \<le> R" "R \<le> S" "S \<le> S'" "S' \<le> A + w"
    and xs: "\<forall>i. Some i \<in> set xs \<longrightarrow> A \<le> i \<and> i < S'" "None \<in> set xs \<longrightarrow> b'"
  shows "out_ok pd d w R S' b' (out @ map (\<lambda>x. case x of None \<Rightarrow> [] | Some i \<Rightarrow> pd i) xs)"
proof -
  obtain fs where fs: "list_all2 (carries pd d) out fs"
    and i: "\<forall>i \<in> set (numbers fs). R \<le> i + w \<and> i < S"
    and s: "sorted_wrt (\<lambda>a b. a < b + w) (numbers fs)" and e: "End \<in> set fs \<longrightarrow> b"
    using out by (auto simp: out_ok_def)
  let ?new = "map to_flight xs"
  have new: "A \<le> i \<and> i < S'" if "i \<in> set (numbers ?new)" for i
    using that xs(1) by (simp add: in_numbers_to_flight)
  have "carries pd d (case x of None \<Rightarrow> [] | Some i \<Rightarrow> pd i) (to_flight x)" for x
    by (cases x) simp_all
  then have "list_all2 (carries pd d) (map (\<lambda>x. case x of None \<Rightarrow> [] | Some i \<Rightarrow> pd i) xs) ?new"
    by (simp add: list_all2_map1 list_all2_map2 list_all2_same)
  then have "list_all2 (carries pd d) (out @ map (\<lambda>x. case x of None \<Rightarrow> [] | Some i \<Rightarrow> pd i) xs)
      (fs @ ?new)"
    using fs by (rule list_all2_appendI [rotated])
  moreover have "sorted_wrt (\<lambda>a b. a < b + w) (numbers ?new)"
  proof (rule sorted_wrt_all)
    fix a c assume "a \<in> set (numbers ?new)" "c \<in> set (numbers ?new)"
    then show "a < c + w" using new [of a] new [of c] S(4) by linarith
  qed
  moreover have "a < c + w" if "a \<in> set (numbers fs)" "c \<in> set (numbers ?new)" for a c
    using that i new [of c] S by force
  ultimately show ?thesis
    unfolding out_ok_def
    using s i new S e b xs(2) End_to_flight [of xs]
    by (intro exI [of _ "fs @ ?new"]) (fastforce simp: sorted_wrt_append)
qed

lemma mod_window_eq:
  assumes "w < N" and "R \<le> i + w" and "i < R + w" and "i mod N = R mod (N::nat)"
  shows "i = R"
proof (cases "i \<le> R")
  case True
  show ?thesis by (rule ring_inj [of N]) (use assms True in simp_all)
next
  case False
  have "R = i" by (rule ring_inj [of N]) (use assms False in simp_all)
  then show ?thesis by simp
qed

definition wire_packet :: "nat \<Rightarrow> string list \<Rightarrow> nat \<Rightarrow> string" where
  "wire_packet d P i = datagram d (int (i mod 10 ^ d)) (P ! i)"

text \<open>One datagram at the other end: it is the next packet, or changes nothing there.\<close>

lemma peer_ok:
  assumes out: "out_ok (wire_packet d P) d w R S b (dg # rest)"
    and inc: "in_ok d A R b inc" and peer: "peer d (take R P) dg = (got, as)"
    and R: "A \<le> R" "R \<le> S" "S \<le> length P" "S \<le> R + w" "w < 10 ^ d"
    and fits: "\<And>i. fits d (int (i mod 10 ^ d))"
  shows "\<exists>R'. got = take R' P \<and> R \<le> R' \<and> R' \<le> S \<and>
    out_ok (wire_packet d P) d w R' S b rest \<and> in_ok d A R' b (inc @ as)"
proof -
  let ?pd = "wire_packet d P" and ?ad = "\<lambda>j. ack_datagram d (int (j mod 10 ^ d))"
  obtain f fs where f: "carries ?pd d dg f" and fs: "list_all2 (carries ?pd d) rest fs"
    and i: "\<forall>i \<in> set (numbers (f # fs)). R \<le> i + w \<and> i < S"
    and s: "sorted_wrt (\<lambda>a b. a < b + w) (numbers (f # fs))" and e: "End \<in> set (f # fs) \<longrightarrow> b"
    using out by (auto simp: out_ok_def list_all2_Cons1)
  obtain gs where gs: "list_all2 (carries ?ad d) inc gs" "Garbage \<notin> set gs"
    and j: "\<forall>j \<in> set (numbers gs). A \<le> Suc j \<and> j < R" and sj: "sorted (numbers gs)"
    and ej: "End \<in> set gs \<longrightarrow> b"
    using inc by (auto simp: in_ok_def)
  have len: "length (take R P) = R" using R by simp
  have rest: "out_ok ?pd d w R' S b rest"
    if "\<forall>i \<in> set (numbers fs). R' \<le> i + w" for R'
    using that fs i s e unfolding out_ok_def
    by (intro exI [of _ fs]) (cases f; auto)
  have ack: "in_ok d A R' b (inc @ [?ad k])" if "R \<le> R'" "A \<le> Suc k" "k < R'" "R \<le> Suc k" for R' k
  proof -
    have "list_all2 (carries ?ad d) (inc @ [?ad k]) (gs @ [Pkt k])"
      using gs(1) by (intro list_all2_appendI) simp_all
    moreover have "sorted (numbers (gs @ [Pkt k]))"
      using sj j that by (force simp: sorted_append)
    ultimately show ?thesis
      unfolding in_ok_def using gs(2) j ej that by (intro exI [of _ "gs @ [Pkt k]"]) force
  qed
  show ?thesis
  proof (cases f)
    case End
    have "list_all2 (carries ?ad d) (inc @ [[]]) (gs @ [End])"
      using gs(1) by (intro list_all2_appendI) simp_all
    then have "in_ok d A R b (inc @ [[]])"
      unfolding in_ok_def using gs(2) j sj e End by (intro exI [of _ "gs @ [End]"]) auto
    moreover have "got = take R P" "as = [[]]" using peer f End by (auto simp: peer_def)
    ultimately show ?thesis using rest [of R] i R End by auto
  next
    case Garbage
    then have "got = take R P" "as = []" using peer f by (auto simp: peer_def)
    then show ?thesis using rest [of R] i R Garbage inc by auto
  next
    case (Pkt k)
    then have dg: "dg = datagram d (int (k mod 10 ^ d)) (P ! k)" using f by (simp add: wire_packet_def)
    note rt = datagram_roundtrip [OF fits [of k], of "P ! k"]
    have k: "R \<le> k + w" "k < S" using i Pkt by auto
    have ne: "dg \<noteq> []" using rt(4) fits [of k] by (auto simp: dg fits_def)
    have eq: "k mod 10 ^ d = R mod 10 ^ d \<longleftrightarrow> k = R"
      using mod_window_eq [of w "10 ^ d" R k] k R by auto
    show ?thesis
    proof (cases "k = R")
      case True
      then have "got = take R P @ [P ! R]" "as = [?ad R]"
        using peer ne rt len by (auto simp: peer_def dg)
      moreover have "take R P @ [P ! R] = take (Suc R) P"
        using k R True by (simp add: take_Suc_conv_app_nth)
      moreover have "out_ok ?pd d w (Suc R) S b rest"
        using s Pkt True by (intro rest) auto
      moreover have "in_ok d A (Suc R) b (inc @ [?ad R])" using R by (intro ack) auto
      ultimately show ?thesis using k True by (intro exI [of _ "Suc R"]) simp
    next
      case False
      then have "int (k mod 10 ^ d) \<noteq> int (R mod 10 ^ d)" using eq by simp
      then have g: "got = take R P" "as = (if R = 0 then [] else [?ad (R - 1)])"
        using peer ne rt len by (auto simp: peer_def dg)
      have "in_ok d A R b (inc @ as)"
      proof (cases "R = 0")
        case True
        then show ?thesis using g inc by simp
      next
        case False
        then show ?thesis using g ack [of R "R - 1"] R by simp
      qed
      then show ?thesis using g rest [of R] i R Pkt by auto
    qed
  qed
qed

subsection \<open>Using an acknowledgement\<close>

lemma receiver_round_ack:
  assumes rel: "system_rel ret t0 P C A S y" and n: "receiver_buffer y = Some n"
    and j: "A \<le> Suc j" "Suc j \<le> S" and d: "digits (clientSender y) = d"
  shows "\<exists>s'. receiver_round n (ack_datagram d (int (j mod 10 ^ d))) y =
      Inr (y\<lparr>clientSender := s'\<rparr>) \<and>
    system_rel ret t0 P C (max A (Suc j)) S (y\<lparr>clientSender := s'\<rparr>) \<and>
    conf s' = conf (clientSender y) \<and> wire_grows P A S (clientSender y) s'"
proof -
  let ?s = "clientSender y" and ?k = "int (j mod 10 ^ d)"
  have srel: "sender_rel t0 P C A S ?s" using rel by (simp add: system_rel_def)
  then have cfg: "sender_cfg ?s" by (simp add: sender_rel_def)
  note c = cfg_ring [OF cfg]
  have N: "ring_size ?s = 10 ^ d" using c(3) d by simp
  have fits: "fits d ?k" using cfg_fits [OF cfg, of j] N d by simp
  have rx: "rx_max_seq_number (clientReceiver y) = int d" "d + 32 < n"
    using rel n c(8) d by (auto simp: system_rel_def receiver_ok_def)
  obtain s' where s': "ackedPacket ?k ?s = Inr s'" "sender_rel t0 P C (max A (Suc j)) S s'"
    "conf s' = conf ?s" "wire_grows P A S ?s s'"
  proof (cases "finished_sending_data ?s")
    case True
    then have "sender_at y = Done" using rel by (simp add: system_rel_def)
    then have "A = S" using rel by (simp add: system_rel_def)
    then have "max A (Suc j) = A" using j by simp
    moreover have "ackedPacket ?k ?s = Inr (endConnection (cleanTimers ?s))"
      using True by (simp add: ackedPacket_def Let_def)
    ultimately show ?thesis
      using that [of "endConnection (cleanTimers ?s)"] True
        sender_rel_endConnection [OF sender_rel_cleanTimers [OF srel]]
      by (simp add: wire_grows_end)
  next
    case False
    show ?thesis
    proof (cases "A \<le> j")
      case True
      obtain s' where r: "ackedPacket ?k ?s = Inr s'" "sender_rel t0 P C (Suc j) S s'"
        "wire s' = wire ?s" "conf s' = conf ?s"
        using ackedPacket_rel [OF srel False, of j] True j N by auto
      moreover have "max A (Suc j) = Suc j" using True by simp
      ultimately show ?thesis
        using that [of s'] wire_grows_same [OF r(3) conf_finished [OF r(4)]] by simp
    next
      case after: False
      then have "j = A - 1" "0 < A" "max A (Suc j) = A" using j by auto
      then show ?thesis
        using that [of "cleanTimers ?s"] ackedPacket_duplicate [OF srel False]
          sender_rel_cleanTimers [OF srel] N by (simp add: wire_grows_same)
    qed
  qed
  have "receiver_round n (ack_datagram d ?k) y = Inr (y\<lparr>clientSender := s'\<rparr>)"
    using receive_ack_datagram [OF fits rx, of client_ackedPacket y] s'(1)
    by (simp add: receiver_round_def client_ackedPacket_def)
  moreover have "system_rel ret t0 P C (max A (Suc j)) S (y\<lparr>clientSender := s'\<rparr>)"
    by (rule system_rel_sender [OF rel s'(3,2)]) simp
  ultimately show ?thesis using s'(3,4) by blast
qed

subsection \<open>The invariant\<close>

definition network_rel ::
    "bool option \<Rightarrow> int \<Rightarrow> string list \<Rightarrow> nat \<Rightarrow> nat \<Rightarrow> nat \<Rightarrow> system \<Rightarrow> network \<Rightarrow> bool" where
  "network_rel ret t0 P d A S y v \<longleftrightarrow>
     (\<exists>C. system_rel ret t0 P C A S y) \<and> host v = Inr y \<and> digits (clientSender y) = d \<and>
     received v = take (length (received v)) P \<and>
     A \<le> length (received v) \<and> length (received v) \<le> S \<and>
     out_ok (wire_packet d P) d (nat (window_size (clientSender y))) (length (received v)) S
       (sender_at y = Done) (outgoing v) \<and>
     in_ok d A (length (received v)) (sender_at y = Done) (incoming v)"

lemma system_rel_bounds:
  assumes rel: "system_rel ret t0 P C A S y" and d: "digits (clientSender y) = d"
  shows "A \<le> S" and "S \<le> A + nat (window_size (clientSender y))" and "S \<le> length P"
    and "nat (window_size (clientSender y)) < 10 ^ d"
    and "packet_datagram (clientSender y) P = wire_packet d P"
    and "fits d (int (i mod 10 ^ d))"
    and "finished_sending_data (clientSender y) \<longleftrightarrow> sender_at y = Done"
proof -
  show "finished_sending_data (clientSender y) \<longleftrightarrow> sender_at y = Done"
    using rel by (simp add: system_rel_def)
  have srel: "sender_rel t0 P C A S (clientSender y)"
    using rel by (simp add: system_rel_def)
  then have cfg: "sender_cfg (clientSender y)" by (simp add: sender_rel_def)
  show "A \<le> S" "S \<le> A + nat (window_size (clientSender y))" "S \<le> length P"
    using srel by (auto simp: sender_rel_def counters_rel_def)
  note c = cfg_ring [OF cfg]
  show "nat (window_size (clientSender y)) < 10 ^ d"
    "packet_datagram (clientSender y) P = wire_packet d P"
    "fits d (int (i mod 10 ^ d))"
    using c(3,6) cfg_fits [OF cfg, of i] d
    by (simp_all add: packet_datagram_def wire_packet_def fun_eq_iff)
qed

text \<open>The client's own steps only add to the outgoing channel.\<close>

lemma network_rel_host:
  assumes net: "network_rel ret t0 P d A S y v"
    and rel: "system_rel ret t0 P C' A' S' z"
    and c: "fst (conf (clientSender z)) = fst (conf (clientSender y))"
    and w: "wire_grows P A S' (clientSender y) (clientSender z)"
    and A: "A \<le> A'" "A' \<le> length (received v)" "S \<le> S'" "S' \<le> A + nat (window_size (clientSender y))"
    and inc: "in_ok d A' (length (received v)) (sender_at z = Done) ins"
  shows "network_rel ret t0 P d A' S' z
    (v\<lparr>host := Inr z, incoming := ins, outgoing := outgoing v @ new_wire y (Inr z)\<rparr>)"
proof -
  obtain C where rely: "system_rel ret t0 P C A S y"
    and v: "received v = take (length (received v)) P" "A \<le> length (received v)"
      "length (received v) \<le> S" and d: "digits (clientSender y) = d"
    and out: "out_ok (wire_packet d P) d (nat (window_size (clientSender y))) (length (received v)) S
       (sender_at y = Done) (outgoing v)"
    using net by (auto simp: network_rel_def)
  have dz: "digits (clientSender z) = d" "window_size (clientSender z) = window_size (clientSender y)"
    using c d by (simp_all add: conf_def digits_def)
  obtain xs where xs: "wire (clientSender z) = wire (clientSender y) @ sent_log (clientSender y) P xs"
    "\<forall>i. Some i \<in> set xs \<longrightarrow> A \<le> i \<and> i < S'" "None \<in> set xs \<longrightarrow> sender_at z = Done"
    "sender_at y = Done \<longrightarrow> sender_at z = Done"
    using w system_rel_bounds(7) [OF rely d] system_rel_bounds(7) [OF rel dz(1)]
    unfolding wire_grows_def by blast
  have "new_wire y (Inr z) = map (\<lambda>x. case x of None \<Rightarrow> [] | Some i \<Rightarrow> wire_packet d P i) xs"
    using xs(1) system_rel_bounds(5) [OF rely d] by (simp add: new_wire_def sent_log_def)
  moreover have "out_ok (wire_packet d P) d (nat (window_size (clientSender y))) (length (received v)) S'
      (sender_at z = Done)
      (outgoing v @ map (\<lambda>x. case x of None \<Rightarrow> [] | Some i \<Rightarrow> wire_packet d P i) xs)"
    by (rule out_ok_append [OF out xs(4) v(2,3) A(3,4) xs(2,3)])
  ultimately show ?thesis
    using rel v A inc dz by (auto simp: network_rel_def)
qed

lemma in_ok_done: "in_ok d A R b inc \<Longrightarrow> b \<longrightarrow> b' \<Longrightarrow> in_ok d A R b' inc"
  unfolding in_ok_def by blast

lemma network_rel_own:
  assumes net: "network_rel ret t0 P d A S y v" and own: "own_step ret t0 P A S y r"
  shows "\<exists>z S'. r = Inr z \<and> fst (conf (clientSender z)) = fst (conf (clientSender y)) \<and>
    network_rel ret t0 P d A S' z (v\<lparr>host := r, outgoing := outgoing v @ new_wire y r\<rparr>)"
proof -
  obtain z C' S' where z: "r = Inr z" "system_rel ret t0 P C' A S' z"
    "fst (conf (clientSender z)) = fst (conf (clientSender y))"
    "wire_grows P A S' (clientSender y) (clientSender z)"
    and move: "gbn_move (nat (window_size (clientSender y))) (length P) (A, S) (A, S')"
    using own unfolding own_step_def by blast
  obtain C where rely: "system_rel ret t0 P C A S y" and d: "digits (clientSender y) = d"
    and R: "A \<le> length (received v)"
    and inc: "in_ok d A (length (received v)) (sender_at y = Done) (incoming v)"
    using net by (auto simp: network_rel_def)
  have S: "S \<le> S'" "S' \<le> A + nat (window_size (clientSender y))"
    using move system_rel_bounds(2) [OF rely d] by (auto simp: gbn_move_def gbn_step_simps)
  have dz: "digits (clientSender z) = d" using z(3) d by (simp add: conf_def digits_def)
  have "sender_at y = Done \<longrightarrow> sender_at z = Done"
    using z(4) system_rel_bounds(7) [OF rely d] system_rel_bounds(7) [OF z(2) dz]
    by (simp add: wire_grows_def)
  from in_ok_done [OF inc this]
  have "network_rel ret t0 P d A S' z
      (v\<lparr>host := Inr z, incoming := incoming v, outgoing := outgoing v @ new_wire y (Inr z)\<rparr>)"
    using network_rel_host [OF net z(2,3,4)] R S by blast
  then show ?thesis using z by auto
qed

lemma new_wire_same [simp]: "clientSender z = clientSender y \<Longrightarrow> new_wire y (Inr z) = []"
  by (simp add: new_wire_def)

lemma network_rel_receive:
  assumes net: "network_rel ret t0 P d A S y v" and n: "receiver_buffer y = Some n"
    and inc: "incoming v = dg # rest"
  shows "\<exists>z A'. receiver_round n dg y = Inr z \<and>
    fst (conf (clientSender z)) = fst (conf (clientSender y)) \<and>
    network_rel ret t0 P d A' S z
      (v\<lparr>host := receiver_round n dg y, incoming := rest,
         outgoing := outgoing v @ new_wire y (receiver_round n dg y)\<rparr>)"
proof -
  obtain C where rely: "system_rel ret t0 P C A S y" and d: "digits (clientSender y) = d"
    and R: "A \<le> length (received v)" "length (received v) \<le> S"
    and ok: "in_ok d A (length (received v)) (sender_at y = Done) (incoming v)"
    using net by (auto simp: network_rel_def)
  note b = system_rel_bounds [OF rely d]
  obtain f fs where f: "carries (\<lambda>j. ack_datagram d (int (j mod 10 ^ d))) d dg f" "f \<noteq> Garbage"
    and fs: "list_all2 (carries (\<lambda>j. ack_datagram d (int (j mod 10 ^ d))) d) rest fs"
      "Garbage \<notin> set fs"
    and j: "\<forall>j \<in> set (numbers (f # fs)). A \<le> Suc j \<and> j < length (received v)"
    and srt: "sorted (numbers (f # fs))" and e: "End \<in> set (f # fs) \<longrightarrow> sender_at y = Done"
    using ok inc by (auto simp: in_ok_def list_all2_Cons1)
  have rest: "in_ok d A' (length (received v)) (sender_at y = Done) rest"
    if "\<forall>j \<in> set (numbers fs). A' \<le> Suc j" for A'
    using that fs j srt e unfolding in_ok_def by (intro exI [of _ fs]) (cases f; auto)
  show ?thesis
  proof (cases f)
    case (Pkt k)
    then have dg: "dg = ack_datagram d (int (k mod 10 ^ d))" using f(1) by simp
    have k: "A \<le> Suc k" "Suc k \<le> length (received v)" using j Pkt by auto
    obtain s' where s': "receiver_round n dg y = Inr (y\<lparr>clientSender := s'\<rparr>)"
      "system_rel ret t0 P C (max A (Suc k)) S (y\<lparr>clientSender := s'\<rparr>)"
      "conf s' = conf (clientSender y)" "wire_grows P A S (clientSender y) s'"
      using receiver_round_ack [OF rely n k(1) _ d] k(2) R dg by auto
    have "in_ok d (max A (Suc k)) (length (received v)) (sender_at y = Done) rest"
      using srt Pkt j by (intro rest) auto
    then have "network_rel ret t0 P d (max A (Suc k)) S (y\<lparr>clientSender := s'\<rparr>)
        (v\<lparr>host := Inr (y\<lparr>clientSender := s'\<rparr>), incoming := rest,
           outgoing := outgoing v @ new_wire y (Inr (y\<lparr>clientSender := s'\<rparr>))\<rparr>)"
      using k R b s' by (intro network_rel_host [OF net s'(2)]) simp_all
    then show ?thesis using s'(1,3) by auto
  next
    case End
    then have "dg = []" "sender_at y = Done" using f(1) e by auto
    then have r: "receiver_round n dg y = Inr (y\<lparr>receiver_buffer := None\<rparr>)"
      by (simp add: receiver_round_def)
    have "system_rel ret t0 P C A S (y\<lparr>receiver_buffer := None\<rparr>)"
      using rely \<open>sender_at y = Done\<close>
      by (auto simp: system_rel_def receiver_ok_def unsent_def loop_data_def)
    then have "network_rel ret t0 P d A S (y\<lparr>receiver_buffer := None\<rparr>)
        (v\<lparr>host := Inr (y\<lparr>receiver_buffer := None\<rparr>), incoming := rest,
           outgoing := outgoing v @ new_wire y (Inr (y\<lparr>receiver_buffer := None\<rparr>))\<rparr>)"
      using R b rest [of A] j End
      by (intro network_rel_host [OF net]) (auto simp: wire_grows_same)
    then show ?thesis using r by auto
  next
    case Garbage
    then show ?thesis using f(2) by simp
  qed
qed

text \<open>Every step keeps the relation.\<close>

lemma network_rel_step:
  assumes net: "network_rel ret t0 P d A S y v" and ret: "ret \<noteq> None"
    and stp: "network_step ret t0 d v v'"
  shows "\<exists>z A' S'. network_rel ret t0 P d A' S' z v' \<and>
    fst (conf (clientSender z)) = fst (conf (clientSender y))"
proof -
  obtain C where rely: "system_rel ret t0 P C A S y" and d: "digits (clientSender y) = d"
    and h: "host v = Inr y" and got: "received v = take (length (received v)) P"
    and R: "A \<le> length (received v)" "length (received v) \<le> S"
    and out: "out_ok (wire_packet d P) d (nat (window_size (clientSender y))) (length (received v)) S
       (sender_at y = Done) (outgoing v)"
    and inc: "in_ok d A (length (received v)) (sender_at y = Done) (incoming v)"
    using net by (auto simp: network_rel_def)
  note b = system_rel_bounds [OF rely d]
  have same: "network_rel ret t0 P d A S y (v\<lparr>outgoing := o', incoming := i'\<rparr>)"
    if "out_ok (wire_packet d P) d (nat (window_size (clientSender y))) (length (received v)) S
        (sender_at y = Done) o'" "in_ok d A (length (received v)) (sender_at y = Done) i'" for o' i'
    using net that by (simp add: network_rel_def)
  from stp show ?thesis
  proof (rule network_stepE)
    fix x r assume v': "v' = v\<lparr>host := r, outgoing := outgoing v @ new_wire x r\<rparr>"
      and x: "host v = Inr x" and c: "client_step ret no_net (t0 + INT_MAX) (Inr x) r"
    have "own_step ret t0 P A S y r"
      using client_step_cases [OF rely ret, of no_net r] c x h by (auto simp: no_net_def)
    moreover have "x = y" using x h by simp
    ultimately show ?thesis using network_rel_own [OF net] v' by blast
  next
    fix x n dg rest
    assume v': "v' = v\<lparr>host := receiver_round n dg x, incoming := rest,
        outgoing := outgoing v @ new_wire x (receiver_round n dg x)\<rparr>"
      and x: "host v = Inr x" "receiver_buffer x = Some n" "incoming v = dg # rest"
    then show ?thesis using network_rel_receive [OF net, of n dg rest] h by auto
  next
    fix x n dg
    assume v': "v' = v\<lparr>host := receiver_round n dg x\<rparr>"
      and x: "host v = Inr x" "receiver_buffer x = Some n" "corrupted (int d) n dg"
    have "receiver_round n dg y = Inr y"
      using rely x h d cfg_ring(8) [of "clientSender y"]
        receive_corrupted [of n "clientReceiver y" dg client_ackedPacket y]
      by (auto simp: receiver_round_def system_rel_def receiver_ok_def sender_rel_def)
    moreover have "v\<lparr>host := host v\<rparr> = v" by simp
    ultimately have "v' = v" using v' x h by simp
    then show ?thesis using net by blast
  next
    fix dg rest got' as
    assume v': "v' = v\<lparr>outgoing := rest, received := got', incoming := incoming v @ as\<rparr>"
      and o: "outgoing v = dg # rest" and p: "peer d (received v) dg = (got', as)"
    have p': "peer d (take (length (received v)) P) dg = (got', as)" using p got by simp
    have win: "S \<le> length (received v) + nat (window_size (clientSender y))"
      using b(2) R(1) by linarith
    obtain R' where R': "got' = take R' P" "length (received v) \<le> R'" "R' \<le> S"
      "out_ok (wire_packet d P) d (nat (window_size (clientSender y))) R' S (sender_at y = Done) rest"
      "in_ok d A R' (sender_at y = Done) (incoming v @ as)"
      using peer_ok [OF out [unfolded o] inc p' R(1,2) b(3) win b(4,6)] by blast
    moreover have "length got' = R'" using R' b(3) by simp
    ultimately have "network_rel ret t0 P d A S y v'"
      using net v' R by (simp add: network_rel_def)
    then show ?thesis by blast
  next
    fix xs dg ys assume "v' = v\<lparr>outgoing := xs @ ys\<rparr>" "outgoing v = xs @ dg # ys"
    then show ?thesis using same [of "xs @ ys" "incoming v"] out out_ok_lost inc by fastforce
  next
    fix xs dg ys assume "v' = v\<lparr>incoming := xs @ ys\<rparr>" "incoming v = xs @ dg # ys"
    then show ?thesis using same [of "outgoing v" "xs @ ys"] out inc in_ok_lost by fastforce
  next
    fix xs dg ys dg'
    assume "v' = v\<lparr>outgoing := xs @ dg' # ys\<rparr>" "outgoing v = xs @ dg # ys" "dg' \<noteq> []"
      "checkPacketIntegrity dg' (int d) False \<noteq> Inr True"
    then show ?thesis
      using same [of "xs @ dg' # ys" "incoming v"] out out_ok_damaged inc by fastforce
  qed
qed

subsection \<open>The whole\<close>

definition network_start ::
    "file_system \<Rightarrow> int \<Rightarrow> client_subject \<Rightarrow> network \<Rightarrow> bool" where
  "network_start fs t0 subj v \<longleftrightarrow>
     initial fs t0 subj (host v) \<and> outgoing v = [] \<and> incoming v = [] \<and> received v = []"

definition network_inv ::
    "bool option \<Rightarrow> int \<Rightarrow> client_subject \<Rightarrow> string \<Rightarrow> network \<Rightarrow> bool" where
  "network_inv ret t0 subj contents v \<longleftrightarrow>
     (\<exists>y A S. configured subj y \<and>
        network_rel ret t0 (file_packets (getPacket_size subj) contents)
          (nat (getMax_seq_number subj)) A S y v)"

lemma network_start_inv:
  assumes good: "good_subject subj" and cont: "readable fs subj contents"
    and start: "network_start fs t0 subj v"
  shows "network_inv ret t0 subj contents v"
proof -
  obtain y where y: "host v = Inr y" "configured subj y"
    "system_rel ret t0 (file_packets (getPacket_size subj) contents) 0 0 0 y"
    using initial_rel [OF good cont, of t0 "host v" ret] start
    unfolding network_start_def by blast
  then show ?thesis
    using start
    by (auto simp: network_inv_def network_rel_def network_start_def configured_def digits_def
        out_ok_def in_ok_def intro!: exI [of _ y] exI [of _ 0] exI [of _ "[]"])
qed

interpretation whole: invariant_system
  "\<lambda>v. good_subject subj \<and> readable fs subj contents \<and> network_start fs t0 subj v"
  "network_step (Some b) t0 (nat (getMax_seq_number subj))"
  "network_inv (Some b) t0 subj contents"
  for fs t0 subj contents b
proof unfold_locales
  fix v v' assume "network_inv (Some b) t0 subj contents v"
    and stp: "network_step (Some b) t0 (nat (getMax_seq_number subj)) v v'"
  then obtain y A S where y: "configured subj y"
    "network_rel (Some b) t0 (file_packets (getPacket_size subj) contents)
      (nat (getMax_seq_number subj)) A S y v"
    by (auto simp: network_inv_def)
  obtain z A' S' where "network_rel (Some b) t0 (file_packets (getPacket_size subj) contents)
      (nat (getMax_seq_number subj)) A' S' z v'"
    and "fst (conf (clientSender z)) = fst (conf (clientSender y))"
    using network_rel_step [OF y(2) _ stp] by blast
  then show "network_inv (Some b) t0 subj contents v'"
    using y(1) by (auto simp: network_inv_def configured_def conf_def)
qed (auto intro: network_start_inv)

end
