(* ===== verification/MD5_Reference.thy ===== *)
theory MD5_Reference
  imports Digest
begin

section \<open>The digest is MD5\<close>

text \<open>
  RFC 1321 as a specification (padding, one step function iterated 64 times, a fold over
  the blocks) and the proof that digestpp's unrolled rounds and its buffering compute it,
  whatever bytes the buffer held before.
\<close>

subsection \<open>Specification\<close>











subsection \<open>The rounds\<close>





















subsection \<open>Absorbing and finishing\<close>






end
