(* ===== verification/SHA.thy ===== *)
theory SHA
  imports Hasher
begin

section \<open>SHA-1 and SHA-2 (sha1_provider.hpp, sha2_provider.hpp)\<close>

text \<open>
  The SHA providers of digestpp, on the buffer of \<open>HashBuffer\<close>: the block transformations
  with their message schedules, the tables, \<open>init\<close> for every output size, and \<open>final\<close>. The
  template \<open>sha2_provider<T, O>\<close> is one set of definitions over the word type; what the
  overloads and specialisations choose by \<open>T\<close> is the record \<open>sha2_functions\<close>.
\<close>

unbundle bit_operations_syntax

subsection \<open>SHA-1\<close>

definition Ch :: "'a::len word \<Rightarrow> 'a word \<Rightarrow> 'a word \<Rightarrow> 'a word" where
  "Ch x y z = (x AND y) XOR (NOT x AND z)"

definition Parity :: "u32 \<Rightarrow> u32 \<Rightarrow> u32 \<Rightarrow> u32" where
  "Parity x y z = x XOR y XOR z"

definition Maj :: "'a::len word \<Rightarrow> 'a word \<Rightarrow> 'a word \<Rightarrow> 'a word" where
  "Maj x y z = (x AND y) XOR (x AND z) XOR (y AND z)"

definition sha1_K :: "u32 list" where
  "sha1_K = [0x5a827999, 0x6ed9eba1, 0x8f1bbcdc, 0xca62c1d6]"

text \<open>The array \<open>W\<close>, filled from index 16 on.\<close>

definition sha1_W_step :: "nat \<Rightarrow> u32 list \<Rightarrow> u32 list" where
  "sha1_W_step t W =
     W @ [rotate_left (W ! (t - 3) XOR W ! (t - 8) XOR W ! (t - 14) XOR W ! (t - 16)) 1]"

definition sha1_schedule :: "u32 list \<Rightarrow> u32 list" where
  "sha1_schedule M = fold sha1_W_step [16..<80] M"

text \<open>
  One round. The code keeps the current function and constant in variables, and changes
  them at the end of the rounds 19, 39 and 59.
\<close>

type_synonym sha1_regs = "u32 \<times> u32 \<times> u32 \<times> u32 \<times> u32"
type_synonym sha1_choice = "u32 \<times> (u32 \<Rightarrow> u32 \<Rightarrow> u32 \<Rightarrow> u32)"

definition sha1_switch :: "nat \<Rightarrow> sha1_choice \<Rightarrow> sha1_choice" where
  "sha1_switch t Kf =
     (if t = 19 then (sha1_K ! 1, Parity)
      else if t = 39 then (sha1_K ! 2, Maj)
      else if t = 59 then (sha1_K ! 3, Parity)
      else Kf)"

definition sha1_round :: "u32 list \<Rightarrow> nat \<Rightarrow> sha1_regs \<times> sha1_choice \<Rightarrow> sha1_regs \<times> sha1_choice" where
  "sha1_round W t = (\<lambda>((a, b, c, d, e), (K, f)).
     (let T = rotate_left a 5 + f b c d + e + K + W ! t
      in ((T, a, rotate_left b 30, c, d), sha1_switch t (K, f))))"

definition sha1_block :: "u8 list \<Rightarrow> sha1_regs \<Rightarrow> sha1_regs" where
  "sha1_block blk H =
     (let M = map byteswap32 (le_words blk);
          W = sha1_schedule M;
          ((a, b, c, d, e), _) = fold (sha1_round W) [0..<80] (H, (sha1_K ! 0, Ch));
          (h0, h1, h2, h3, h4) = H
      in (h0 + a, h1 + b, h2 + c, h3 + d, h4 + e))"

definition sha1_transform :: "u8 list \<Rightarrow> nat \<Rightarrow> sha1_regs \<Rightarrow> sha1_regs" where
  "sha1_transform = transform_blocks 64 sha1_block"

definition sha1_init :: "u8 list \<Rightarrow> sha1_regs provider" where
  "sha1_init m0 =
     \<lparr>prov_H = (0x67452301, 0xefcdab89, 0x98badcfe, 0x10325476, 0xc3d2e1f0),
      prov_m = m0, prov_pos = 0, prov_total = 0\<rparr>"

definition sha1_update :: "u8 list \<Rightarrow> sha1_regs provider \<Rightarrow> sha1_regs provider" where
  "sha1_update data p = absorb_bytes 64 64 sha1_transform data p"

text \<open>The length goes into the block swapped, as the words of the digest do.\<close>

definition swapped_length :: "u64 \<Rightarrow> u8 list" where
  "swapped_length n = le_bytes64 (byteswap64 n)"

lemma length_swapped_length [simp]: "length (swapped_length n) = 8"
  by (simp add: swapped_length_def)

definition sha1_final :: "sha1_regs provider \<Rightarrow> u8 list" where
  "sha1_final p =
     (let (h0, h1, h2, h3, h4) = finish_blocks 64 56 56 sha1_transform swapped_length p
      in concat (map (\<lambda>h. le_bytes32 (byteswap32 h)) [h0, h1, h2, h3, h4]))"

definition sha1_clear :: "sha1_regs provider \<Rightarrow> sha1_regs provider" where
  "sha1_clear p = p\<lparr>prov_H := (0, 0, 0, 0, 0), prov_m := zero_memory (prov_m p)\<rparr>"

interpretation sha1_blocks: block_hash 64 56 56 sha1_block swapped_length
  by unfold_locales simp_all

subsection \<open>The functions of SHA-2\<close>

definition sum0_64 :: "u64 \<Rightarrow> u64" where
  "sum0_64 x = rotate_right64 x 28 XOR rotate_right64 x 34 XOR rotate_right64 x 39"

definition sum1_64 :: "u64 \<Rightarrow> u64" where
  "sum1_64 x = rotate_right64 x 14 XOR rotate_right64 x 18 XOR rotate_right64 x 41"

definition sigma0_64 :: "u64 \<Rightarrow> u64" where
  "sigma0_64 x = rotate_right64 x 1 XOR rotate_right64 x 8 XOR drop_bit 7 x"

definition sigma1_64 :: "u64 \<Rightarrow> u64" where
  "sigma1_64 x = rotate_right64 x 19 XOR rotate_right64 x 61 XOR drop_bit 6 x"

definition sum0_32 :: "u32 \<Rightarrow> u32" where
  "sum0_32 x = rotate_right x 2 XOR rotate_right x 13 XOR rotate_right x 22"

definition sum1_32 :: "u32 \<Rightarrow> u32" where
  "sum1_32 x = rotate_right x 6 XOR rotate_right x 11 XOR rotate_right x 25"

definition sigma0_32 :: "u32 \<Rightarrow> u32" where
  "sigma0_32 x = rotate_right x 7 XOR rotate_right x 18 XOR drop_bit 3 x"

definition sigma1_32 :: "u32 \<Rightarrow> u32" where
  "sigma1_32 x = rotate_right x 17 XOR rotate_right x 19 XOR drop_bit 10 x"

definition sha512_K :: "u64 list" where
  "sha512_K =
     [0x428a2f98d728ae22, 0x7137449123ef65cd, 0xb5c0fbcfec4d3b2f, 0xe9b5dba58189dbbc] @
     [0x3956c25bf348b538, 0x59f111f1b605d019, 0x923f82a4af194f9b, 0xab1c5ed5da6d8118] @
     [0xd807aa98a3030242, 0x12835b0145706fbe, 0x243185be4ee4b28c, 0x550c7dc3d5ffb4e2] @
     [0x72be5d74f27b896f, 0x80deb1fe3b1696b1, 0x9bdc06a725c71235, 0xc19bf174cf692694] @
     [0xe49b69c19ef14ad2, 0xefbe4786384f25e3, 0x0fc19dc68b8cd5b5, 0x240ca1cc77ac9c65] @
     [0x2de92c6f592b0275, 0x4a7484aa6ea6e483, 0x5cb0a9dcbd41fbd4, 0x76f988da831153b5] @
     [0x983e5152ee66dfab, 0xa831c66d2db43210, 0xb00327c898fb213f, 0xbf597fc7beef0ee4] @
     [0xc6e00bf33da88fc2, 0xd5a79147930aa725, 0x06ca6351e003826f, 0x142929670a0e6e70] @
     [0x27b70a8546d22ffc, 0x2e1b21385c26c926, 0x4d2c6dfc5ac42aed, 0x53380d139d95b3df] @
     [0x650a73548baf63de, 0x766a0abb3c77b2a8, 0x81c2c92e47edaee6, 0x92722c851482353b] @
     [0xa2bfe8a14cf10364, 0xa81a664bbc423001, 0xc24b8b70d0f89791, 0xc76c51a30654be30] @
     [0xd192e819d6ef5218, 0xd69906245565a910, 0xf40e35855771202a, 0x106aa07032bbd1b8] @
     [0x19a4c116b8d2d0c8, 0x1e376c085141ab53, 0x2748774cdf8eeb99, 0x34b0bcb5e19b48a8] @
     [0x391c0cb3c5c95a63, 0x4ed8aa4ae3418acb, 0x5b9cca4f7763e373, 0x682e6ff3d6b2b8a3] @
     [0x748f82ee5defb2fc, 0x78a5636f43172f60, 0x84c87814a1f0ab72, 0x8cc702081a6439ec] @
     [0x90befffa23631e28, 0xa4506cebde82bde9, 0xbef9a3f7b2c67915, 0xc67178f2e372532b] @
     [0xca273eceea26619c, 0xd186b8c721c0c207, 0xeada7dd6cde0eb1e, 0xf57d4f7fee6ed178] @
     [0x06f067aa72176fba, 0x0a637dc5a2c898a6, 0x113f9804bef90dae, 0x1b710b35131c471b] @
     [0x28db77f523047d84, 0x32caab7b40c72493, 0x3c9ebe0a15c9bebc, 0x431d67c49c100d4c] @
     [0x4cc5d4becb3e42b6, 0x597f299cfc657e2a, 0x5fcb6fab3ad6faec, 0x6c44198c4a475817]"

definition sha256_K :: "u32 list" where
  "sha256_K =
     [0x428a2f98, 0x71374491, 0xb5c0fbcf, 0xe9b5dba5, 0x3956c25b, 0x59f111f1, 0x923f82a4, 0xab1c5ed5] @
     [0xd807aa98, 0x12835b01, 0x243185be, 0x550c7dc3, 0x72be5d74, 0x80deb1fe, 0x9bdc06a7, 0xc19bf174] @
     [0xe49b69c1, 0xefbe4786, 0x0fc19dc6, 0x240ca1cc, 0x2de92c6f, 0x4a7484aa, 0x5cb0a9dc, 0x76f988da] @
     [0x983e5152, 0xa831c66d, 0xb00327c8, 0xbf597fc7, 0xc6e00bf3, 0xd5a79147, 0x06ca6351, 0x14292967] @
     [0x27b70a85, 0x2e1b2138, 0x4d2c6dfc, 0x53380d13, 0x650a7354, 0x766a0abb, 0x81c2c92e, 0x92722c85] @
     [0xa2bfe8a1, 0xa81a664b, 0xc24b8b70, 0xc76c51a3, 0xd192e819, 0xd6990624, 0xf40e3585, 0x106aa070] @
     [0x19a4c116, 0x1e376c08, 0x2748774c, 0x34b0bcb5, 0x391c0cb3, 0x4ed8aa4a, 0x5b9cca4f, 0x682e6ff3] @
     [0x748f82ee, 0x78a5636f, 0x84c87814, 0x8cc70208, 0x90befffa, 0xa4506ceb, 0xbef9a3f7, 0xc67178f2]"

text \<open>
  What depends on the word type \<open>T\<close>: the functions, the table \<open>getK\<close> reads, the words of a
  block and of the digest in memory, \<open>N\<close> and the rounds.
\<close>

record 'w sha2_functions =
  sum0 :: "'w \<Rightarrow> 'w"
  sum1 :: "'w \<Rightarrow> 'w"
  sigma0 :: "'w \<Rightarrow> 'w"
  sigma1 :: "'w \<Rightarrow> 'w"
  K_table :: "'w list"
  reads :: "u8 list \<Rightarrow> 'w list"
  swaps :: "'w \<Rightarrow> 'w"
  writes :: "'w \<Rightarrow> u8 list"
  N_bits :: nat

definition sha2_32 :: "u32 sha2_functions" where
  "sha2_32 = \<lparr>sum0 = sum0_32, sum1 = sum1_32, sigma0 = sigma0_32, sigma1 = sigma1_32,
     K_table = sha256_K, reads = le_words, swaps = byteswap32, writes = le_bytes32, N_bits = 256\<rparr>"

definition sha2_64 :: "u64 sha2_functions" where
  "sha2_64 = \<lparr>sum0 = sum0_64, sum1 = sum1_64, sigma0 = sigma0_64, sigma1 = sigma1_64,
     K_table = sha512_K, reads = le_words64, swaps = byteswap64, writes = le_bytes64, N_bits = 512\<rparr>"

definition getK :: "'w sha2_functions \<Rightarrow> nat \<Rightarrow> 'w" where
  "getK T t = K_table T ! t"

definition sha2_rounds :: "'w sha2_functions \<Rightarrow> nat" where
  "sha2_rounds T = (if N_bits T = 512 then 80 else 64)"

subsection \<open>The block transformation of SHA-2\<close>

definition sha2_W_step :: "'a::len word sha2_functions \<Rightarrow> nat \<Rightarrow> 'a word list \<Rightarrow> 'a word list" where
  "sha2_W_step T t W =
     W @ [sigma1 T (W ! (t - 2)) + W ! (t - 7) + sigma0 T (W ! (t - 15)) + W ! (t - 16)]"

definition sha2_schedule :: "'a::len word sha2_functions \<Rightarrow> 'a word list \<Rightarrow> 'a word list" where
  "sha2_schedule T M = fold (sha2_W_step T) [16..<sha2_rounds T] M"

type_synonym 'w sha2_regs = "'w \<times> 'w \<times> 'w \<times> 'w \<times> 'w \<times> 'w \<times> 'w \<times> 'w"

definition sha2_round ::
    "'a::len word sha2_functions \<Rightarrow> 'a word list \<Rightarrow> nat \<Rightarrow> 'a word sha2_regs \<Rightarrow> 'a word sha2_regs"
  where
  "sha2_round T W t = (\<lambda>(a, b, c, d, e, f, g, h).
     (let T1 = h + sum1 T e + Ch e f g + getK T t + W ! t;
          T2 = sum0 T a + Maj a b c
      in (T1 + T2, a, b, c, d + T1, e, f, g)))"

definition sha2_block ::
    "'a::len word sha2_functions \<Rightarrow> u8 list \<Rightarrow> 'a word sha2_regs \<Rightarrow> 'a word sha2_regs" where
  "sha2_block T blk H =
     (let M = map (swaps T) (reads T blk);
          W = sha2_schedule T M;
          (a, b, c, d, e, f, g, h) = fold (sha2_round T W) [0..<sha2_rounds T] H;
          (h0, h1, h2, h3, h4, h5, h6, h7) = H
      in (h0 + a, h1 + b, h2 + c, h3 + d, h4 + e, h5 + f, h6 + g, h7 + h))"

definition sha2_transform ::
    "'a::len word sha2_functions \<Rightarrow> u8 list \<Rightarrow> nat \<Rightarrow> 'a word sha2_regs \<Rightarrow> 'a word sha2_regs" where
  "sha2_transform T = transform_blocks (N_bits T div 4) (sha2_block T)"

interpretation sha2_32_blocks: block_hash 64 56 64 "sha2_block sha2_32" swapped_length
  by unfold_locales simp_all

interpretation sha2_64_blocks: block_hash 128 112 128 "sha2_block sha2_64" swapped_length
  by unfold_locales simp_all

subsection \<open>The provider of SHA-2\<close>

definition sha2_update ::
    "'a::len word sha2_functions \<Rightarrow> u8 list \<Rightarrow> 'a word sha2_regs provider \<Rightarrow> 'a word sha2_regs provider"
  where
  "sha2_update T data p =
     absorb_bytes (N_bits T div 4) (N_bits T div 4) (sha2_transform T) data p"

text \<open>The chaining value \<open>final\<close> leaves behind, before and after its words are swapped.\<close>

definition sha2_finish ::
    "'a::len word sha2_functions \<Rightarrow> 'a word sha2_regs provider \<Rightarrow> 'a word sha2_regs" where
  "sha2_finish T p =
     finish_blocks (N_bits T div 4) (N_bits T div 4 - 2 * (N_bits T div 64)) (N_bits T div 4)
       (sha2_transform T) swapped_length p"

definition map_regs :: "('w \<Rightarrow> 'v) \<Rightarrow> 'w sha2_regs \<Rightarrow> 'v sha2_regs" where
  "map_regs u = (\<lambda>(a, b, c, d, e, f, g, h). (u a, u b, u c, u d, u e, u f, u g, u h))"

definition regs_list :: "'w sha2_regs \<Rightarrow> 'w list" where
  "regs_list = (\<lambda>(a, b, c, d, e, f, g, h). [a, b, c, d, e, f, g, h])"

definition sha2_final ::
    "'a::len word sha2_functions \<Rightarrow> nat \<Rightarrow> 'a word sha2_regs provider \<Rightarrow> u8 list" where
  "sha2_final T hs p =
     take (hs div 8) (concat (map (writes T) (regs_list (map_regs (swaps T) (sha2_finish T p)))))"

definition sha2_clear :: "'a::len word sha2_regs provider \<Rightarrow> 'a word sha2_regs provider" where
  "sha2_clear p = p\<lparr>prov_H := map_regs (\<lambda>_. 0) (prov_H p), prov_m := zero_memory (prov_m p)\<rparr>"

subsection \<open>Initial values\<close>

definition sha224_init :: "u8 list \<Rightarrow> u32 sha2_regs provider" where
  "sha224_init m0 =
     \<lparr>prov_H = (0xc1059ed8, 0x367cd507, 0x3070dd17, 0xf70e5939,
        0xffc00b31, 0x68581511, 0x64f98fa7, 0xbefa4fa4),
      prov_m = m0, prov_pos = 0, prov_total = 0\<rparr>"

definition sha256_init :: "u8 list \<Rightarrow> u32 sha2_regs provider" where
  "sha256_init m0 =
     \<lparr>prov_H = (0x6a09e667, 0xbb67ae85, 0x3c6ef372, 0xa54ff53a,
        0x510e527f, 0x9b05688c, 0x1f83d9ab, 0x5be0cd19),
      prov_m = m0, prov_pos = 0, prov_total = 0\<rparr>"

text \<open>
  With 64-bit words \<open>init\<close> has the values for the sizes 224, 256, 384 and 512 and computes
  those of every other: it hashes the name of the function, with every word of the values
  for 512 changed by a mask.
\<close>

definition sha512_H :: "u64 sha2_regs" where
  "sha512_H = (0x6a09e667f3bcc908, 0xbb67ae8584caa73b, 0x3c6ef372fe94f82b, 0xa54ff53a5f1d36f1,
     0x510e527fade682d1, 0x9b05688c2b3e6c1f, 0x1f83d9abfb41bd6b, 0x5be0cd19137e2179)"

definition sha384_H :: "u64 sha2_regs" where
  "sha384_H = (0xcbbb9d5dc1059ed8, 0x629a292a367cd507, 0x9159015a3070dd17, 0x152fecd8f70e5939,
     0x67332667ffc00b31, 0x8eb44a8768581511, 0xdb0c2e0d64f98fa7, 0x47b5481dbefa4fa4)"

definition sha512_224_H :: "u64 sha2_regs" where
  "sha512_224_H = (0x8C3D37C819544DA2, 0x73E1996689DCD4D6, 0x1DFAB7AE32FF9C82, 0x679DD514582F9FCF,
     0x0F6D2B697BD44DA8, 0x77E36F7304C48942, 0x3F9D85A86A1D36C8, 0x1112E6AD91D692A1)"

definition sha512_256_H :: "u64 sha2_regs" where
  "sha512_256_H = (0x22312194FC2BF72C, 0x9F555FA3C84C64C2, 0x2393B86B6F53B151, 0x963877195940EABD,
     0x96283EE2A88EFFE3, 0xBE5E1E2553863992, 0x2B0199FC2C85B8AA, 0x0EB72DDC81C52CA2)"

definition sha512_generate :: "nat \<Rightarrow> u64 sha2_regs provider \<Rightarrow> u64 sha2_regs provider" where
  "sha512_generate hs p =
     (let p = p\<lparr>prov_H := map_regs (\<lambda>h. h XOR 0xa5a5a5a5a5a5a5a5) (prov_H p)\<rparr>;
          p = sha2_update sha2_64 (str_bytes (''SHA-512/'' @ to_string (int hs))) p;
          H = map_regs byteswap64 (sha2_finish sha2_64 p)
      in \<lparr>prov_H = map_regs byteswap64 H, prov_m = finish_buffer 128 112 128 swapped_length p,
          prov_pos = 0, prov_total = 0\<rparr>)"

definition sha512_init :: "nat \<Rightarrow> u8 list \<Rightarrow> u64 sha2_regs provider" where
  "sha512_init hs m0 =
     (let p = (\<lambda>H. \<lparr>prov_H = H, prov_m = m0, prov_pos = 0, prov_total = 0\<rparr>)
      in if hs = 224 then p sha512_224_H
         else if hs = 256 then p sha512_256_H
         else if hs = 384 then p sha384_H
         else if hs = 512 then p sha512_H
         else sha512_generate hs (p sha512_H))"

subsection \<open>Sizes\<close>

text \<open>
  Both checks of \<open>validate_hash_size.hpp\<close>. The first tests the pointer \<open>std::find\<close> returns,
  not whether it is the end of the list; the pointer is null at most for an empty list, so
  every size but zero is accepted.
\<close>

definition validate_hash_size_in :: "nat \<Rightarrow> nat list \<Rightarrow> unit res" where
  "validate_hash_size_in hs sizes =
     (if hs = 0 then Inl (Throws (Runtime_error ''hash size can't be zero''))
      else if sizes \<noteq> [] then Inr ()
      else Inl (Throws (Runtime_error ''invalid hash size'')))"

definition validate_hash_size :: "nat \<Rightarrow> nat \<Rightarrow> unit res" where
  "validate_hash_size hs maximum =
     (if hs = 0 then Inl (Throws (Runtime_error ''hash size can't be zero''))
      else if hs mod 8 \<noteq> 0
      then Inl (Throws (Runtime_error ''non-byte hash sizes are not supported''))
      else if maximum < hs then Inl (Throws (Runtime_error ''invalid hash size''))
      else Inr ())"

text \<open>The constructor of SHA-512/t.\<close>

definition new_sha512 :: "nat \<Rightarrow> u8 list \<Rightarrow> u64 sha2_regs provider res" where
  "new_sha512 hashsize m0 =
     (case validate_hash_size hashsize 512 of
        Inl e \<Rightarrow> Inl e
      | Inr _ \<Rightarrow> Inr (sha512_init hashsize m0))"

end
