(* ===== verification/SHA_Constants.thy ===== *)
theory SHA_Constants
  imports SHA
begin

section \<open>Where the numbers of SHA-2 come from\<close>

text \<open>
  The tables and initial values of \<open>sha2_constants.hpp\<close> and \<open>sha2_provider.hpp\<close> against
  their definition in FIPS 180-4: leading bits of the fractional parts of roots of primes.
  A wrong digit in a table is a digest that no test of the buffering would show.
\<close>

definition first_primes :: "int list" where
  "first_primes = [
     2, 3, 5, 7, 11, 13, 17, 19, 23, 29, 31, 37, 41, 43, 47, 53, 59, 61, 67, 71,
     73, 79, 83, 89, 97, 101, 103, 107, 109, 113, 127, 131, 137, 139, 149, 151, 157, 163, 167, 173,
     179, 181, 191, 193, 197, 199, 211, 223, 227, 229, 233, 239, 241, 251, 257, 263, 269, 271, 277, 281,
     283, 293, 307, 311, 313, 317, 331, 337, 347, 349, 353, 359, 367, 373, 379, 383, 389, 397, 401, 409]"

text \<open>
  \<open>k\<close> is the number in the first \<open>w\<close> bits of the fractional part of the \<open>n\<close>th root of \<open>p\<close>,
  whose whole part is below 8 for the primes here: with the whole part \<open>q\<close>, the number
  \<open>q + k / 2 ^ w\<close> is the root rounded down.
\<close>

definition whole_root :: "nat \<Rightarrow> int \<Rightarrow> int" where
  "whole_root n p = sum_list (map (\<lambda>j. if j ^ n \<le> p then 1 else 0) [1, 2, 3, 4, 5, 6, 7])"

definition root_fraction :: "nat \<Rightarrow> nat \<Rightarrow> int \<Rightarrow> int \<Rightarrow> bool" where
  "root_fraction n w p k \<longleftrightarrow>
     (let r = whole_root n p * 2 ^ w + k
      in 0 \<le> k \<and> k < 2 ^ w \<and> r ^ n \<le> p * 2 ^ (w * n) \<and> p * 2 ^ (w * n) < (r + 1) ^ n)"

definition root_fractions :: "nat \<Rightarrow> int list \<Rightarrow> 'a::len word list \<Rightarrow> bool" where
  "root_fractions n ps ks = list_all2 (\<lambda>p k. root_fraction n LENGTH('a) p (uint k)) ps ks"

lemma root_fractions_append:
  "root_fractions n ps ks \<Longrightarrow> root_fractions n ps' ks' \<Longrightarrow> root_fractions n (ps @ ps') (ks @ ks')"
  by (simp add: root_fractions_def list_all2_appendI)

lemma root_fractions_split:
  assumes "root_fractions n (take i ps) (take i ks)" and "root_fractions n (drop i ps) (drop i ks)"
  shows "root_fractions n ps ks"
  using root_fractions_append [OF assms] by simp

lemmas evaluate_roots = root_fractions_def root_fraction_def whole_root_def first_primes_def

subsection \<open>The tables, in parts\<close>

lemma sha256_K_1: "root_fractions 3 (take 32 first_primes) (take 32 sha256_K)"
  by (simp add: sha256_K_def evaluate_roots)

lemma sha256_K_2: "root_fractions 3 (drop 32 (take 64 first_primes)) (drop 32 sha256_K)"
  by (simp add: sha256_K_def evaluate_roots)

lemma sha512_K_1: "root_fractions 3 (take 16 first_primes) (take 16 sha512_K)"
  by (simp add: sha512_K_def evaluate_roots)

lemma sha512_K_2: "root_fractions 3 (take 16 (drop 16 first_primes)) (take 16 (drop 16 sha512_K))"
  by (simp add: sha512_K_def evaluate_roots)

lemma sha512_K_3: "root_fractions 3 (take 16 (drop 32 first_primes)) (take 16 (drop 32 sha512_K))"
  by (simp add: sha512_K_def evaluate_roots)

lemma sha512_K_4: "root_fractions 3 (take 16 (drop 48 first_primes)) (take 16 (drop 48 sha512_K))"
  by (simp add: sha512_K_def evaluate_roots)

lemma sha512_K_5: "root_fractions 3 (drop 64 first_primes) (drop 64 sha512_K)"
  by (simp add: sha512_K_def evaluate_roots)

lemma sha256_K_roots: "root_fractions 3 (take 64 first_primes) sha256_K"
  by (rule root_fractions_split [of _ 32])
    (use sha256_K_1 sha256_K_2 in \<open>simp_all add: min_def del: take_Cons_numeral\<close>)

lemma sha512_K_roots: "root_fractions 3 first_primes sha512_K"
proof -
  have drops: "drop 16 (drop m xs) = drop (m + 16) xs" for m and xs :: "'b list"
    by (simp add: add.commute)
  have "root_fractions 3 (drop 48 first_primes) (drop 48 sha512_K)"
    by (rule root_fractions_split [OF sha512_K_4]) (simp only: drops, simp add: sha512_K_5)
  then have "root_fractions 3 (drop 32 first_primes) (drop 32 sha512_K)"
    by (intro root_fractions_split [OF sha512_K_3]) (simp only: drops, simp)
  then have "root_fractions 3 (drop 16 first_primes) (drop 16 sha512_K)"
    by (intro root_fractions_split [OF sha512_K_2]) (simp only: drops, simp)
  then show ?thesis by (rule root_fractions_split [OF sha512_K_1])
qed

lemma sha2_constants:
  "root_fractions 3 (take 64 first_primes) sha256_K \<and>
   root_fractions 3 first_primes sha512_K \<and>
   root_fractions 2 (take 8 first_primes) (regs_list (prov_H (sha256_init m0))) \<and>
   root_fractions 2 (take 8 first_primes) (regs_list sha512_H) \<and>
   root_fractions 2 (take 8 (drop 8 first_primes)) (regs_list sha384_H) \<and>
   prov_H (sha224_init m0) = map_regs ucast sha384_H"
proof (intro conjI sha256_K_roots sha512_K_roots)
  show "root_fractions 2 (take 8 first_primes) (regs_list (prov_H (sha256_init m0)))"
    by (simp add: evaluate_roots sha256_init_def regs_list_def)
  show "root_fractions 2 (take 8 first_primes) (regs_list sha512_H)"
    by (simp add: evaluate_roots sha512_H_def regs_list_def)
  show "root_fractions 2 (take 8 (drop 8 first_primes)) (regs_list sha384_H)"
    by (simp add: evaluate_roots sha384_H_def regs_list_def)
  show "prov_H (sha224_init m0) = map_regs ucast sha384_H"
    by (simp add: sha224_init_def sha384_H_def map_regs_def)
qed

end
