(* ===== verification/HashWords.thy ===== *)
theory HashWords
  imports HashBuffer
begin

section \<open>Words and their bytes\<close>

text \<open>
  What the word functions of \<open>functions.hpp\<close> and the readings of memory compute: the rotations
  are the library's, words are read little-endian, and swapping the bytes of such a word
  gives the big-endian reading that the standards use. Bytes of a word are numbered from
  the least significant.
\<close>

unbundle bit_operations_syntax

subsection \<open>Readings\<close>

definition byte :: "nat \<Rightarrow> 'a::len word \<Rightarrow> u8" where
  "byte i w = ucast (drop_bit (8 * i) w)"

fun le_word :: "u8 list \<Rightarrow> 'a::len word" where
  "le_word [] = 0"
| "le_word (b # bs) = ucast b OR push_bit 8 (le_word bs)"

definition be_word :: "u8 list \<Rightarrow> 'a::len word" where
  "be_word bs = foldl (\<lambda>w b. push_bit 8 w OR ucast b) 0 bs"

text \<open>Both readings in terms of bits and bytes.\<close>

lemma be_word_rev: "be_word bs = le_word (rev bs)"
proof -
  have "le_word bs = foldr (\<lambda>b w. push_bit 8 w OR ucast b) bs (0 :: 'a word)" for bs
    by (induction bs) (simp_all add: or.commute)
  then show ?thesis by (simp add: be_word_def foldl_conv_foldr)
qed

lemma bit_byte: "bit b n \<Longrightarrow> n < 8" for b :: u8
  using bit_imp_le_length by fastforce

lemma bit_le_word:
  "bit (le_word bs :: 'a::len word) n \<longleftrightarrow>
     n < LENGTH('a) \<and> n < 8 * length bs \<and> bit (bs ! (n div 8)) (n mod 8)"
proof (induction bs arbitrary: n)
  case (Cons b bs)
  show ?case
  proof (cases "n < 8")
    case True then show ?thesis by (auto simp: bit_simps)
  next
    case False
    then have "n div 8 = Suc ((n - 8) div 8)" "(n - 8) mod 8 = n mod 8"
      by (simp_all add: le_div_geq le_mod_geq)
    with False Cons [of "n - 8"] show ?thesis by (auto simp: bit_simps dest: bit_byte)
  qed
qed simp

lemma byte_le_word:
  assumes "i < length bs" and "8 * length bs \<le> LENGTH('a)"
  shows "byte i (le_word bs :: 'a::len word) = bs ! i"
proof (rule bit_word_eqI)
  fix n assume "n < LENGTH(8)"
  then have n: "n < 8" by simp
  have "(8 * i + n) div 8 = i" "(8 * i + n) mod 8 = n" using n by simp_all
  moreover have "8 * i + n < 8 * length bs" using assms(1) n by linarith
  ultimately show "bit (byte i (le_word bs :: 'a word)) n = bit (bs ! i) n"
    using assms n by (simp add: byte_def bit_simps bit_le_word)
qed

lemma le_word_bytes:
  assumes "LENGTH('a) = 8 * k"
  shows "le_word (map (\<lambda>i. byte i w) [0..<k]) = (w :: 'a::len word)"
proof (rule bit_word_eqI)
  fix n assume n: "n < LENGTH('a)"
  then have "n div 8 < k" using assms by linarith
  moreover have "8 * (n div 8) + n mod 8 = n" by simp
  ultimately show "bit (le_word (map (\<lambda>i. byte i w) [0..<k]) :: 'a word) n = bit w n"
    using n assms by (simp add: bit_le_word byte_def bit_simps)
qed

subsection \<open>Swapping\<close>

text \<open>One masked and shifted byte of a swap.\<close>

lemma swap_down:
  "i \<le> j \<Longrightarrow> drop_bit (8 * (j - i)) (w AND push_bit (8 * j) (mask 8)) =
     push_bit (8 * i) (ucast (byte j w))"
  for w :: "'a::len word"
proof (rule bit_word_eqI)
  fix n assume "i \<le> j"
  then have "8 * i \<le> n \<Longrightarrow> 8 * j + n - 8 * i = 8 * (j - i) + n"
    "8 * (j - i) + n - 8 * j = n - 8 * i" "8 * j \<le> 8 * (j - i) + n \<longleftrightarrow> 8 * i \<le> n" by auto
  then show "bit (drop_bit (8 * (j - i)) (w AND push_bit (8 * j) (mask 8))) n =
      bit (push_bit (8 * i) (ucast (byte j w)) :: 'a word) n"
    by (auto simp: bit_simps byte_def dest: bit_imp_le_length)
qed

lemma swap_up:
  "i \<le> j \<Longrightarrow> push_bit (8 * (j - i)) (w AND push_bit (8 * i) (mask 8)) =
     push_bit (8 * j) (ucast (byte i w))"
  for w :: "'a::len word"
proof (rule bit_word_eqI)
  fix n assume "i \<le> j"
  then have "8 * j \<le> n \<Longrightarrow> 8 * i + n - 8 * j = n - 8 * (j - i)"
    "8 * (j - i) \<le> n \<Longrightarrow> n - 8 * (j - i) - 8 * i = n - 8 * j"
    "8 * (j - i) + 8 * i \<le> n \<longleftrightarrow> 8 * j \<le> n"
    "8 * (j - i) \<le> n \<and> 8 * i \<le> n - 8 * (j - i) \<longleftrightarrow> 8 * j \<le> n"
    "n - (8 * (j - i) + 8 * i) = n - 8 * j" by auto
  then show "bit (push_bit (8 * (j - i)) (w AND push_bit (8 * i) (mask 8))) n =
      bit (push_bit (8 * j) (ucast (byte i w)) :: 'a word) n"
    by (auto simp: bit_simps byte_def dest: bit_imp_le_length)
qed

lemma byteswap32_le: "byteswap32 w = le_word [byte 3 w, byte 2 w, byte 1 w, byte 0 w]"
proof -
  have m: "(0xff000000 :: u32) = push_bit (8 * 3) (mask 8)"
    "(0x00ff0000 :: u32) = push_bit (8 * 2) (mask 8)"
    "(0x0000ff00 :: u32) = push_bit (8 * 1) (mask 8)"
    "(0x000000ff :: u32) = push_bit (8 * 0) (mask 8)"
    by (simp_all add: mask_eq_exp_minus_1)
  show ?thesis unfolding byteswap32_def m
    using swap_down [of 0 3 w] swap_down [of 1 2 w] swap_up [of 1 2 w] swap_up [of 0 3 w]
    by (simp add: ac_simps push_bit_or)
qed

lemma byteswap64_le:
  "byteswap64 w = le_word [byte 7 w, byte 6 w, byte 5 w, byte 4 w, byte 3 w, byte 2 w, byte 1 w, byte 0 w]"
proof -
  have m: "(0xff00000000000000 :: u64) = push_bit (8 * 7) (mask 8)"
    "(0x00ff000000000000 :: u64) = push_bit (8 * 6) (mask 8)"
    "(0x0000ff0000000000 :: u64) = push_bit (8 * 5) (mask 8)"
    "(0x000000ff00000000 :: u64) = push_bit (8 * 4) (mask 8)"
    "(0x00000000ff000000 :: u64) = push_bit (8 * 3) (mask 8)"
    "(0x0000000000ff0000 :: u64) = push_bit (8 * 2) (mask 8)"
    "(0x000000000000ff00 :: u64) = push_bit (8 * 1) (mask 8)"
    "(0x00000000000000ff :: u64) = push_bit (8 * 0) (mask 8)"
    by (simp_all add: mask_eq_exp_minus_1)
  show ?thesis unfolding byteswap64_def
    using swap_down [of 0 7 w] swap_down [of 1 6 w] swap_down [of 2 5 w] swap_down [of 3 4 w]
      swap_up [of 3 4 w] swap_up [of 2 5 w] swap_up [of 1 6 w] swap_up [of 0 7 w]
    unfolding m [symmetric]
    by (simp add: ac_simps push_bit_or)
qed

lemma byteswap32_le_word: "byteswap32 (le_word [b0, b1, b2, b3]) = be_word [b0, b1, b2, b3]"
proof -
  have "byte i (le_word [b0, b1, b2, b3] :: u32) = [b0, b1, b2, b3] ! i" if "i < 4" for i
    by (rule byte_le_word) (use that in simp_all)
  from this [of 0] this [of 1] this [of 2] this [of 3] show ?thesis
    by (simp add: byteswap32_le be_word_rev)
qed

lemma byteswap64_le_word:
  "byteswap64 (le_word [b0, b1, b2, b3, b4, b5, b6, b7]) = be_word [b0, b1, b2, b3, b4, b5, b6, b7]"
proof -
  let ?bs = "[b0, b1, b2, b3, b4, b5, b6, b7]"
  have "byte i (le_word ?bs :: u64) = ?bs ! i" if "i < 8" for i
    by (rule byte_le_word) (use that in simp_all)
  from this [of 0] this [of 1] this [of 2] this [of 3] this [of 4] this [of 5] this [of 6] this [of 7]
  show ?thesis by (simp add: byteswap64_le be_word_rev)
qed

text \<open>The bytes of a word, most significant first, and the swapped word in memory.\<close>

definition be_bytes :: "'a::len word \<Rightarrow> u8 list" where
  "be_bytes w = rev (map (\<lambda>i. byte i w) [0..<LENGTH('a) div 8])"

lemma length_be_bytes [simp]: "length (be_bytes (w :: 'a::len word)) = LENGTH('a) div 8"
  by (simp add: be_bytes_def)

lemma le_bytes32_swap: "le_bytes32 (byteswap32 w) = be_bytes w"
proof -
  let ?bs = "[byte 3 w, byte 2 w, byte 1 w, byte 0 w]"
  have "byte i (byteswap32 w) = ?bs ! i" if "i < 4" for i
    unfolding byteswap32_le by (rule byte_le_word) (use that in simp_all)
  from this [of 0] this [of 1] this [of 2] this [of 3] show ?thesis
    by (simp add: le_bytes32_def be_bytes_def byte_def upt_rec)
qed

lemma le_bytes64_swap: "le_bytes64 (byteswap64 w) = be_bytes w"
proof -
  let ?bs = "[byte 7 w, byte 6 w, byte 5 w, byte 4 w, byte 3 w, byte 2 w, byte 1 w, byte 0 w]"
  have "byte i (byteswap64 w) = ?bs ! i" if "i < 8" for i
    unfolding byteswap64_le by (rule byte_le_word) (use that in simp_all)
  from this [of 0] this [of 1] this [of 2] this [of 3] this [of 4] this [of 5] this [of 6] this [of 7]
  show ?thesis by (simp add: le_bytes64_def be_bytes_def byte_def upt_rec)
qed

lemma upt_4: "[0..<4] = [0, 1, 2, 3 :: nat]"
  by code_simp

lemma upt_8: "[0..<8] = [0, 1, 2, 3, 4, 5, 6, 7 :: nat]"
  by code_simp

lemma byteswap32_involution: "byteswap32 (byteswap32 w) = w"
proof -
  have w: "le_word [byte 0 w, byte 1 w, byte 2 w, byte 3 w] = w"
    using le_word_bytes [of 4 w] unfolding upt_4 by (simp del: le_word.simps)
  have "byteswap32 w = be_word [byte 0 w, byte 1 w, byte 2 w, byte 3 w]"
    using byteswap32_le_word [of "byte 0 w" "byte 1 w" "byte 2 w" "byte 3 w"] unfolding w .
  also have "byteswap32 \<dots> = be_word [byte 3 w, byte 2 w, byte 1 w, byte 0 w]"
    by (simp add: be_word_rev byteswap32_le_word [unfolded be_word_rev rev.simps append.simps]
        del: le_word.simps)
  also have "\<dots> = w" using w by (simp add: be_word_rev del: le_word.simps)
  finally show ?thesis .
qed

lemma byteswap64_involution: "byteswap64 (byteswap64 w) = w"
proof -
  let ?b = "\<lambda>i. byte i w"
  have w: "le_word [?b 0, ?b 1, ?b 2, ?b 3, ?b 4, ?b 5, ?b 6, ?b 7] = w"
    using le_word_bytes [of 8 w] unfolding upt_8 by (simp del: le_word.simps)
  have "byteswap64 w = be_word [?b 0, ?b 1, ?b 2, ?b 3, ?b 4, ?b 5, ?b 6, ?b 7]"
    using byteswap64_le_word [of "?b 0" "?b 1" "?b 2" "?b 3" "?b 4" "?b 5" "?b 6" "?b 7"] unfolding w .
  also have "byteswap64 \<dots> = be_word [?b 7, ?b 6, ?b 5, ?b 4, ?b 3, ?b 2, ?b 1, ?b 0]"
    by (simp add: be_word_rev byteswap64_le_word [unfolded be_word_rev rev.simps append.simps]
        del: le_word.simps)
  also have "\<dots> = w" using w by (simp add: be_word_rev del: le_word.simps)
  finally show ?thesis .
qed

subsection \<open>Blocks as big-endian words\<close>

text \<open>A block is read word by word and each word swapped.\<close>

lemma swapped_words32:
  "length bs mod 4 = 0 \<Longrightarrow> map byteswap32 (le_words bs) = map be_word (chunks 4 bs)"
proof (induction bs rule: le_words.induct)
  case (1 b0 b1 b2 b3 bs)
  then have "length bs mod 4 = 0" by simp
  moreover have "chunks 4 (b0 # b1 # b2 # b3 # bs) = [b0, b1, b2, b3] # chunks 4 bs"
    by (subst chunks_step) simp_all
  moreover have "le_words (b0 # b1 # b2 # b3 # bs) = le_word [b0, b1, b2, b3] # le_words bs"
    by (simp add: push_bit_or ac_simps)
  ultimately show ?case using "1.IH" by (simp add: byteswap32_le_word del: le_words.simps le_word.simps)
qed simp_all

lemma swapped_words64:
  "length bs mod 8 = 0 \<Longrightarrow> map byteswap64 (le_words64 bs) = map be_word (chunks 8 bs)"
proof (induction bs rule: le_words64.induct)
  case (1 b0 b1 b2 b3 b4 b5 b6 b7 bs)
  then have "length bs mod 8 = 0" by simp
  moreover have "chunks 8 (b0 # b1 # b2 # b3 # b4 # b5 # b6 # b7 # bs) =
      [b0, b1, b2, b3, b4, b5, b6, b7] # chunks 8 bs"
    by (subst chunks_step) simp_all
  moreover have "le_words64 (b0 # b1 # b2 # b3 # b4 # b5 # b6 # b7 # bs) =
      le_word [b0, b1, b2, b3, b4, b5, b6, b7] # le_words64 bs"
    by (simp add: push_bit_or ac_simps)
  ultimately show ?case using "1.IH" by (simp add: byteswap64_le_word del: le_words64.simps le_word.simps)
qed simp_all

subsection \<open>Rotations\<close>

lemma rotr_shifts:
  "n < LENGTH('a) \<Longrightarrow> word_rotr n x = drop_bit n x OR push_bit (LENGTH('a) - n) x"
  for x :: "'a::len word"
proof (rule bit_word_eqI)
  fix i assume "n < LENGTH('a)" and i: "i < LENGTH('a)"
  then have "(i + n) mod LENGTH('a) = (if i + n < LENGTH('a) then i + n else i - (LENGTH('a) - n))"
    by (simp add: mod_if)
  then show "bit (word_rotr n x) i = bit (drop_bit n x OR push_bit (LENGTH('a) - n) x) i"
    using i by (auto simp: bit_simps ac_simps dest: bit_imp_le_length)
qed

lemma rotl_shifts:
  fixes x :: "'a::len word"
  assumes "n < LENGTH('a)"
  shows "word_rotl n x = push_bit n x OR drop_bit (LENGTH('a) - n) x"
  proof (cases "n = 0")
  case True
  have "drop_bit LENGTH('a) x = 0"
    by (rule bit_word_eqI) (auto simp: bit_simps dest: bit_imp_le_length)
  moreover have "word_rotl 0 x = x" by (rule bit_word_eqI) (simp add: word_rotl_eq_word_rotr bit_word_rotr_iff)
  ultimately show ?thesis using True by (simp only: push_bit_0_id id_apply diff_zero or.right_neutral)
next
  case False
  then show ?thesis using assms by (simp add: word_rotl_eq_word_rotr rotr_shifts or.commute)
qed

lemma rotate_right_rotr: "n < 32 \<Longrightarrow> rotate_right x n = word_rotr n x"
  using rotr_shifts [of n x] by (simp add: rotate_right_def)

lemma rotate_left_rotl: "n < 32 \<Longrightarrow> rotate_left x n = word_rotl n x"
  using rotl_shifts [of n x] by (simp add: rotate_left_def)

lemma rotate_right64_rotr: "n < 64 \<Longrightarrow> rotate_right64 x n = word_rotr n x"
  using rotr_shifts [of n x] by (simp add: rotate_right64_def)

lemma rotate_left64_rotl: "n < 64 \<Longrightarrow> rotate_left64 x n = word_rotl n x"
  using rotl_shifts [of n x] by (simp add: rotate_left64_def)

end
