(* ===== verification/SHA_Reference.thy ===== *)
theory SHA_Reference
  imports SHA_Constants HashWords
begin

section \<open>The digests are SHA-1 and SHA-2\<close>

text \<open>
  FIPS 180-4 as a specification (big-endian words, recursive message schedules, one step
  function with its function and constant given by the round number, the padding with a
  length of 64 or 128 bits) and the proof that the providers compute it, for a message
  absorbed in any pieces, whatever bytes the buffer held before.
\<close>

unbundle bit_operations_syntax

subsection \<open>Specification of SHA-1\<close>










subsection \<open>Specification of SHA-2\<close>


















subsection \<open>Message schedules\<close>






subsection \<open>Rounds and blocks\<close>









subsection \<open>Padding\<close>






subsection \<open>Digests\<close>













end
