(* ===== verification/Waits.thy ===== *)
theory Waits
  imports ClientSystem
begin

section \<open>The waits of the sender (condition variables)\<close>

text \<open>
  In \<open>Client\<close> the waits of \<open>sendPacketReliable\<close> and \<open>sendChunk\<close> are guards. Here they are what
  \<open>condition_variable::wait\<close> does: test the predicate, block when it is false, test again when
  notified. \<open>packet_send_cv\<close> and \<open>chunk_sent_cv\<close> are notified together, at the end of
  \<open>ackedPacket\<close>, which holds neither of their mutexes. The detailed client runs as the
  other does, and can run as the other; but it can sleep for ever.
\<close>

subsection \<open>The model\<close>

text \<open>Between its test and the moment it blocks, the thread holds the mutex of the wait.\<close>

datatype wait_phase = Awake | Falls_asleep | Asleep

type_synonym waiting = "(system \<times> wait_phase) res"

definition wait_over :: "system \<Rightarrow> bool res" where
  "wait_over y = (case sender_at y of
       Sending (d # ds) q \<Rightarrow> canAdvance (clientSender y)
     | Wait_acks q \<Rightarrow> Inr (chunk_acked q (clientSender y))
     | _ \<Rightarrow> Inr True)"

definition notify_waits :: "wait_phase \<Rightarrow> wait_phase" where
  "notify_waits p = (if p = Asleep then Awake else p)"

text \<open>Whether \<open>ackedPacket\<close> gets to its end without a \<open>return\<close>.\<close>

definition acked_notifies :: "int \<Rightarrow> client_sender \<Rightarrow> bool" where
  "acked_notifies k s \<longleftrightarrow>
     (let s = cleanTimers s
      in \<not> finished_sending_data s \<and>
         (case window_get k s of Inl e \<Rightarrow> False | Inr packet \<Rightarrow> \<not> getAcked packet))"

definition acked_waking :: "int \<Rightarrow> system \<times> wait_phase \<Rightarrow> waiting" where
  "acked_waking k = (\<lambda>(y, p).
     rbind (client_ackedPacket k y) (\<lambda>z.
     Inr (z, if acked_notifies k (clientSender y) then notify_waits p else p)))"

definition receiver_waking :: "nat \<Rightarrow> string \<Rightarrow> system \<Rightarrow> wait_phase \<Rightarrow> waiting" where
  "receiver_waking n dg y p =
     rbind (receive_datagram acked_waking (clientReceiver y) n dg (y, p)) (\<lambda>(continue, y, p).
     Inr (if continue then y else y\<lparr>receiver_buffer := None\<rparr>, p))"

definition holds_send_mutex :: "system \<Rightarrow> wait_phase \<Rightarrow> bool" where
  "holds_send_mutex y p \<longleftrightarrow>
     p = Falls_asleep \<and> (case sender_at y of Sending ds q \<Rightarrow> True | _ \<Rightarrow> False)"

definition with_phase :: "wait_phase \<Rightarrow> system res \<Rightarrow> waiting" where
  "with_phase p r = rbind r (\<lambda>y. Inr (y, p))"

text \<open>
  \<open>race\<close>: acknowledgements may come while the sender falls asleep. \<open>spurious\<close>: a wait may
  end without a notification. \<open>timeoutHandler\<close> needs \<open>packet_send_mutex\<close>.
\<close>

inductive waiting_step ::
    "bool \<Rightarrow> bool \<Rightarrow> bool option \<Rightarrow> (system \<Rightarrow> string \<Rightarrow> bool) \<Rightarrow> int \<Rightarrow> waiting \<Rightarrow> waiting \<Rightarrow> bool"
  for race spurious :: bool and ret :: "bool option" and net :: "system \<Rightarrow> string \<Rightarrow> bool" and horizon :: int
where
  wait_start: "sender_at y = Not_started \<Longrightarrow>
    waiting_step race spurious ret net horizon (Inr (y, Awake)) (with_phase Awake (client_start y))"
| wait_chunk: "sender_at y = At_chunk \<Longrightarrow>
    waiting_step race spurious ret net horizon (Inr (y, Awake)) (with_phase Awake (sender_chunk y))"
| wait_send: "sender_at y = Sending (d # ds) q \<Longrightarrow> wait_over y = Inr True \<Longrightarrow>
    waiting_step race spurious ret net horizon (Inr (y, Awake)) (with_phase Awake (sender_send d ds q y))"
| wait_sent: "sender_at y = Sending [] q \<Longrightarrow>
    waiting_step race spurious ret net horizon (Inr (y, Awake)) (Inr (y\<lparr>sender_at := Wait_acks q\<rparr>, Awake))"
| wait_acked: "sender_at y = Wait_acks q \<Longrightarrow> wait_over y = Inr True \<Longrightarrow>
    waiting_step race spurious ret net horizon (Inr (y, Awake)) (with_phase Awake (sendChunk_end ret y))"
| wait_fails: "wait_over y = Inl e \<Longrightarrow>
    waiting_step race spurious ret net horizon (Inr (y, Awake)) (Inl e)"
| wait_test: "wait_over y = Inr False \<Longrightarrow>
    waiting_step race spurious ret net horizon (Inr (y, Awake)) (Inr (y, Falls_asleep))"
| wait_block: "waiting_step race spurious ret net horizon (Inr (y, Falls_asleep)) (Inr (y, Asleep))"
| wait_spurious: "spurious \<Longrightarrow>
    waiting_step race spurious ret net horizon (Inr (y, Asleep)) (Inr (y, Awake))"
| wait_receive: "receiver_buffer y = Some n \<Longrightarrow> net y dg \<Longrightarrow> race \<or> p \<noteq> Falls_asleep \<Longrightarrow>
    waiting_step race spurious ret net horizon (Inr (y, p)) (receiver_waking n dg y p)"
| wait_timer: "i < length (timers (clientSender y)) \<Longrightarrow>
    thread_wait (now (clientSender y)) (timers (clientSender y) ! i) = Some t \<Longrightarrow>
    waiting_step race spurious ret net horizon (Inr (y, p))
      (Inr (y\<lparr>clientSender := put_timer i t (clientSender y)\<rparr>, p))"
| wait_fire: "i < length (timers (clientSender y)) \<Longrightarrow> thread (timers (clientSender y) ! i) = Firing \<Longrightarrow>
    \<not> holds_send_mutex y p \<Longrightarrow> timer_fires i y = Some r \<Longrightarrow>
    waiting_step race spurious ret net horizon (Inr (y, p)) (with_phase p r)"
| wait_tick: "now (clientSender y) \<le> n \<Longrightarrow> n \<le> horizon \<Longrightarrow>
    waiting_step race spurious ret net horizon (Inr (y, p))
      (Inr (y\<lparr>clientSender := (clientSender y)\<lparr>now := n\<rparr>\<rparr>, p))"

inductive_cases waiting_stepE: "waiting_step race spurious ret net horizon (Inr (y, p)) z"
inductive_cases asleep_stepE: "waiting_step race spurious ret net horizon (Inr (y, Asleep)) z"
inductive_simps crashed_wait: "waiting_step race spurious ret net horizon (Inl e) z"

definition waiting_initial ::
    "file_system \<Rightarrow> int \<Rightarrow> client_subject \<Rightarrow> waiting \<Rightarrow> bool" where
  "waiting_initial fs t0 subj x \<longleftrightarrow> (\<exists>x0. initial fs t0 subj x0 \<and> x = with_phase Awake x0)"

subsection \<open>The detailed client runs as the client does\<close>

definition without_phase :: "waiting \<Rightarrow> system res" where
  "without_phase x = rbind x (\<lambda>(y, p). Inr y)"

lemma phase_simps [simp]:
  "without_phase (with_phase p r) = r"
  "without_phase (Inr (y, p)) = Inr y" "without_phase (Inl e) = Inl e"
  "with_phase p (Inr y) = Inr (y, p)" "with_phase p (Inl e) = Inl e"
  by (cases r; simp add: without_phase_def with_phase_def)+

lemma with_phase_Inr: "Inr (y, q) = with_phase p r \<longleftrightarrow> r = Inr y \<and> q = p"
  by (cases r) auto

lemma without_phase_Inr: "without_phase x = Inr y \<longleftrightarrow> (\<exists>p. x = Inr (y, p))"
  by (cases x) (auto simp: without_phase_def)

lemma receiver_waking_view: "without_phase (receiver_waking n dg y p) = receiver_round n dg y"
  by (auto simp: receiver_waking_def receiver_round_def receive_datagram_def acked_waking_def
      without_phase_def rbind_def Let_def split: sum.splits)

lemma waiting_step_view:
  assumes "waiting_step race spurious ret net horizon d e"
  shows "without_phase e = without_phase d \<or> client_step ret net horizon (without_phase d) (without_phase e)"
  using assms
proof (induction rule: waiting_step.induct)
  case (wait_fails y e)
  then obtain d ds q where "sender_at y = Sending (d # ds) q" "canAdvance (clientSender y) = Inl e"
    by (auto simp: wait_over_def split: sender_pc.splits list.splits)
  then show ?case by (auto intro: step_send_fails)
qed (auto simp: wait_over_def receiver_waking_view intro: client_step.intros)

interpretation waits: stuttering_simulation
  "\<lambda>x. good_subject subj \<and> readable fs subj contents \<and> initial fs t0 subj x"
  "client_step ret net horizon"
  "\<lambda>x. good_subject subj \<and> readable fs subj contents \<and> waiting_initial fs t0 subj x"
  "waiting_step race spurious ret net horizon" without_phase
  for fs t0 subj contents ret net horizon race spurious
  by unfold_locales (auto simp: waiting_initial_def dest: waiting_step_view)

text \<open>And as long as it does not sleep, every step of the client is one of its own.\<close>

lemma awake_step:
  assumes "client_step ret net horizon x z"
  shows "waiting_step race spurious ret net horizon (with_phase Awake x) (with_phase Awake z)"
  using assms
proof (induction rule: client_step.induct)
  case (step_receive y n dg)
  have "receiver_waking n dg y Awake = with_phase Awake (receiver_round n dg y)"
    by (auto simp: receiver_waking_def receiver_round_def receive_datagram_def acked_waking_def
        notify_waits_def with_phase_def rbind_def Let_def split: sum.splits)
  then show ?case using wait_receive [of y n net dg race Awake spurious ret horizon] step_receive by simp
next
  case (step_fire i y r)
  then show ?case by (auto simp: holds_send_mutex_def intro!: wait_fire)
next
  case (step_send_fails y d ds q e)
  then show ?case by (auto simp: wait_over_def intro: wait_fails)
qed (auto simp: wait_over_def intro: waiting_step.intros)

lemma awake_run:
  "run (client_step ret net horizon) x z \<Longrightarrow>
     run (waiting_step race spurious ret net horizon) (with_phase Awake x) (with_phase Awake z)"
  by (induction rule: run.induct) (auto intro: run_step awake_step)

subsection \<open>What the thread waits for\<close>

fun waits_done :: "nat \<Rightarrow> nat \<Rightarrow> nat \<Rightarrow> sender_pc \<Rightarrow> bool" where
  "waits_done w A S (Sending (d # ds) q) \<longleftrightarrow> S < A + w"
| "waits_done w A S (Wait_acks q) \<longleftrightarrow> A = S"
| "waits_done w A S pc \<longleftrightarrow> True"

lemma wait_over_rel:
  assumes rel: "system_rel ret t0 P C A S y"
  shows "wait_over y = Inr (waits_done (nat (window_size (clientSender y))) A S (sender_at y))"
proof -
  have srel: "sender_rel t0 P C A S (clientSender y)" using rel by (simp add: system_rel_def)
  then have cnt: "C \<le> A" "A \<le> S" "acked_count (clientSender y) = int A - int C" "S \<le> length P"
    "int (length P) \<le> INT_MAX"
    by (auto simp: sender_rel_def counters_rel_def)
  have "chunk_acked q (clientSender y) \<longleftrightarrow> A = S" if "sender_at y = Wait_acks q" for q
  proof -
    have "0 \<le> acked_count (clientSender y)" "acked_count (clientSender y) \<le> INT_MAX" using cnt by linarith+
    then have "to_size_t (acked_count (clientSender y)) = nat (acked_count (clientSender y))"
      by (intro to_size_t_nonneg) (simp_all add: int_bounds)
    moreover have "S = C + q" using rel that by (simp add: system_rel_def)
    ultimately show ?thesis using cnt by (auto simp: chunk_acked_def getAckedPacketsCount_def)
  qed
  then show ?thesis using canAdvance_window [OF srel]
    by (auto simp: wait_over_def split: sender_pc.split list.split)
qed

text \<open>Of the acknowledgements an ordered channel brings, those of packets in flight notify.\<close>

lemma acked_notifies_iff:
  assumes rel: "sender_rel t0 P C A S s" and k: "plausible_ack s k"
  shows "acked_notifies k s \<longleftrightarrow> in_window s k \<and> \<not> finished_sending_data s"
proof (cases "finished_sending_data s")
  case True
  then show ?thesis by (simp add: acked_notifies_def cleanTimers_def)
next
  case active: False
  define u where "u = cleanTimers s"
  have u: "ring_size u = ring_size s" "finished_sending_data u = finished_sending_data s"
    by (simp_all add: u_def cleanTimers_def)
  have "sender_rel t0 P C A S u" using sender_rel_cleanTimers [OF rel] by (simp add: u_def)
  then have cfg: "sender_cfg u" and win: "window_rel P A S u" by (auto simp: sender_rel_def)
  have slot: "acked_notifies (int (i mod ring_size s)) s \<longleftrightarrow> \<not> acked p"
    if "window_map u ! (i mod ring_size s) = Some p" for i p
    using active window_get_slot [OF cfg, of i p] that u
    by (simp add: acked_notifies_def Let_def u_def [symmetric] getAcked_def)
  show ?thesis
  proof (cases "in_window s k")
    case True
    then obtain i where i: "A \<le> i" "i < S" "k = int (i mod ring_size s)"
      using k in_window_iff [OF rel] by (auto simp: plausible_ack_def)
    then obtain p where "window_map u ! (i mod ring_size s) = Some p" "\<not> acked p"
      using win u by (auto simp: window_rel_def)
    then show ?thesis using slot i(3) True active by simp
  next
    case False
    then have "k = last_acked_packet s" "0 \<le> k" using k active by (auto simp: plausible_ack_def)
    then have "0 < A" "k = int ((A - 1) mod ring_size s)"
      using rel by (auto simp: sender_rel_def counters_rel_def split: if_splits)
    moreover obtain p where "window_map u ! ((A - 1) mod ring_size s) = Some p" "acked p"
      using win u \<open>0 < A\<close> by (auto simp: window_rel_def)
    ultimately show ?thesis using slot False by simp
  qed
qed

text \<open>What the receiver's round does to the sender and its wait.\<close>

definition wake_inv ::
    "bool option \<Rightarrow> int \<Rightarrow> string list \<Rightarrow> nat \<Rightarrow> nat \<Rightarrow> nat \<Rightarrow> system \<Rightarrow> wait_phase \<Rightarrow> system \<times> wait_phase \<Rightarrow> bool"
where
  "wake_inv ret t0 P C A S y p = (\<lambda>(z, q).
     z = y\<lparr>clientSender := clientSender z\<rparr> \<and>
     (\<exists>A'. system_rel ret t0 P C A' S z \<and> (A < A' \<and> A' \<le> S \<and> q = notify_waits p \<or> A' = A \<and> q = p)))"

lemma acked_waking_ok:
  assumes "wake_inv ret t0 P C A S y p (z, q)" and k: "accepts_ack z k"
  shows "\<exists>x. acked_waking k (z, q) = Inr x \<and> wake_inv ret t0 P C A S y p x"
proof -
  obtain A1 where z: "z = y\<lparr>clientSender := clientSender z\<rparr>" and rel: "system_rel ret t0 P C A1 S z"
    and A1: "A < A1 \<and> A1 \<le> S \<and> q = notify_waits p \<or> A1 = A \<and> q = p"
    using assms(1) by (auto simp: wake_inv_def)
  have srel: "sender_rel t0 P C A1 S (clientSender z)" using rel by (simp add: system_rel_def)
  have pl: "plausible_ack (clientSender z) k" using k by (simp add: accepts_ack_def)
  let ?w = "in_window (clientSender z) k \<and> \<not> finished_sending_data (clientSender z)"
  obtain A2 s' where s': "ackedPacket k (clientSender z) = Inr s'" "sender_rel t0 P C A2 S s'"
    "conf s' = conf (clientSender z)" "A1 \<le> A2" "A2 \<le> S" "if ?w then A1 < A2 else A2 = A1"
    using plausible_ack_rel [OF srel pl] by blast
  let ?q = "if ?w then notify_waits q else q"
  have "acked_waking k (z, q) = Inr (z\<lparr>clientSender := s'\<rparr>, ?q)"
    using s'(1) acked_notifies_iff [OF srel pl] by (simp add: acked_waking_def client_ackedPacket_def)
  moreover have "system_rel ret t0 P C A2 S (z\<lparr>clientSender := s'\<rparr>)"
    by (rule system_rel_sender [OF rel s'(3,2,4)])
  moreover have "z\<lparr>clientSender := s'\<rparr> = y\<lparr>clientSender := s'\<rparr>" by (subst z) simp
  moreover have "A < A2 \<and> A2 \<le> S \<and> ?q = notify_waits p \<or> A2 = A \<and> ?q = p"
    using A1 s'(5,6) by (auto simp: notify_waits_def split: if_splits)
  ultimately show ?thesis by (auto simp: wake_inv_def)
qed

interpretation waking: ack_sink acked_waking "wake_inv ret t0 P C A S y p" "\<lambda>(z, q). accepts_ack z"
  for ret t0 P C A S y p
  by unfold_locales (use acked_waking_ok in fastforce)

lemma receiver_waking_rel:
  assumes rel: "system_rel ret t0 P C A S y" and n: "receiver_buffer y = Some n" and net: "ordered_net y dg"
  shows "\<exists>z q A'. receiver_waking n dg y p = Inr (z, q) \<and> system_rel ret t0 P C A' S z \<and>
    sender_at z = sender_at y \<and> (A < A' \<and> A' \<le> S \<and> q = notify_waits p \<or> A' = A \<and> q = p)"
proof -
  have d: "rx_max_seq_number (clientReceiver y) = int (digits (clientSender y))"
    and buf: "digits (clientSender y) + 32 < n"
    using rel n cfg_ring(8) [of "clientSender y"]
    by (auto simp: system_rel_def receiver_ok_def sender_rel_def)
  have inv: "wake_inv ret t0 P C A S y p (y, p)" using rel by (auto simp: wake_inv_def)
  have harm: "harmless (\<lambda>(z, q). accepts_ack z) (digits (clientSender y)) n (y, p) dg"
    using net n d by (auto simp: ordered_net_def harmless_def)
  obtain z q where z: "receive_datagram acked_waking (clientReceiver y) n dg (y, p) = Inr (dg \<noteq> [], z, q)"
    "wake_inv ret t0 P C A S y p (z, q)"
    using waking.receive_harmless [OF inv harm d buf] by auto
  define z' where "z' = (if dg \<noteq> [] then z else z\<lparr>receiver_buffer := None\<rparr>)"
  obtain A' where A': "system_rel ret t0 P C A' S z" and eq: "z = y\<lparr>clientSender := clientSender z\<rparr>"
    and q: "A < A' \<and> A' \<le> S \<and> q = notify_waits p \<or> A' = A \<and> q = p"
    using z(2) by (auto simp: wake_inv_def)
  have "dg = [] \<Longrightarrow> z = y" using z(1) by simp
  then have "system_rel ret t0 P C A' S z'"
    using A' net by (auto simp: z'_def ordered_net_def system_rel_def receiver_ok_def unsent_def loop_data_def)
  moreover have "receiver_waking n dg y p = Inr (z', q)" using z(1) by (simp add: receiver_waking_def z'_def)
  moreover have "sender_at z' = sender_at y" by (subst z'_def, subst eq, subst (2) eq) simp
  ultimately show ?thesis using q by blast
qed

subsection \<open>A wake-up that is lost\<close>

text \<open>When everything sent is acknowledged, nothing can wake the sender any more.\<close>

lemma asleep_step:
  assumes rel: "system_rel ret t0 P C A A y"
    and stp: "waiting_step race False ret ordered_net (t0 + INT_MAX) (Inr (y, Asleep)) d"
  shows "\<exists>z. d = Inr (z, Asleep) \<and> system_rel ret t0 P C A A z \<and> sender_at z = sender_at y"
  using stp
proof (rule asleep_stepE)
  fix n dg assume "d = receiver_waking n dg y Asleep" "receiver_buffer y = Some n" "ordered_net y dg"
  then show ?thesis using receiver_waking_rel [OF rel, of n dg Asleep] by auto
next
  fix i r assume "d = with_phase Asleep r" "timer_fires i y = Some r"
  then show ?thesis using background_rel [OF rel fire_background [OF rel]] by fastforce
next
  fix i t assume "d = Inr (y\<lparr>clientSender := put_timer i t (clientSender y)\<rparr>, Asleep)"
    "i < length (timers (clientSender y))"
    "thread_wait (now (clientSender y)) (timers (clientSender y) ! i) = Some t"
  then show ?thesis using background_rel [OF rel timer_background [OF rel]] by fastforce
next
  fix n assume "d = Inr (y\<lparr>clientSender := clientSender y\<lparr>now := n\<rparr>\<rparr>, Asleep)"
    "now (clientSender y) \<le> n" "n \<le> t0 + INT_MAX"
  then show ?thesis using background_rel [OF rel tick_background [OF rel]] by fastforce
qed simp

lemma asleep_run:
  assumes "run (waiting_step race False ret ordered_net (t0 + INT_MAX)) d e"
    and "d = Inr (y, Asleep)" and "system_rel ret t0 P C A A y"
  shows "\<exists>z. e = Inr (z, Asleep) \<and> sender_at z = sender_at y"
  using assms
proof (induction arbitrary: y rule: run.induct)
  case (run_refl d)
  then show ?case by blast
next
  case (run_step d e f)
  then obtain z where "e = Inr (z, Asleep)" "system_rel ret t0 P C A A z" "sender_at z = sender_at y"
    using asleep_step by metis
  with run_step.IH show ?case by fastforce
qed

text \<open>A client with something to send comes to wait for acknowledgements that are due.\<close>

lemma start_run:
  assumes rel: "system_rel ret t0 P 0 0 0 y" and pc: "sender_at y = Not_started" and P: "P \<noteq> []"
  shows "\<exists>z ds q dp. run (client_step ret net h) (Inr y) (Inr z) \<and> system_rel ret t0 P 0 0 0 z \<and>
    sender_at z = Sending ds q \<and> ds \<noteq> [] \<and> clientSender z = (clientSender y)\<lparr>dataProcessor := dp\<rparr> \<and>
    ds = chunks (nat (packet_size (clientSender y))) (hd (dp_left (dataProcessor (clientSender y))))"
proof -
  obtain n where n: "rx_buffer_size (clientReceiver y) = Inr n" "digits (clientSender y) + 32 < n"
    using rel by (auto simp: system_rel_def receiver_ok_def)
  then have st: "client_start y = Inr (y\<lparr>receiver_buffer := Some n, sender_at := At_chunk\<rparr>)" (is "_ = Inr ?y")
    by (simp add: client_start_def)
  have rel1: "system_rel ret t0 P 0 0 0 ?y"
    using rel pc n by (auto simp: system_rel_def receiver_ok_def unsent_def loop_data_def)
  have src: "source_ok (clientSender ?y)" using rel1 by (simp add: system_rel_def)
  have "dp_left (dataProcessor (clientSender y)) \<noteq> []"
    using rel pc P by (auto simp: system_rel_def unsent_def loop_data_def)
  then obtain c cs where left: "dp_left (dataProcessor (clientSender ?y)) = c # cs"
    by (auto simp: neq_Nil_conv)
  let ?ds = "chunks (nat (packet_size (clientSender ?y))) c"
  obtain dp' where ch: "sender_chunk ?y = Inr (?y\<lparr>clientSender := (clientSender ?y)\<lparr>dataProcessor := dp'\<rparr>,
      sender_at := Sending ?ds (length ?ds)\<rparr>)" (is "_ = Inr ?z") and dp': "dp_wf dp'" "dp_left dp' = cs"
    using sender_chunk_next [OF src left] by blast
  have "system_rel ret t0 P 0 0 0 ?z"
    using rel1 dp' left
    by (auto simp: system_rel_def source_ok_def receiver_ok_def unsent_def loop_data_def digits_def)
  moreover have "c \<noteq> []"
  proof -
    let ?dp = "dataProcessor (clientSender y)"
    have "c \<in> set (chunks (nat (chunk_size ?dp)) (file_rest ?dp))" "0 < nat (chunk_size ?dp)"
      using src left by (simp_all add: source_ok_def dp_wf_def dp_left_def)
    then show ?thesis using chunks_pieces [of c] by blast
  qed
  then have "?ds \<noteq> []" using src by (simp add: source_ok_def)
  moreover have "run (client_step ret net h) (Inr y) (Inr ?z)"
    using run_step [OF _ run_one] step_start [OF pc, of ret net h] step_chunk [of ?y ret net h] st ch by simp
  ultimately show ?thesis using left by (intro exI [of _ ?z]) auto
qed

lemma sending_run:
  assumes "system_rel ret t0 P C A S y" and "sender_at y = Sending ds q" and "ds = [] \<longrightarrow> A < S"
  shows "\<exists>z A' S'. run (client_step ret ordered_net h) (Inr y) (Inr z) \<and> system_rel ret t0 P C A' S' z \<and>
    sender_at z = Wait_acks q \<and> A' < S'"
  using assms
proof (induction ds arbitrary: y A S)
  case Nil
  have "system_rel ret t0 P C A S (y\<lparr>sender_at := Wait_acks q\<rparr>)"
    using Nil by (auto simp: system_rel_def receiver_ok_def unsent_def loop_data_def)
  moreover have "run (client_step ret ordered_net h) (Inr y) (Inr (y\<lparr>sender_at := Wait_acks q\<rparr>))"
    using step_sent [OF Nil.prems(2)] by (rule run_one)
  ultimately show ?case using Nil.prems(3) by (intro exI [of _ "y\<lparr>sender_at := Wait_acks q\<rparr>"]) auto
next
  case (Cons d ds)
  let ?run = "run (client_step ret ordered_net h)"
  have sent: "\<exists>z A' S'. ?run (Inr y) (Inr z) \<and> system_rel ret t0 P C A' S' z \<and> sender_at z = Wait_acks q \<and> A' < S'"
    if rel: "system_rel ret t0 P C A S y" and pc: "sender_at y = Sending (d # ds) q"
      and room: "S < A + nat (window_size (clientSender y))" for y A
  proof -
    have srel: "sender_rel t0 P C A S (clientSender y)" using rel by (simp add: system_rel_def)
    have adv: "canAdvance (clientSender y) = Inr True" using canAdvance_window [OF srel] room by simp
    obtain s' where s': "sender_send d ds q y = Inr (y\<lparr>clientSender := s', sender_at := Sending ds q\<rparr>)" (is "_ = Inr ?z")
      and relz: "system_rel ret t0 P C A (Suc S) (y\<lparr>clientSender := s', sender_at := Sending ds q\<rparr>)"
      using sender_send_rel [OF rel pc adv] by blast
    have "A \<le> S" using srel by (simp add: sender_rel_def counters_rel_def)
    then have "\<exists>z A' S'. ?run (Inr ?z) (Inr z) \<and> system_rel ret t0 P C A' S' z \<and> sender_at z = Wait_acks q \<and> A' < S'"
      using Cons.IH [OF relz] by simp
    moreover have "client_step ret ordered_net h (Inr y) (Inr ?z)"
      using step_send [OF pc adv, of ret ordered_net h] s' by simp
    ultimately show ?thesis by (blast intro: run_step)
  qed
  show ?case
  proof (cases "S < A + nat (window_size (clientSender y))")
    case True
    then show ?thesis using sent [OF Cons.prems(1,2)] by blast
  next
    case False
    let ?w = "nat (window_size (clientSender y))"
    have srel: "sender_rel t0 P C A S (clientSender y)" using Cons.prems(1) by (simp add: system_rel_def)
    then have w: "0 < ?w" "S \<le> A + ?w"
      using cfg_ring(7) [of "clientSender y"] by (simp_all add: sender_rel_def counters_rel_def)
    then have j: "A \<le> A" "A < S" using False by linarith+
    obtain n where n: "receiver_buffer y = Some n" using Cons.prems(1,2) by (auto simp: system_rel_def receiver_ok_def)
    have pc: "sender_at y \<noteq> Done" using Cons.prems(2) by simp
    obtain dg s' where dg: "ordered_net y dg" "receiver_round n dg y = Inr (y\<lparr>clientSender := s'\<rparr>)" (is "_ = Inr ?z")
      and relz: "system_rel ret t0 P C (Suc A) S (y\<lparr>clientSender := s'\<rparr>)"
      using ack_round [OF Cons.prems(1) j pc n] by blast
    have "fst (conf s') = fst (conf (clientSender y))"
      using receive_good [OF Cons.prems(1) n dg(1)] dg(2) by (auto simp: good_step_def)
    then have "S < Suc A + nat (window_size (clientSender ?z))" using w False by (simp add: conf_def)
    from sent [OF relz _ this] Cons.prems(2) obtain z A' S' where "?run (Inr ?z) (Inr z)"
      "system_rel ret t0 P C A' S' z" "sender_at z = Wait_acks q" "A' < S'" by auto
    moreover have "client_step ret ordered_net h (Inr y) (Inr ?z)"
      using step_receive [of y n ordered_net dg ret h] n dg by simp
    ultimately show ?thesis by (blast intro: run_step)
  qed
qed

text \<open>The last acknowledgement comes between the test and the wait.\<close>

lemma race_run:
  assumes rel: "system_rel ret t0 P C A S y" and pc: "sender_at y = Wait_acks q" and AS: "A < S"
  shows "\<exists>z. run (waiting_step True spurious ret ordered_net h) (Inr (y, Awake)) (Inr (z, Asleep)) \<and>
    system_rel ret t0 P C S S z \<and> sender_at z = Wait_acks q"
proof -
  let ?step = "waiting_step True spurious ret ordered_net h"
  obtain n where n: "receiver_buffer y = Some n" using rel pc by (auto simp: system_rel_def receiver_ok_def)
  have "Suc (S - 1) = S" "A \<le> S - 1" "S - 1 < S" using AS by linarith+
  then obtain dg s' where dg: "ordered_net y dg" "receiver_round n dg y = Inr (y\<lparr>clientSender := s'\<rparr>)" (is "_ = Inr ?z")
    and relz: "system_rel ret t0 P C S S (y\<lparr>clientSender := s'\<rparr>)"
    using ack_round [OF rel, of "S - 1" n] pc n by auto
  obtain z p where p: "receiver_waking n dg y Falls_asleep = Inr (z, p)" "p = Falls_asleep"
    using receiver_waking_rel [OF rel n dg(1), of Falls_asleep] by (auto simp: notify_waits_def)
  moreover have "z = ?z" using receiver_waking_view [of n dg y Falls_asleep] p(1) dg(2) by simp
  ultimately have "?step (Inr (y, Falls_asleep)) (Inr (?z, Falls_asleep))"
    using wait_receive [of y n ordered_net dg True Falls_asleep spurious ret h] n dg(1) by simp
  moreover have "wait_over y = Inr False" using wait_over_rel [OF rel] pc AS by simp
  then have "?step (Inr (y, Awake)) (Inr (y, Falls_asleep))" by (rule wait_test)
  moreover have "?step (Inr (?z, Falls_asleep)) (Inr (?z, Asleep))" by (rule wait_block)
  ultimately have "run ?step (Inr (y, Awake)) (Inr (?z, Asleep))" by (blast intro: run_step)
  then show ?thesis using relz pc by (intro exI [of _ ?z]) simp
qed

subsection \<open>Without the race\<close>

definition waiting_inv :: "int \<Rightarrow> client_subject \<Rightarrow> string \<Rightarrow> waiting \<Rightarrow> bool" where
  "waiting_inv t0 subj contents d \<longleftrightarrow>
     system_inv (Some True) t0 subj contents (without_phase d) \<and>
     (\<forall>y p. d = Inr (y, p) \<longrightarrow> p \<noteq> Awake \<longrightarrow> wait_over y = Inr False)"

definition waiting_rank :: "waiting \<Rightarrow> nat" where
  "waiting_rank d = (case d of Inl e \<Rightarrow> 0
     | Inr (y, p) \<Rightarrow> 2 * work y + (if p = Falls_asleep then 1 else 0))"

lemma waiting_phase_step:
  assumes inv: "waiting_inv t0 subj contents d" and d: "d = Inr (y, p)"
    and stp: "waiting_step False spurious (Some True) ordered_net (t0 + INT_MAX) d (Inr (z, q))" and q: "q \<noteq> Awake"
  shows "wait_over z = Inr False"
proof -
  obtain C A S where rel: "system_rel (Some True) t0 (file_packets (getPacket_size subj) contents) C A S y"
    and cfg: "configured subj y"
    using inv d by (auto simp: waiting_inv_def system_inv_def)
  have same: "wait_over z = wait_over y"
    if "system_rel (Some True) t0 (file_packets (getPacket_size subj) contents) C A S z" "sender_at z = sender_at y"
      "fst (conf (clientSender z)) = fst (conf (clientSender y))" for z
    using wait_over_rel [OF rel] wait_over_rel [OF that(1)] that(2,3) by (simp add: conf_def)
  have bgd: "wait_over z = wait_over y"
    if "background t0 (file_packets (getPacket_size subj) contents) C A S y (Inr z)" for z
    using that same system_rel_sender [OF rel] unfolding background_def by auto
  have before: "p \<noteq> Awake \<Longrightarrow> wait_over y = Inr False" using inv d by (auto simp: waiting_inv_def)
  from stp [unfolded d] show ?thesis
  proof (rule waiting_stepE)
    fix n dg assume r: "Inr (z, q) = receiver_waking n dg y p" "receiver_buffer y = Some n" "ordered_net y dg"
      and "False \<or> p \<noteq> Falls_asleep"
    obtain A' where z: "system_rel (Some True) t0 (file_packets (getPacket_size subj) contents) C A' S z"
      "sender_at z = sender_at y" "A < A' \<and> A' \<le> S \<and> q = notify_waits p \<or> A' = A \<and> q = p"
      using receiver_waking_rel [OF rel r(2,3), of p] r(1) by auto
    have "receiver_round n dg y = Inr z" using receiver_waking_view [of n dg y p] r(1) [symmetric] by simp
    then have c: "fst (conf (clientSender z)) = fst (conf (clientSender y))"
      using receive_good [OF rel r(2,3)] by (auto simp: good_step_def)
    have "A' = A" "q = p" using z(3) q \<open>False \<or> p \<noteq> Falls_asleep\<close>
      by (cases p; auto simp: notify_waits_def)+
    then show ?thesis using same [OF _ z(2) c] z(1) before q by simp
  next
    fix i r assume "Inr (z, q) = with_phase p r" "timer_fires i y = Some r"
    then have "background t0 (file_packets (getPacket_size subj) contents) C A S y (Inr z)" "q = p"
      using fire_background [OF rel] by (cases r; auto)+
    then show ?thesis using bgd before q by simp
  next
    fix i t assume "Inr (z, q) = Inr (y\<lparr>clientSender := put_timer i t (clientSender y)\<rparr>, p)"
      "i < length (timers (clientSender y))"
      "thread_wait (now (clientSender y)) (timers (clientSender y) ! i) = Some t"
    then show ?thesis using bgd [OF timer_background [OF rel]] before q by auto
  next
    fix n assume "Inr (z, q) = Inr (y\<lparr>clientSender := clientSender y\<lparr>now := n\<rparr>\<rparr>, p)"
      "now (clientSender y) \<le> n" "n \<le> t0 + INT_MAX"
    then show ?thesis using bgd [OF tick_background [OF rel]] before q by auto
  qed (use before q in \<open>auto simp: with_phase_Inr\<close>)
qed

lemma waiting_inv_step:
  assumes inv: "waiting_inv t0 subj contents d"
    and stp: "waiting_step False spurious (Some True) ordered_net (t0 + INT_MAX) d e"
  shows "waiting_inv t0 subj contents e"
proof -
  have "without_phase e = without_phase d \<or>
      client_step (Some True) ordered_net (t0 + INT_MAX) (without_phase d) (without_phase e)"
    by (rule waiting_step_view [OF stp])
  then have "system_inv (Some True) t0 subj contents (without_phase e)"
    using inv step_inv [of "Some True" t0 subj contents] by (auto simp: waiting_inv_def)
  moreover obtain y p where "d = Inr (y, p)" using stp by (cases d) (auto simp: crashed_wait)
  then have "wait_over z = Inr False" if "e = Inr (z, q)" "q \<noteq> Awake" for z q
    using waiting_phase_step [OF inv] stp that by blast
  ultimately show ?thesis by (auto simp: waiting_inv_def)
qed

lemma waiting_progress_step:
  assumes inv: "waiting_inv t0 subj contents d" and unfinished: "\<not> finished_run (without_phase d)"
  shows "\<exists>e. waiting_step False spurious (Some True) ordered_net (t0 + INT_MAX) d e \<and> waiting_rank e < waiting_rank d"
proof -
  let ?step = "waiting_step False spurious (Some True) ordered_net (t0 + INT_MAX)"
  obtain y C A S where y: "without_phase d = Inr y" and
    rel: "system_rel (Some True) t0 (file_packets (getPacket_size subj) contents) C A S y"
    using inv by (auto simp: waiting_inv_def system_inv_def)
  obtain p where d: "d = Inr (y, p)" using y by (auto simp: without_phase_Inr)
  show ?thesis
  proof (cases p)
    case Awake
    have "system_inv (Some True) t0 subj contents (Inr y)" using inv y by (simp add: waiting_inv_def)
    then obtain z where z: "client_step (Some True) ordered_net (t0 + INT_MAX) (Inr y) z" "rank z < rank (Inr y)"
      using client_progress unfinished y by metis
    have "waiting_rank (with_phase Awake z) = 2 * rank z" by (cases z) (simp_all add: waiting_rank_def rank_def)
    then have "waiting_rank (with_phase Awake z) < waiting_rank d"
      using z(2) by (simp add: d Awake waiting_rank_def rank_def)
    moreover have "?step d (with_phase Awake z)" using awake_step [OF z(1)] by (simp add: d Awake)
    ultimately show ?thesis by blast
  next
    case Falls_asleep
    then show ?thesis using wait_block [of False spurious "Some True" ordered_net "t0 + INT_MAX" y]
      by (intro exI [of _ "Inr (y, Asleep)"]) (simp add: d waiting_rank_def)
  next
    case Asleep
    then have blocked: "\<not> waits_done (nat (window_size (clientSender y))) A S (sender_at y)"
      using inv wait_over_rel [OF rel] by (auto simp: waiting_inv_def d)
    have srel: "sender_rel t0 (file_packets (getPacket_size subj) contents) C A S (clientSender y)"
      using rel by (simp add: system_rel_def)
    then have cnt: "A \<le> S" "0 < nat (window_size (clientSender y))"
      using cfg_ring(7) [of "clientSender y"] by (auto simp: sender_rel_def counters_rel_def)
    obtain pc: "sender_at y \<noteq> Done" "A < S" and n: "\<exists>n. receiver_buffer y = Some n"
      using blocked cnt rel
      by (cases "(nat (window_size (clientSender y)), A, S, sender_at y)" rule: waits_done.cases)
        (auto simp: system_rel_def receiver_ok_def)
    then obtain n where n: "receiver_buffer y = Some n" by blast
    obtain dg s' where dg: "ordered_net y dg" "receiver_round n dg y = Inr (y\<lparr>clientSender := s'\<rparr>)" (is "_ = Inr ?z")
      and less: "work (y\<lparr>clientSender := s'\<rparr>) < work y"
      using ack_round [OF rel _ pc(2,1) n] by blast
    obtain q where q: "receiver_waking n dg y Asleep = Inr (?z, q)" "q \<noteq> Falls_asleep"
      using receiver_waking_rel [OF rel n dg(1), of Asleep] receiver_waking_view [of n dg y Asleep] dg(2)
      by (auto simp: notify_waits_def)
    have "?step d (Inr (?z, q))"
      using wait_receive [of y n ordered_net dg False Asleep spurious "Some True" "t0 + INT_MAX"] n dg(1) q(1)
      by (simp add: d Asleep)
    moreover have "waiting_rank (Inr (?z, q)) < waiting_rank d" using less q(2) by (simp add: d waiting_rank_def)
    ultimately show ?thesis by blast
  qed
qed

interpretation waiting_end: progress_system
  "\<lambda>x. good_subject subj \<and> readable fs subj contents \<and> waiting_initial fs t0 subj x"
  "waiting_step False spurious (Some True) ordered_net (t0 + INT_MAX)"
  "waiting_inv t0 subj contents" "\<lambda>d. finished_run (without_phase d)" waiting_rank
  for fs t0 subj contents spurious
proof unfold_locales
  fix d assume "good_subject subj \<and> readable fs subj contents \<and> waiting_initial fs t0 subj d"
  then obtain x where x: "initial fs t0 subj x" "d = with_phase Awake x" "good_subject subj" "readable fs subj contents"
    by (auto simp: waiting_initial_def)
  have "p = Awake" if "d = Inr (y, p)" for y p using x(2) that by (cases x) auto
  then show "waiting_inv t0 subj contents d"
    using initial_inv [OF x(3,4,1), of "Some True"] x(2) by (auto simp: waiting_inv_def)
qed (blast intro: waiting_inv_step waiting_progress_step)+

end
