(* ===== verification/Preemption.thy ===== *)
theory Preemption
  imports Waits
begin

section \<open>The threads inside a method\<close>

text \<open>
  In \<open>Client\<close> a method is one step. Here \<open>sendPacketReliable\<close>, \<open>ackedPacket\<close> and
  \<open>timeoutHandler\<close> are cut where they hold no common lock, and the threads of the sender, the receiver
  and the timers interleave between the parts: an acknowledgement can come before its packet is
  counted, a packet can be sent while the last acknowledgement is being worked off, and both halves
  go on while the packets of the window are sent again. \<open>packet_send_mutex\<close> is what keeps
  \<open>sendPacketReliable\<close> and the loop of \<open>timeoutHandler\<close> apart.
\<close>

subsection \<open>The parts of the methods\<close>

text \<open>\<open>sendPacketReliable\<close>: the packet is sent; the indices are compared; the timer is started; the number is counted.\<close>

definition indices_meet :: "client_sender \<Rightarrow> bool" where
  "indices_meet s \<longleftrightarrow> getBaseIdx s = getNextSeqNum s"

definition send_timer :: "bool \<Rightarrow> client_sender \<Rightarrow> client_sender" where
  "send_timer meet s = (if meet then startTimeoutTimer s else s)"

lemma sendPacketReliable_parts:
  "sendPacketReliable raw_data s =
     rbind (send_packet raw_data s) (\<lambda>s. incNextSeqNum (send_timer (indices_meet s) s))"
  by (simp add: sendPacketReliable_def send_timer_def indices_meet_def Let_def)

text \<open>
  \<open>ackedPacket\<close>: whether it is to go on; the new base; the comparison; the timer; the count and
  the mark of the packet, under \<open>ackcount_mutex\<close>.
\<close>

definition acked_check :: "int \<Rightarrow> client_sender \<Rightarrow> (bool \<times> client_sender) res" where
  "acked_check k s =
     (let s = cleanTimers s
      in if finished_sending_data s then Inr (False, endConnection s)
         else rbind (window_get k s) (\<lambda>packet.
              if getAcked packet then Inr (False, s)
              else rbind (sample_rtt packet s) (\<lambda>s. Inr (True, s))))"

definition acked_base :: "int \<Rightarrow> client_sender \<Rightarrow> client_sender res" where
  "acked_base k s = rbind (iadd k 1) (\<lambda>k1. setBaseIdx k1 s)"

definition acked_timer :: "bool \<Rightarrow> client_sender \<Rightarrow> client_sender res" where
  "acked_timer meet s =
     (if meet
      then (case timeoutTimer s of
              None \<Rightarrow> Inl (Undefined Null_dereference)
            | Some i \<Rightarrow> Inr (stop_timer_at i s))
      else Inr (startTimeoutTimer s))"

definition acked_mark :: "int \<Rightarrow> client_sender \<Rightarrow> client_sender res" where
  "acked_mark k s =
     rbind (count_acked k s) (\<lambda>s.
     rbind (window_get k s) (\<lambda>packet.
     window_put k (setAcked packet) s))"

lemma rbind_assoc: "rbind (rbind x f) g = rbind x (\<lambda>a. rbind (f a) g)"
  by (cases x) simp_all

lemma rbind_if: "rbind (if b then x else y) f = (if b then rbind x f else rbind y f)"
  by simp

lemma ackedPacket_parts:
  "ackedPacket k s =
     rbind (acked_check k s) (\<lambda>(go, s).
     if go then rbind (acked_base k s) (\<lambda>s. rbind (acked_timer (indices_meet s) s) (acked_mark k)) else Inr s)"
  by (simp add: ackedPacket_def acked_check_def acked_base_def acked_timer_def acked_mark_def
      stop_or_restart_timer_def indices_meet_def Let_def rbind_assoc rbind_if cong: rbind_cong if_cong)

subsection \<open>The interleaving\<close>

datatype send_phase = Not_sending | Packet_sent | Send_compared bool | Timer_set

datatype ack_phase = No_ack | Ack_checked int | Base_set int | Ack_compared int bool | Ack_timed int

type_synonym threads = "(system \<times> send_phase \<times> ack_phase) res"

text \<open>The receiver's thread, up to the first part of \<open>ackedPacket\<close>.\<close>

definition check_ack :: "int \<Rightarrow> system \<times> ack_phase \<Rightarrow> (system \<times> ack_phase) res" where
  "check_ack k = (\<lambda>(y, a).
     rbind (acked_check k (clientSender y)) (\<lambda>(go, s).
     Inr (y\<lparr>clientSender := s\<rparr>, if go then Ack_checked k else a)))"

definition receiver_begin :: "nat \<Rightarrow> string \<Rightarrow> system \<Rightarrow> (system \<times> ack_phase) res" where
  "receiver_begin n dg y =
     rbind (receive_datagram check_ack (clientReceiver y) n dg (y, No_ack)) (\<lambda>(continue, y, a).
     Inr (if continue then y else y\<lparr>receiver_buffer := None\<rparr>, a))"

text \<open>A packet that has gone out is counted; what arrives depends on the packets that went out.\<close>

definition counted :: "send_phase \<Rightarrow> client_sender \<Rightarrow> client_sender" where
  "counted m s = (if m = Not_sending then s
     else s\<lparr>next_seq_num_idx := (next_seq_num_idx s + 1) mod (max_seq_num_b10 s + 1)\<rparr>)"

definition seen_from_outside :: "send_phase \<Rightarrow> system \<Rightarrow> system" where
  "seen_from_outside m y = y\<lparr>clientSender := counted m (clientSender y)\<rparr>"

definition on_sender ::
    "(client_sender \<Rightarrow> client_sender res) \<Rightarrow> send_phase \<Rightarrow> ack_phase \<Rightarrow> system \<Rightarrow> threads" where
  "on_sender f m a y = rbind (f (clientSender y)) (\<lambda>s. Inr (y\<lparr>clientSender := s\<rparr>, m, a))"

definition with_phases :: "send_phase \<Rightarrow> ack_phase \<Rightarrow> system res \<Rightarrow> threads" where
  "with_phases m a r = rbind r (\<lambda>y. Inr (y, m, a))"

text \<open>
  The sender, the receiver, the waits of the timers and the clock; \<open>locked\<close> says that a timer's
  thread holds \<open>packet_send_mutex\<close>.
\<close>

inductive thread_step ::
    "bool \<Rightarrow> bool option \<Rightarrow> (system \<Rightarrow> string \<Rightarrow> bool) \<Rightarrow> int \<Rightarrow> threads \<Rightarrow> threads \<Rightarrow> bool"
  for locked :: bool and ret :: "bool option" and net :: "system \<Rightarrow> string \<Rightarrow> bool" and horizon :: int
where
  pre_start: "sender_at y = Not_started \<Longrightarrow>
    thread_step locked ret net horizon (Inr (y, Not_sending, a)) (with_phases Not_sending a (client_start y))"
| pre_chunk: "sender_at y = At_chunk \<Longrightarrow>
    thread_step locked ret net horizon (Inr (y, Not_sending, a)) (with_phases Not_sending a (sender_chunk y))"
| pre_send: "sender_at y = Sending (d # ds) q \<Longrightarrow> canAdvance (clientSender y) = Inr True \<Longrightarrow> \<not> locked \<Longrightarrow>
    thread_step locked ret net horizon (Inr (y, Not_sending, a))
      (on_sender (send_packet d) Packet_sent a (y\<lparr>sender_at := Sending ds q\<rparr>))"
| pre_send_fails: "sender_at y = Sending (d # ds) q \<Longrightarrow> canAdvance (clientSender y) = Inl e \<Longrightarrow> \<not> locked \<Longrightarrow>
    thread_step locked ret net horizon (Inr (y, Not_sending, a)) (Inl e)"
| pre_compare: "thread_step locked ret net horizon (Inr (y, Packet_sent, a))
      (Inr (y, Send_compared (indices_meet (clientSender y)), a))"
| pre_set_timer: "thread_step locked ret net horizon (Inr (y, Send_compared meet, a))
      (on_sender (\<lambda>s. Inr (send_timer meet s)) Timer_set a y)"
| pre_count: "thread_step locked ret net horizon (Inr (y, Timer_set, a)) (on_sender incNextSeqNum Not_sending a y)"
| pre_sent: "sender_at y = Sending [] q \<Longrightarrow>
    thread_step locked ret net horizon (Inr (y, Not_sending, a)) (Inr (y\<lparr>sender_at := Wait_acks q\<rparr>, Not_sending, a))"
| pre_acked: "sender_at y = Wait_acks q \<Longrightarrow> chunk_acked q (clientSender y) \<Longrightarrow>
    thread_step locked ret net horizon (Inr (y, Not_sending, a)) (with_phases Not_sending a (sendChunk_end ret y))"
| pre_receive: "receiver_buffer y = Some n \<Longrightarrow> net (seen_from_outside m y) dg \<Longrightarrow>
    thread_step locked ret net horizon (Inr (y, m, No_ack))
      (rbind (receiver_begin n dg y) (\<lambda>(y, a). Inr (y, m, a)))"
| pre_base: "thread_step locked ret net horizon (Inr (y, m, Ack_checked k)) (on_sender (acked_base k) m (Base_set k) y)"
| pre_ack_compare: "thread_step locked ret net horizon (Inr (y, m, Base_set k))
      (Inr (y, m, Ack_compared k (indices_meet (clientSender y))))"
| pre_ack_timer: "thread_step locked ret net horizon (Inr (y, m, Ack_compared k meet))
      (on_sender (acked_timer meet) m (Ack_timed k) y)"
| pre_mark: "thread_step locked ret net horizon (Inr (y, m, Ack_timed k)) (on_sender (acked_mark k) m No_ack y)"
| pre_timer: "i < length (timers (clientSender y)) \<Longrightarrow>
    thread_wait (now (clientSender y)) (timers (clientSender y) ! i) = Some t \<Longrightarrow>
    thread_step locked ret net horizon (Inr (y, m, a)) (Inr (y\<lparr>clientSender := put_timer i t (clientSender y)\<rparr>, m, a))"
| pre_tick: "now (clientSender y) \<le> n \<Longrightarrow> n \<le> horizon \<Longrightarrow>
    thread_step locked ret net horizon (Inr (y, m, a)) (Inr (y\<lparr>clientSender := (clientSender y)\<lparr>now := n\<rparr>\<rparr>, m, a))"

inductive_cases thread_stepE: "thread_step locked ret net horizon (Inr (y, m, a)) z"
inductive_simps crashed_thread: "thread_step locked ret net horizon (Inl e) z"

text \<open>
  \<open>timeoutHandler\<close>: once it holds the mutex it reads the indices; then one packet after the other;
  the new timer; the end of the timer's thread.
\<close>

datatype handler_phase =
    No_handler
  | Resending nat int int int int int
  | Resent nat

fun handler_timer :: "handler_phase \<Rightarrow> nat option" where
  "handler_timer No_handler = None"
| "handler_timer (Resending i nseqnum bidx buffer_size wsize j) = Some i"
| "handler_timer (Resent i) = Some i"

definition handler_begin :: "nat \<Rightarrow> client_sender \<Rightarrow> handler_phase res" where
  "handler_begin i s =
     rbind (iadd (max_seq_num_b10 s) 1) (\<lambda>buffer_size.
     Inr (Resending i (getNextSeqNum s) (getBaseIdx s) buffer_size (getWindowSize s) (getBaseIdx s)))"

definition resend_next :: "int \<Rightarrow> int \<Rightarrow> client_sender \<Rightarrow> (int \<times> client_sender) res" where
  "resend_next buffer_size j s =
     rbind (resend_packet j s) (\<lambda>s.
     rbind (iadd j 1) (\<lambda>a. rbind (imod a buffer_size) (\<lambda>j. Inr (j, s))))"

definition timer_exits :: "nat \<Rightarrow> client_sender \<Rightarrow> client_sender" where
  "timer_exits i s = put_timer i (thread_exit (timers s ! i)) s"

type_synonym preempted = "(system \<times> send_phase \<times> ack_phase \<times> handler_phase) res"

definition with_handler :: "handler_phase \<Rightarrow> threads \<Rightarrow> preempted" where
  "with_handler h r = rbind r (\<lambda>(y, m, a). Inr (y, m, a, h))"

inductive preempted_step ::
    "bool option \<Rightarrow> (system \<Rightarrow> string \<Rightarrow> bool) \<Rightarrow> int \<Rightarrow> preempted \<Rightarrow> preempted \<Rightarrow> bool"
  for ret :: "bool option" and net :: "system \<Rightarrow> string \<Rightarrow> bool" and horizon :: int
where
  thread_moves: "thread_step (h \<noteq> No_handler) ret net horizon (Inr (y, m, a)) r \<Longrightarrow>
    preempted_step ret net horizon (Inr (y, m, a, h)) (with_handler h r)"
| handler_idle: "i < length (timers (clientSender y)) \<Longrightarrow> thread (timers (clientSender y) ! i) = Firing \<Longrightarrow>
    handler_timer h \<noteq> Some i \<Longrightarrow> finished_sending_data (clientSender y) \<Longrightarrow>
    preempted_step ret net horizon (Inr (y, m, a, h)) (Inr (y\<lparr>clientSender := timer_exits i (clientSender y)\<rparr>, m, a, h))"
| handler_starts: "i < length (timers (clientSender y)) \<Longrightarrow> thread (timers (clientSender y) ! i) = Firing \<Longrightarrow>
    \<not> finished_sending_data (clientSender y) \<Longrightarrow>
    preempted_step ret net horizon (Inr (y, Not_sending, a, No_handler))
      (rbind (handler_begin i (clientSender y)) (\<lambda>h. Inr (y, Not_sending, a, h)))"
| handler_resends: "resend_guard nseqnum bidx buffer_size wsize j \<Longrightarrow>
    preempted_step ret net horizon (Inr (y, m, a, Resending i nseqnum bidx buffer_size wsize j))
      (rbind (resend_next buffer_size j (clientSender y)) (\<lambda>(j, s).
       Inr (y\<lparr>clientSender := s\<rparr>, m, a, Resending i nseqnum bidx buffer_size wsize j)))"
| handler_restarts: "\<not> resend_guard nseqnum bidx buffer_size wsize j \<Longrightarrow>
    preempted_step ret net horizon (Inr (y, m, a, Resending i nseqnum bidx buffer_size wsize j))
      (Inr (y\<lparr>clientSender := startTimeoutTimer (clientSender y)\<rparr>, m, a, Resent i))"
| handler_returns: "preempted_step ret net horizon (Inr (y, m, a, Resent i))
      (Inr (y\<lparr>clientSender := timer_exits i (clientSender y)\<rparr>, m, a, No_handler))"

inductive_cases preempted_stepE: "preempted_step ret net horizon (Inr (y, m, a, h)) z"
inductive_simps crashed_preempted: "preempted_step ret net horizon (Inl e) z"

definition at_rest :: "system res \<Rightarrow> preempted" where
  "at_rest x = rbind x (\<lambda>y. Inr (y, Not_sending, No_ack, No_handler))"

definition preempted_initial ::
    "file_system \<Rightarrow> int \<Rightarrow> client_subject \<Rightarrow> preempted \<Rightarrow> bool" where
  "preempted_initial fs t0 subj x \<longleftrightarrow> (\<exists>x0. initial fs t0 subj x0 \<and> x = at_rest x0)"

subsection \<open>What the state stands for while methods are under way\<close>

text \<open>
  \<open>A\<close> packets are counted as acknowledged, \<open>B\<close> will be when the acknowledgement being worked off is
  done, \<open>S\<close> are counted as sent. The state is represented by the one in which both methods
  are finished, up to the timers.
\<close>

definition sent_total :: "send_phase \<Rightarrow> nat \<Rightarrow> nat" where
  "sent_total m S = (if m = Not_sending then S else Suc S)"

definition real_base :: "ack_phase \<Rightarrow> nat \<Rightarrow> nat \<Rightarrow> nat" where
  "real_base a A B = (case a of Ack_checked k \<Rightarrow> A | _ \<Rightarrow> B)"

fun ack_number :: "ack_phase \<Rightarrow> int option" where
  "ack_number No_ack = None"
| "ack_number (Ack_checked k) = Some k"
| "ack_number (Base_set k) = Some k"
| "ack_number (Ack_compared k meet) = Some k"
| "ack_number (Ack_timed k) = Some k"

fun timer_due :: "ack_phase \<Rightarrow> bool" where
  "timer_due (Base_set k) = True"
| "timer_due (Ack_compared k meet) = True"
| "timer_due a = False"

definition marked :: "ack_phase \<Rightarrow> nat \<Rightarrow> client_sender \<Rightarrow> packet option list" where
  "marked a i s = (if a = No_ack then window_map s
     else (window_map s)[i := map_option setAcked (window_map s ! i)])"

definition last_of :: "nat \<Rightarrow> client_sender \<Rightarrow> int" where
  "last_of B s = (if B = 0 then -1 else int ((B - 1) mod ring_size s))"

definition settled :: "nat \<Rightarrow> nat \<Rightarrow> nat \<Rightarrow> ack_phase \<Rightarrow> client_sender \<Rightarrow> client_sender" where
  "settled C B S' a s =
     s\<lparr>base_idx := int (B mod ring_size s), next_seq_num_idx := int (S' mod ring_size s),
       acked_count := int B - int C, last_acked_packet := last_of B s,
       window_map := marked a ((B - 1) mod ring_size s) s\<rparr>"

definition timer_rel :: "nat \<Rightarrow> nat \<Rightarrow> nat \<Rightarrow> send_phase \<Rightarrow> ack_phase \<Rightarrow> client_sender \<Rightarrow> bool" where
  "timer_rel A B S m a s \<longleftrightarrow> timers_ok s \<and>
     (timeoutTimer s = None \<longrightarrow> timer_due a \<or>
       S = 0 \<and> real_base a A B = 0 \<and> m \<in> {Not_sending, Packet_sent, Send_compared True})"

definition flight_slot :: "int \<Rightarrow> string list \<Rightarrow> client_sender \<Rightarrow> nat \<Rightarrow> bool" where
  "flight_slot t0 P s i \<longleftrightarrow> (\<exists>p. window_map s ! (i mod ring_size s) = Some p \<and> packet_data p = P ! i \<and>
     slot_ok t0 s (i mod ring_size s) p)"

definition pending_ok ::
    "int \<Rightarrow> string list \<Rightarrow> nat \<Rightarrow> nat \<Rightarrow> ack_phase \<Rightarrow> client_sender \<Rightarrow> bool" where
  "pending_ok t0 P A B a s \<longleftrightarrow>
     A < B \<and> B \<le> A + nat (window_size s) \<and> ack_number a = Some (int ((B - 1) mod ring_size s)) \<and>
     (\<exists>p. window_map s ! ((B - 1) mod ring_size s) = Some p \<and> packet_data p = P ! (B - 1) \<and> \<not> acked p \<and>
        slot_ok t0 s ((B - 1) mod ring_size s) p) \<and>
     (\<forall>i. real_base a A B \<le> i \<and> i < B \<longrightarrow> flight_slot t0 P s i)"

definition mid_rel ::
    "int \<Rightarrow> string list \<Rightarrow> nat \<Rightarrow> nat \<Rightarrow> nat \<Rightarrow> nat \<Rightarrow> send_phase \<Rightarrow> ack_phase \<Rightarrow> client_sender \<Rightarrow> bool" where
  "mid_rel t0 P C A B S m a s \<longleftrightarrow>
     core_rel t0 P C B (sent_total m S) (settled C B (sent_total m S) a s) \<and> timer_rel A B S m a s \<and>
     C \<le> A \<and> A \<le> B \<and> sent_total m S \<le> real_base a A B + nat (window_size s) \<and>
     base_idx s = int (real_base a A B mod ring_size s) \<and> next_seq_num_idx s = int (S mod ring_size s) \<and>
     acked_count s = int A - int C \<and> last_acked_packet s = last_of A s \<and>
     (if a = No_ack then A = B else pending_ok t0 P A B a s)"

text \<open>Between the methods this is the representation of the client in \<open>GoBackN\<close>.\<close>

lemma settled_self:
  assumes "base_idx s = int (A mod ring_size s)" and "next_seq_num_idx s = int (S mod ring_size s)"
    and "acked_count s = int A - int C" and "last_acked_packet s = last_of A s"
  shows "settled C A S No_ack s = s"
  using assms by (simp add: settled_def marked_def)

lemma mid_rel_rest: "mid_rel t0 P C A A S Not_sending No_ack s \<longleftrightarrow> sender_rel t0 P C A S s"
proof
  assume mid: "mid_rel t0 P C A A S Not_sending No_ack s"
  then have "settled C A S No_ack s = s"
    by (intro settled_self) (simp_all add: mid_rel_def real_base_def)
  with mid show "sender_rel t0 P C A S s"
    by (auto simp: mid_rel_def sender_rel_core timer_rel_def sent_total_def)
next
  assume rel: "sender_rel t0 P C A S s"
  then have cnt: "counters_rel C A S s" by (simp add: sender_rel_def)
  then have "settled C A S No_ack s = s"
    by (intro settled_self) (simp_all add: counters_rel_def last_of_def)
  with rel cnt show "mid_rel t0 P C A A S Not_sending No_ack s"
    by (auto simp: mid_rel_def sender_rel_core timer_rel_def sent_total_def real_base_def counters_rel_def last_of_def)
qed

lemma settled_cfg [simp]:
  "sender_cfg (settled C B S' a s) = sender_cfg s" "ring_size (settled C B S' a s) = ring_size s"
  "digits (settled C B S' a s) = digits s" "window_size (settled C B S' a s) = window_size s"
  "conf (settled C B S' a s) = conf s" "now (settled C B S' a s) = now s"
  "wire (settled C B S' a s) = wire s" "packet_datagram (settled C B S' a s) = packet_datagram s"
  by (simp_all add: settled_def sender_cfg_def marked_def ring_size_def digits_def conf_def packet_datagram_def
      fun_eq_iff)

lemma mid_relD:
  assumes "mid_rel t0 P C A B S m a s"
  shows "core_rel t0 P C B (sent_total m S) (settled C B (sent_total m S) a s)" and "sender_cfg s"
    and "timer_rel A B S m a s" and "C \<le> A" and "A \<le> B" and "B \<le> sent_total m S"
    and "sent_total m S \<le> real_base a A B + nat (window_size s)"
    and "base_idx s = int (real_base a A B mod ring_size s)" and "next_seq_num_idx s = int (S mod ring_size s)"
    and "acked_count s = int A - int C" and "last_acked_packet s = last_of A s"
    and "sent_total m S \<le> length P" and "int (length P) \<le> INT_MAX" and "real_base a A B \<le> B"
  using assms by (auto simp: mid_rel_def core_rel_def counters_rel_def real_base_def split: ack_phase.splits)

text \<open>The two waits.\<close>

lemma mid_canAdvance:
  assumes mid: "mid_rel t0 P C A B S Not_sending a s"
  shows "canAdvance s = Inr (S < real_base a A B + nat (window_size s))"
proof -
  note d = mid_relD [OF mid, unfolded sent_total_def, simplified]
  show ?thesis using canAdvance_indices [OF d(2) _ d(7,8,9)] d(6,14) by simp
qed

lemma mid_chunk_acked:
  assumes mid: "mid_rel t0 P C A B S m a s" and ack: "chunk_acked q s"
  shows "A = C + q"
proof -
  note d = mid_relD [OF mid]
  have "A \<le> length P" using d(5,6,12) by linarith
  then have "0 \<le> acked_count s" "acked_count s \<le> INT_MAX" using d(4,10,13) by linarith+
  then have "to_size_t (acked_count s) = nat (acked_count s)"
    by (intro to_size_t_nonneg) (simp_all add: int_bounds)
  then show ?thesis using ack d(4,10) by (simp add: chunk_acked_def getAckedPacketsCount_def)
qed

text \<open>The settled state does not see the timers.\<close>

lemma settled_timers:
  "settled C B S' a (s\<lparr>timers := x\<rparr>) = (settled C B S' a s)\<lparr>timers := x\<rparr>"
  "settled C B S' a (s\<lparr>olderTimers := y\<rparr>) = (settled C B S' a s)\<lparr>olderTimers := y\<rparr>"
  "settled C B S' a (s\<lparr>timeoutTimer := z\<rparr>) = (settled C B S' a s)\<lparr>timeoutTimer := z\<rparr>"
  by (simp_all add: settled_def marked_def last_of_def)

lemma mid_rel_timers:
  assumes "mid_rel t0 P C A B S m a s" and "s' = s\<lparr>olderTimers := x, timers := y, timeoutTimer := z\<rparr>"
    and "timer_rel A B S m a s'"
  shows "mid_rel t0 P C A B S m a s'"
proof -
  have "last_of A s' = last_of A s" "pending_ok t0 P A B a s' = pending_ok t0 P A B a s"
    using assms(2) by (simp_all add: last_of_def pending_ok_def flight_slot_def slot_ok_def)
  then show ?thesis using assms by (simp add: mid_rel_def settled_timers)
qed

lemma timer_rel_start:
  assumes "timers_ok s" shows "timer_rel A B S m a (startTimeoutTimer s)"
  using timers_ok_start [OF assms] by (simp add: timer_rel_def startTimeoutTimer_eq)

lemma mid_rel_start:
  assumes "mid_rel t0 P C A B S m a s"
  shows "mid_rel t0 P C A B S m a (startTimeoutTimer s)"
  using assms mid_relD(3) [OF assms]
  by (intro mid_rel_timers [OF assms startTimeoutTimer_eq [of s, THEN trans]] timer_rel_start)
    (auto simp: timer_rel_def)

subsection \<open>The parts of \<open>sendPacketReliable\<close>\<close>

lemma mid_send:
  assumes mid: "mid_rel t0 P C A B S Not_sending a s" and adv: "canAdvance s = Inr True" and more: "S < length P"
  shows "\<exists>s'. send_packet (P ! S) s = Inr s' \<and> mid_rel t0 P C A B S Packet_sent a s' \<and> conf s' = conf s"
proof -
  let ?N = "ring_size s" and ?R = "real_base a A B" and ?u = "sent_state s (P ! S) S"
  note d = mid_relD [OF mid, unfolded sent_total_def, simplified]
  note c = cfg_ring [OF d(2)]
  have room: "S < ?R + nat (window_size s)"
    using mid_canAdvance [OF mid] adv by simp
  have core: "core_rel t0 P C B (Suc S) (sent_state (settled C B S a s) (P ! S) S\<lparr>next_seq_num_idx :=
      int (Suc S mod ?N)\<rparr>)"
    using core_rel_sent [OF d(1), of] room d(14) more by simp
  have neq: "(B - 1) mod ?N \<noteq> S mod ?N" if "a \<noteq> No_ack"
  proof (rule ring_neq [OF c(2)])
    show "B - 1 < S" using that mid d(6) by (auto simp: mid_rel_def pending_ok_def)
    show "S < B - 1 + ?N" using room d(14) c(6) that mid by (auto simp: mid_rel_def pending_ok_def)
  qed
  have sp: "sent_packet (settled C B S a s) (P ! S) S = sent_packet s (P ! S) S"
    by (simp add: sent_packet_def)
  have "marked a ((B - 1) mod ?N) ?u = (marked a ((B - 1) mod ?N) s)[S mod ?N := Some (sent_packet s (P ! S) S)]"
    using neq by (cases "a = No_ack") (simp_all add: marked_def sent_state_def list_update_swap)
  then have "sent_state (settled C B S a s) (P ! S) S\<lparr>next_seq_num_idx := int (Suc S mod ?N)\<rparr> =
      settled C B (Suc S) a ?u"
    by (simp add: sent_state_def sp) (simp add: settled_def sent_state_def last_of_def)
  then have "core_rel t0 P C B (Suc S) (settled C B (Suc S) a ?u)" using core by simp
  moreover have "timer_rel A B S Packet_sent a ?u"
    using d(3) by (auto simp: timer_rel_def sent_state_def timers_ok_def)
  moreover have "flight_slot t0 P ?u i = flight_slot t0 P s i" if "?R \<le> i" "i < B" for i
    using ring_neq [OF c(2), of i S] that room d(6) c(6) by (simp add: flight_slot_def sent_state_def slot_ok_def)
  then have "pending_ok t0 P A B a ?u = pending_ok t0 P A B a s" if "a \<noteq> No_ack"
    using neq [OF that] by (simp add: pending_ok_def sent_state_def slot_ok_def cong: conj_cong)
  moreover have "ring_size ?u = ?N" "window_size ?u = window_size s" "last_of A ?u = last_of A s"
    by (simp_all add: sent_state_def last_of_def)
  ultimately have "mid_rel t0 P C A B S Packet_sent a ?u"
    using mid room by (auto simp: mid_rel_def sent_total_def sent_state_def)
  moreover have "conf ?u = conf s" by (simp add: sent_state_def conf_def)
  ultimately show ?thesis using send_packet_eq [OF d(2,9)] by blast
qed

lemma mid_rel_phase:
  "mid_rel t0 P C A B S m a s \<Longrightarrow> sent_total m' S = sent_total m S \<Longrightarrow> timer_rel A B S m' a s \<Longrightarrow>
     mid_rel t0 P C A B S m' a s"
  by (simp add: mid_rel_def)

lemma mid_compare:
  assumes mid: "mid_rel t0 P C A B S Packet_sent a s"
  shows "mid_rel t0 P C A B S (Send_compared (indices_meet s)) a s"
proof (rule mid_rel_phase [OF mid])
  show "timer_rel A B S (Send_compared (indices_meet s)) a s"
    using mid_relD(3,8,9) [OF mid] by (auto simp: timer_rel_def indices_meet_def getBaseIdx_def getNextSeqNum_def)
qed (simp add: sent_total_def)

lemma mid_set_timer:
  assumes mid: "mid_rel t0 P C A B S (Send_compared meet) a s"
  shows "mid_rel t0 P C A B S Timer_set a (send_timer meet s)"
proof (cases meet)
  case True
  have "timers_ok s" using mid_relD(3) [OF mid] by (simp add: timer_rel_def)
  with True show ?thesis
    by (auto simp: send_timer_def sent_total_def intro!: mid_rel_phase [OF mid_rel_start [OF mid]] timer_rel_start)
next
  case False
  then show ?thesis
    using mid_relD(3) [OF mid]
    by (auto simp: send_timer_def sent_total_def timer_rel_def intro!: mid_rel_phase [OF mid])
qed

lemma mid_count:
  assumes mid: "mid_rel t0 P C A B S Timer_set a s"
  shows "\<exists>s'. incNextSeqNum s = Inr s' \<and> mid_rel t0 P C A B (Suc S) Not_sending a s' \<and> conf s' = conf s"
proof -
  note d = mid_relD [OF mid]
  let ?s = "s\<lparr>next_seq_num_idx := int (Suc S mod ring_size s)\<rparr>"
  have "settled C B (Suc S) a ?s = settled C B (Suc S) a s" by (simp add: settled_def marked_def last_of_def)
  moreover have "timer_rel A B (Suc S) Not_sending a ?s" using d(3) by (auto simp: timer_rel_def timers_ok_def)
  moreover have "pending_ok t0 P A B a ?s = pending_ok t0 P A B a s" "last_of A ?s = last_of A s"
    by (simp_all add: pending_ok_def flight_slot_def slot_ok_def last_of_def)
  ultimately have "mid_rel t0 P C A B (Suc S) Not_sending a ?s"
    using mid by (simp add: mid_rel_def sent_total_def)
  then show ?thesis using cfg_next [OF d(2,9)] by (simp add: conf_def)
qed

subsection \<open>The parts of \<open>ackedPacket\<close>\<close>

lemma mid_rel_ack_phase:
  assumes "mid_rel t0 P C A B S m a s" and "a \<noteq> No_ack" and "a' \<noteq> No_ack" and "ack_number a' = ack_number a"
    and "real_base a' A B = real_base a A B" and "timer_rel A B S m a' s"
  shows "mid_rel t0 P C A B S m a' s"
  using assms by (simp add: mid_rel_def pending_ok_def settled_def marked_def)

lemma settled_counted:
  assumes "mid_rel t0 P C A A S m No_ack s"
  shows "settled C A (sent_total m S) No_ack s = counted m s"
proof -
  note d = mid_relD [OF assms]
  have "(int (S mod ring_size s) + 1) mod (max_seq_num_b10 s + 1) = int (Suc S mod ring_size s)"
    unfolding cfg_ring(1) [OF d(2)] by (metis add.commute mod_add_left_eq of_nat_Suc of_nat_mod)
  then show ?thesis
    using d(8-11) by (simp add: settled_def marked_def counted_def real_base_def sent_total_def)
qed

lemma in_window_timers [simp]:
  "ring_size (startTimeoutTimer s) = ring_size s" "max_seq_num_b10 (startTimeoutTimer s) = max_seq_num_b10 s"
  "in_window (startTimeoutTimer s) k = in_window s k" "plausible_ack (startTimeoutTimer s) k = plausible_ack s k"
  by (simp_all add: in_window_def plausible_ack_def startTimeoutTimer_eq)

lemma plausible_ack_cases:
  assumes core: "core_rel t0 P C A S s" and tm: "timers_ok s" and k: "plausible_ack s k"
    and active: "\<not> finished_sending_data s"
  shows "(\<exists>j. A \<le> j \<and> j < S \<and> k = int (j mod ring_size s)) \<or> 0 < A \<and> k = int ((A - 1) mod ring_size s)"
proof (cases "in_window s k")
  case True
  have "sender_rel t0 P C A S (startTimeoutTimer s)" by (rule sender_rel_startTimeoutTimer [OF core tm])
  from in_window_iff [OF this, of k] True k show ?thesis
    by (simp add: plausible_ack_def)
next
  case False
  then show ?thesis using k active core
    by (auto simp: plausible_ack_def core_rel_def counters_rel_def split: if_splits)
qed

lemma mid_clean:
  assumes "mid_rel t0 P C A B S m a s" shows "mid_rel t0 P C A B S m a (cleanTimers s)"
proof (rule mid_rel_timers [OF assms])
  show "cleanTimers s = s\<lparr>olderTimers := olderTimers (cleanTimers s), timers := timers s, timeoutTimer := timeoutTimer s\<rparr>"
    by (simp add: cleanTimers_def)
  show "timer_rel A B S m a (cleanTimers s)"
    using mid_relD(3) [OF assms] by (auto simp: timer_rel_def timers_ok_def cleanTimers_def dest: set_dropWhileD)
qed

lemma mid_end:
  assumes mid: "mid_rel t0 P C A B S m a s" shows "mid_rel t0 P C A B S m a (endConnection s)"
proof -
  have e: "endConnection s = s\<lparr>wire := wire s @ [[]]\<rparr>" by (simp add: endConnection_def sendPacketUnreliable_def)
  have "settled C B S' a (s\<lparr>wire := wire s @ [[]]\<rparr>) =
      settled C B S' a s\<lparr>wire := wire (settled C B S' a s) @ [[]]\<rparr>" for S'
    by (simp add: settled_def marked_def last_of_def)
  then have "core_rel t0 P C B (sent_total m S) (settled C B (sent_total m S) a (s\<lparr>wire := wire s @ [[]]\<rparr>))"
    using core_rel_end [OF mid_relD(1) [OF mid]] by simp
  moreover have "last_of A (s\<lparr>wire := wire s @ [[]]\<rparr>) = last_of A s"
    "pending_ok t0 P A B a (s\<lparr>wire := wire s @ [[]]\<rparr>) = pending_ok t0 P A B a s"
    "timer_rel A B S m a (s\<lparr>wire := wire s @ [[]]\<rparr>) = timer_rel A B S m a s"
    by (simp_all add: last_of_def pending_ok_def flight_slot_def slot_ok_def timer_rel_def timers_ok_def)
  ultimately show ?thesis using mid unfolding e by (simp add: mid_rel_def)
qed

lemma mid_counted:
  assumes mid: "mid_rel t0 P C A A S m No_ack s"
  shows "core_rel t0 P C A (sent_total m S) (counted m s)" and "timers_ok (counted m s)"
    and "window_map (counted m s) = window_map s" and "ring_size (counted m s) = ring_size s"
    and "finished_sending_data (counted m s) = finished_sending_data s"
    and "slot_ok t0 (counted m s) i p = slot_ok t0 s i p"
  using mid_relD(1,3) [OF mid] settled_counted [OF mid]
  by (simp_all add: counted_def slot_ok_def timer_rel_def timers_ok_def)

text \<open>An acknowledgement of a packet in flight is worked off; \<open>u\<close> is the sender after \<open>cleanTimers\<close>.\<close>

lemma check_flight:
  assumes mid: "mid_rel t0 P C A A S m No_ack u" and act: "\<not> finished_sending_data u"
    and j: "A \<le> j" "j < sent_total m S" and k: "k = int (j mod ring_size u)"
  shows "\<exists>p r. window_get k u = Inr p \<and> \<not> acked p \<and> sample_rtt p u = Inr (u\<lparr>estimated_rtt := r\<rparr>) \<and>
    mid_rel t0 P C A (Suc j) S m (Ack_checked k) (u\<lparr>estimated_rtt := r\<rparr>)"
proof -
  let ?N = "ring_size u"
  note d = mid_relD [OF mid] and same = mid_counted [OF mid]
  note core = same(1)
  obtain p where p: "window_map u ! (j mod ?N) = Some p" "packet_data p = P ! j" "\<not> acked p" "slot_ok t0 u (j mod ?N) p"
    using core_rel_slot [OF core j] same by metis
  have "clock_ok t0 u" using core by (simp add: core_rel_def counted_def clock_ok_def split: if_splits)
  then obtain r where r: "sample_rtt p u = Inr (u\<lparr>estimated_rtt := r\<rparr>)" "0 \<le> r" "r \<le> INT_MAX"
    using sample_rtt_rel [OF _ p(4)] by blast
  let ?s = "u\<lparr>estimated_rtt := r\<rparr>"
  have "settled C (Suc j) (sent_total m S) (Ack_checked k) ?s =
      counted m u\<lparr>estimated_rtt := r, base_idx := int (Suc j mod ?N), acked_count := int (Suc j) - int C,
        last_acked_packet := int (j mod ?N), window_map := (window_map u)[j mod ?N := Some (setAcked p)]\<rparr>"
    using p(1) settled_counted [OF mid, symmetric]
    by (simp add: settled_def marked_def last_of_def ring_size_def)
  then have "core_rel t0 P C (Suc j) (sent_total m S) (settled C (Suc j) (sent_total m S) (Ack_checked k) ?s)"
    using core_rel_acked [OF core j _ p(2) _ r(2,3)] p(1,4) same by simp
  moreover have "flight_slot t0 P ?s i" if "A \<le> i" "i < Suc j" for i
    using core_rel_slot [OF core, of i] that j(2) same
    by (fastforce simp: flight_slot_def slot_ok_def)
  then have "pending_ok t0 P A (Suc j) (Ack_checked k) ?s"
    using j k p d(7) by (simp add: pending_ok_def slot_ok_def real_base_def)
  moreover have "timer_rel A (Suc j) S m (Ack_checked k) ?s"
    using d(3) by (simp add: timer_rel_def timers_ok_def real_base_def)
  ultimately have "mid_rel t0 P C A (Suc j) S m (Ack_checked k) ?s"
    using j(1) d by (simp add: mid_rel_def real_base_def last_of_def)
  then show ?thesis using window_get_slot [OF d(2), of j p] p k r(1) by blast
qed

lemma cleanTimers_same [simp]:
  "ring_size (cleanTimers s) = ring_size s" "finished_sending_data (cleanTimers s) = finished_sending_data s"
  "conf (cleanTimers s) = conf s" "counted m (cleanTimers s) = cleanTimers (counted m s)"
  "timeoutTimer (cleanTimers s) = timeoutTimer s"
  by (simp_all add: cleanTimers_def counted_def conf_def)

lemma check_goes_on:
  assumes mid: "mid_rel t0 P C A A S m No_ack s" and act: "\<not> finished_sending_data s"
    and j: "A \<le> j" "j < sent_total m S" and k: "k = int (j mod ring_size s)"
  shows "\<exists>s'. acked_check k s = Inr (True, s') \<and> conf s' = conf s \<and> timeoutTimer s' = timeoutTimer s \<and>
    mid_rel t0 P C A (Suc j) S m (Ack_checked k) s'"
proof -
  obtain p r where "window_get k (cleanTimers s) = Inr p" "\<not> acked p"
    "sample_rtt p (cleanTimers s) = Inr (cleanTimers s\<lparr>estimated_rtt := r\<rparr>)"
    "mid_rel t0 P C A (Suc j) S m (Ack_checked k) (cleanTimers s\<lparr>estimated_rtt := r\<rparr>)"
    using check_flight [OF mid_clean [OF mid] _ j, of k] act k by auto
  moreover have "conf (cleanTimers s\<lparr>estimated_rtt := r\<rparr>) = conf s"
    using cleanTimers_same(3) [of s] by (simp add: conf_def)
  ultimately show ?thesis
    using act by (intro exI [of _ "cleanTimers s\<lparr>estimated_rtt := r\<rparr>"]) (simp add: acked_check_def Let_def getAcked_def)
qed

lemma mid_check:
  assumes mid: "mid_rel t0 P C A A S m No_ack s" and k: "plausible_ack (counted m s) k"
  shows "\<exists>go s' B. acked_check k s = Inr (go, s') \<and> conf s' = conf s \<and>
    (if go then mid_rel t0 P C A B S m (Ack_checked k) s' else mid_rel t0 P C A A S m No_ack s')"
proof -
  let ?N = "ring_size s" and ?u = "cleanTimers s"
  have midu: "mid_rel t0 P C A A S m No_ack ?u" by (rule mid_clean [OF mid])
  show ?thesis
  proof (cases "finished_sending_data s")
    case True
    then have "acked_check k s = Inr (False, endConnection ?u)" by (simp add: acked_check_def Let_def)
    then show ?thesis using mid_end [OF midu] by (intro exI [of _ False]) simp
  next
    case False
    note same = mid_counted [OF mid]
    consider j where "A \<le> j" "j < sent_total m S" "k = int (j mod ?N)" | "0 < A" "k = int ((A - 1) mod ?N)"
      using plausible_ack_cases [OF same(1,2) k] False same by auto
    then show ?thesis
    proof cases
      case 1
      then show ?thesis using check_goes_on [OF mid False] by (metis (full_types))
    next
      case 2
      obtain p where p: "window_map s ! ((A - 1) mod ?N) = Some p" "acked p"
        using same 2(1) by (auto simp: core_rel_def window_rel_def)
      then have "window_map ?u ! ((A - 1) mod ?N) = Some p" by (simp add: cleanTimers_def)
      then have "acked_check k s = Inr (False, ?u)"
        using False p(2) window_get_slot [OF mid_relD(2) [OF midu], of "A - 1" p] 2(2)
        by (simp add: acked_check_def Let_def getAcked_def)
      then show ?thesis using midu by (intro exI [of _ False]) simp
    qed
  qed
qed

lemma mid_base:
  assumes mid: "mid_rel t0 P C A B S m (Ack_checked k) s"
  shows "\<exists>s'. acked_base k s = Inr s' \<and> mid_rel t0 P C A B S m (Base_set k) s' \<and> conf s' = conf s"
proof -
  note d = mid_relD [OF mid]
  have pend: "pending_ok t0 P A B (Ack_checked k) s" using mid by (simp add: mid_rel_def)
  then have B: "Suc (B - 1) = B" and k: "k = int ((B - 1) mod ring_size s)" by (auto simp: pending_ok_def)
  let ?s = "s\<lparr>base_idx := int (B mod ring_size s)\<rparr>"
  have "acked_base k s = Inr ?s"
    using setBaseIdx_eq [OF d(2), of "B - 1"] B k by (simp add: acked_base_def)
  moreover have "settled C B (sent_total m S) (Base_set k) ?s = settled C B (sent_total m S) (Ack_checked k) s"
    by (simp add: settled_def marked_def last_of_def)
  moreover have "last_of A ?s = last_of A s" "pending_ok t0 P A B (Base_set k) ?s"
    using pend by (auto simp: last_of_def pending_ok_def slot_ok_def real_base_def)
  moreover have "timer_rel A B S m (Base_set k) ?s" using d(3) by (simp add: timer_rel_def timers_ok_def)
  moreover have "sent_total m S \<le> B + nat (window_size s)" using d(5,7) by (simp add: real_base_def)
  ultimately have "acked_base k s = Inr ?s" "mid_rel t0 P C A B S m (Base_set k) ?s"
    using mid by (simp_all add: mid_rel_def real_base_def)
  then show ?thesis by (simp add: conf_def)
qed

lemma mid_ack_compare:
  assumes mid: "mid_rel t0 P C A B S m (Base_set k) s"
  shows "mid_rel t0 P C A B S m (Ack_compared k meet) s"
  using mid_relD(3) [OF mid]
  by (intro mid_rel_ack_phase [OF mid]) (simp_all add: real_base_def timer_rel_def)

lemma mid_ack_timer:
  assumes mid: "mid_rel t0 P C A B S m (Ack_compared k meet) s"
  shows "acked_timer meet s = Inl (Undefined Null_dereference) \<or>
    (\<exists>s'. acked_timer meet s = Inr s' \<and> mid_rel t0 P C A B S m (Ack_timed k) s' \<and> conf s' = conf s)"
proof -
  note d = mid_relD [OF mid]
  have phase: "mid_rel t0 P C A B S m (Ack_timed k) s'"
    if "mid_rel t0 P C A B S m (Ack_compared k meet) s'" "timeoutTimer s' \<noteq> None" for s'
    using that mid_relD(3) [OF that(1)]
    by (intro mid_rel_ack_phase [OF that(1)]) (auto simp: real_base_def timer_rel_def)
  show ?thesis
  proof (cases "meet \<longrightarrow> timeoutTimer s \<noteq> None")
    case False
    then show ?thesis by (simp add: acked_timer_def)
  next
    case True
    show ?thesis
    proof (cases meet)
      case stop: True
      then obtain i where i: "timeoutTimer s = Some i" using True by auto
      let ?s = "stop_timer_at i s"
      have "timers_ok ?s"
        using d(3) i by (auto simp: timer_rel_def stop_timer_at_def timers_ok_def dest!: set_update_subset_insert [THEN subsetD])
      then have "mid_rel t0 P C A B S m (Ack_compared k meet) ?s"
        by (intro mid_rel_timers [OF mid, where x = "olderTimers s" and y = "timers ?s" and z = "timeoutTimer s"])
          (simp_all add: stop_timer_at_def timer_rel_def)
      from phase [OF this] show ?thesis
        using stop i by (simp add: acked_timer_def stop_timer_at_def conf_def)
    next
      case False
      from phase [OF mid_rel_start [OF mid]] False show ?thesis
        by (simp add: acked_timer_def startTimeoutTimer_eq conf_def)
    qed
  qed
qed

lemma mid_mark:
  assumes mid: "mid_rel t0 P C A B S m (Ack_timed k) s"
  shows "\<exists>s'. acked_mark k s = Inr s' \<and> mid_rel t0 P C B B S m No_ack s' \<and> conf s' = conf s"
proof -
  let ?N = "ring_size s"
  note d = mid_relD [OF mid]
  have pend: "pending_ok t0 P A B (Ack_timed k) s" using mid by (simp add: mid_rel_def)
  then have B: "A \<le> B - 1" "B - 1 < A + nat (window_size s)" "Suc (B - 1) = B" "0 < B"
    and k: "k = int ((B - 1) mod ?N)" by (auto simp: pending_ok_def)
  obtain p where p: "window_map s ! ((B - 1) mod ?N) = Some p" using pend by (auto simp: pending_ok_def)
  define x where "x = s\<lparr>acked_count := int B - int C, last_acked_packet := k\<rparr>"
  have "int B \<le> INT_MAX" using d(6,12,13) by linarith
  then have "count_acked k s = Inr x"
    using count_acked_eq [OF d(2) B(1,2) d(4)] d(10,11) B(3) k by (simp add: last_of_def x_def)
  moreover have cfg: "sender_cfg x" "ring_size x = ?N" using d(2) by (simp_all add: x_def sender_cfg_def ring_size_def)
  moreover have "window_get k x = Inr p" using window_get_slot [OF cfg(1), of "B - 1" p] p cfg(2) k by (simp add: x_def)
  moreover have "window_put k (setAcked p) x = Inr (x\<lparr>window_map := (window_map x)[(B - 1) mod ?N := Some (setAcked p)]\<rparr>)"
    using window_put_slot [OF cfg(1), of "B - 1"] cfg(2) k by simp
  ultimately have res: "acked_mark k s = Inr (x\<lparr>window_map := (window_map x)[(B - 1) mod ?N := Some (setAcked p)]\<rparr>)"
    (is "_ = Inr ?s") by (simp add: acked_mark_def)
  have "settled C B (sent_total m S) No_ack ?s = settled C B (sent_total m S) (Ack_timed k) s"
    using p by (simp add: settled_def marked_def last_of_def x_def)
  moreover have "timer_rel B B S m No_ack ?s"
    using d(3) B(4) by (simp add: timer_rel_def timers_ok_def real_base_def x_def)
  moreover have "last_of B ?s = k" using B(4) k by (simp add: last_of_def x_def)
  ultimately have "mid_rel t0 P C B B S m No_ack ?s"
    using mid d(4,5) by (simp add: mid_rel_def real_base_def x_def)
  then show ?thesis using res by (simp add: x_def conf_def)
qed

subsection \<open>The clock and the timers\<close>

lemma mid_tick:
  assumes mid: "mid_rel t0 P C A B S m a s" and n: "now s \<le> n" "n \<le> t0 + INT_MAX"
  shows "mid_rel t0 P C A B S m a (s\<lparr>now := n\<rparr>)"
proof -
  have "settled C B S' a (s\<lparr>now := n\<rparr>) = settled C B S' a s\<lparr>now := n\<rparr>" for S'
    by (simp add: settled_def marked_def last_of_def)
  then have "core_rel t0 P C B (sent_total m S) (settled C B (sent_total m S) a (s\<lparr>now := n\<rparr>))"
    using core_rel_tick [OF mid_relD(1) [OF mid]] n by simp
  moreover have "pending_ok t0 P A B a s \<Longrightarrow> pending_ok t0 P A B a (s\<lparr>now := n\<rparr>)"
    using n(1) by (fastforce simp: pending_ok_def flight_slot_def slot_ok_def)
  moreover have "last_of A (s\<lparr>now := n\<rparr>) = last_of A s" "timer_rel A B S m a (s\<lparr>now := n\<rparr>) = timer_rel A B S m a s"
    by (simp_all add: last_of_def timer_rel_def timers_ok_def)
  ultimately show ?thesis using mid by (simp add: mid_rel_def)
qed

lemma mid_put_timer:
  assumes mid: "mid_rel t0 P C A B S m a s" and t: "started t"
  shows "mid_rel t0 P C A B S m a (put_timer i t s)"
proof (rule mid_rel_timers [OF mid])
  show "put_timer i t s = s\<lparr>olderTimers := olderTimers s, timers := (timers s)[i := t], timeoutTimer := timeoutTimer s\<rparr>"
    by (simp add: put_timer_def)
  show "timer_rel A B S m a (put_timer i t s)"
    using mid_relD(3) [OF mid] t
    by (auto simp: timer_rel_def timers_ok_def put_timer_def dest!: set_update_subset_insert [THEN subsetD])
qed

text \<open>
  The loop of \<open>timeoutHandler\<close>, without the counters: a packet that is sent again keeps what the
  invariant says of it.
\<close>

definition same_packet :: "int \<Rightarrow> client_sender \<Rightarrow> packet \<Rightarrow> packet \<Rightarrow> bool" where
  "same_packet t0 s p q \<longleftrightarrow> packet_data q = packet_data p \<and> acked q = acked p \<and>
     (\<forall>j. slot_ok t0 s j p \<longrightarrow> slot_ok t0 s j q)"

abbreviation same_window :: "int \<Rightarrow> client_sender \<Rightarrow> packet option list \<Rightarrow> packet option list \<Rightarrow> bool" where
  "same_window t0 s \<equiv> list_all2 (rel_option (same_packet t0 s))"

lemma same_packet_refl [simp]: "same_packet t0 s p p"
  by (simp add: same_packet_def)

lemma same_packet_trans: "same_packet t0 s p q \<Longrightarrow> same_packet t0 s q r \<Longrightarrow> same_packet t0 s p r"
  by (simp add: same_packet_def)

lemma same_window_refl [simp]: "same_window t0 s w w"
  by (rule list.rel_refl) (simp add: option.rel_refl)

lemma same_window_trans: "same_window t0 s u v \<Longrightarrow> same_window t0 s v w \<Longrightarrow> same_window t0 s u w"
  by (erule (1) list_all2_trans [rotated])
    (auto simp: option.rel_sel intro: same_packet_trans split: option.splits)

lemma same_window_slot:
  assumes "same_window t0 s u w" and "i < length u" and "u ! i = Some p"
  shows "\<exists>q. w ! i = Some q \<and> same_packet t0 s p q"
proof -
  have "rel_option (same_packet t0 s) (u ! i) (w ! i)" using assms(1,2) by (rule list_all2_nthD)
  then show ?thesis using assms(3) by (cases "w ! i") auto
qed

lemma flight_slot_same:
  assumes "flight_slot t0 P s i" and "same_window t0 s (window_map s) w" and "sender_cfg s"
  shows "flight_slot t0 P (s\<lparr>window_map := w\<rparr>) i"
proof -
  from assms(1) obtain p where p: "window_map s ! (i mod ring_size s) = Some p" "packet_data p = P ! i"
    "slot_ok t0 s (i mod ring_size s) p" by (auto simp: flight_slot_def)
  from same_window_slot [OF assms(2) cfg_slot [OF assms(3)] p(1)] p(2,3) show ?thesis
    by (auto simp: flight_slot_def same_packet_def slot_ok_def)
qed

lemma core_rel_same_window:
  assumes core: "core_rel t0 P C A S s" and same: "same_window t0 s (window_map s) w"
  shows "core_rel t0 P C A S (s\<lparr>window_map := w\<rparr>)"
proof -
  have cfg: "sender_cfg s" and win: "window_rel P A S s" and slots: "slots_ok t0 s"
    using core by (auto simp: core_rel_def)
  have len: "length w = length (window_map s)" using same by (simp add: list_all2_lengthD)
  have slot: "\<exists>q. w ! (i mod ring_size s) = Some q \<and> same_packet t0 s p q"
    if "window_map s ! (i mod ring_size s) = Some p" for i p
    using same_window_slot [OF same _ that] cfg_slot [OF cfg] by blast
  have "window_rel P A S (s\<lparr>window_map := w\<rparr>)"
    using win slot by (fastforce simp: window_rel_def same_packet_def)
  moreover have "slots_ok t0 (s\<lparr>window_map := w\<rparr>)"
    unfolding slots_ok_def
  proof (intro allI impI)
    fix j q assume j: "j < ring_size (s\<lparr>window_map := w\<rparr>)" "window_map (s\<lparr>window_map := w\<rparr>) ! j = Some q"
    then have lt: "j < length (window_map s)" using cfg by (simp add: sender_cfg_def)
    have "rel_option (same_packet t0 s) (window_map s ! j) (w ! j)" using same lt by (rule list_all2_nthD)
    then obtain p where "window_map s ! j = Some p" "same_packet t0 s p q"
      using j(2) by (cases "window_map s ! j") auto
    then show "slot_ok t0 (s\<lparr>window_map := w\<rparr>) j q"
      using slots j(1) by (simp add: slots_ok_def same_packet_def slot_ok_def)
  qed
  moreover have "sender_cfg (s\<lparr>window_map := w\<rparr>)" using cfg len by (simp add: sender_cfg_def)
  ultimately show ?thesis using core by (simp add: core_rel_def counters_rel_def clock_ok_def)
qed

lemma resend_packet_slot:
  assumes cfg: "sender_cfg s" and p: "window_map s ! (i mod ring_size s) = Some p" "packet_data p = P ! i"
    "slot_ok t0 s (i mod ring_size s) p"
  shows "\<exists>w. resend_packet (int (i mod ring_size s)) s =
      Inr (s\<lparr>window_map := w, wire := wire s @ [packet_datagram s P i]\<rparr>) \<and> same_window t0 s (window_map s) w"
proof -
  define q where "q = snd (generatePacketString (setRetransmitted p))"
  have ok: "packet_ok (digits s) (setRetransmitted p)" using p(3) by (simp add: slot_ok_def)
  have str: "generatePacketString (setRetransmitted p) = (packet_datagram s P i, q)"
    using generatePacketString_ok(1) [OF ok] p(2,3)
    by (simp add: q_def packet_datagram_def slot_ok_def packet_ops prod_eq_iff)
  have "packet_data q = packet_data p" "acked q = acked p" "seqnum q = seqnum p" "starting_time q = starting_time p"
    by (simp_all add: q_def generatePacketString_frame) (simp_all add: packet_ops)
  then have same: "same_packet t0 s p q"
    using generatePacketString_ok(2) [OF ok] by (simp add: same_packet_def slot_ok_def q_def)
  let ?w = "(window_map s)[i mod ring_size s := Some q]"
  have "same_window t0 s ((window_map s)[i mod ring_size s := Some p]) ?w"
    by (rule list_all2_update_cong) (simp_all add: same)
  then have "same_window t0 s (window_map s) ?w" using p(1) by (metis list_update_id)
  moreover have "resend_packet (int (i mod ring_size s)) s =
      Inr (s\<lparr>window_map := ?w, wire := wire s @ [packet_datagram s P i]\<rparr>)"
    using str window_get_slot [OF cfg p(1)] window_put_slot [OF cfg, of i q]
    by (simp add: resend_packet_def sendPacketUnreliable_def UNRELIABLE_PACKET_DELAY_MS_def)
  ultimately show ?thesis by blast
qed

lemma core_rel_resent:
  assumes core: "core_rel t0 P C A S s" and j: "j < S" "S \<le> j + nat (window_size s)"
  shows "core_rel t0 P C A S (s\<lparr>wire := wire s @ [packet_datagram s P j]\<rparr>)"
proof -
  have "packet_datagram (s\<lparr>wire := x\<rparr>) P = packet_datagram s P" for x
    by (simp add: fun_eq_iff packet_datagram_def)
  then show ?thesis
    using core log_again [OF _ j]
    by (simp add: core_rel_def sender_cfg_def counters_rel_def window_rel_def slots_ok_def slot_ok_def clock_ok_def)
qed

lemma same_window_marked:
  assumes same: "same_window t0 s (window_map s) w" and cfg: "sender_cfg s"
  shows "same_window t0 s (marked a (i mod ring_size s) s) (marked a (i mod ring_size s) (s\<lparr>window_map := w\<rparr>))"
proof -
  have "rel_option (same_packet t0 s) (window_map s ! (i mod ring_size s)) (w ! (i mod ring_size s))"
    using same cfg_slot [OF cfg] by (rule list_all2_nthD)
  then have "rel_option (same_packet t0 s) (map_option setAcked (window_map s ! (i mod ring_size s)))
      (map_option setAcked (w ! (i mod ring_size s)))"
    by (cases "window_map s ! (i mod ring_size s)"; cases "w ! (i mod ring_size s)")
      (auto simp: same_packet_def slot_ok_def packet_ops packet_ok_def)
  with same show ?thesis by (auto simp: marked_def intro: list_all2_update_cong)
qed

lemma mid_rel_resent:
  assumes mid: "mid_rel t0 P C A B S Not_sending a s" and same: "same_window t0 s (window_map s) w"
    and j: "j < S" "S \<le> j + nat (window_size s)"
  shows "mid_rel t0 P C A B S Not_sending a
    (s\<lparr>window_map := w, wire := wire s @ [packet_datagram s P j]\<rparr>)" (is "mid_rel _ _ _ _ _ _ _ _ ?t")
proof -
  note d = mid_relD [OF mid, unfolded sent_total_def, simplified]
  let ?y = "settled C B S a s" and ?m = "marked a ((B - 1) mod ring_size s)"
  have "same_packet t0 ?y = same_packet t0 s" by (simp add: same_packet_def slot_ok_def fun_eq_iff)
  moreover have "same_window t0 s (window_map ?y) (?m (s\<lparr>window_map := w\<rparr>))"
    using same_window_marked [OF same d(2), of a "B - 1"] by (simp add: settled_def)
  ultimately have "core_rel t0 P C B S (?y\<lparr>window_map := ?m (s\<lparr>window_map := w\<rparr>)\<rparr>)"
    by (intro core_rel_same_window [OF d(1)[unfolded sent_total_def, simplified]]) simp
  moreover have "settled C B S a ?t = ?y\<lparr>window_map := ?m (s\<lparr>window_map := w\<rparr>),
      wire := wire s @ [packet_datagram s P j]\<rparr>"
    by (simp add: settled_def marked_def last_of_def)
  moreover have "packet_datagram (?y\<lparr>window_map := ?m (s\<lparr>window_map := w\<rparr>)\<rparr>) P = packet_datagram s P"
    by (simp add: fun_eq_iff packet_datagram_def)
  ultimately have "core_rel t0 P C B S (settled C B S a ?t)"
    using core_rel_resent [of t0 P C B S "?y\<lparr>window_map := ?m (s\<lparr>window_map := w\<rparr>)\<rparr>" j] j by simp
  moreover have "timer_rel A B S Not_sending a ?t = timer_rel A B S Not_sending a s" "last_of A ?t = last_of A s"
    by (simp_all add: timer_rel_def timers_ok_def last_of_def)
  moreover have "pending_ok t0 P A B a ?t" if pend: "pending_ok t0 P A B a s"
  proof -
    obtain p where p: "window_map s ! ((B - 1) mod ring_size s) = Some p" "packet_data p = P ! (B - 1)" "\<not> acked p"
      "slot_ok t0 s ((B - 1) mod ring_size s) p" using pend by (auto simp: pending_ok_def)
    have "flight_slot t0 P ?t i" if "flight_slot t0 P s i" for i
      using flight_slot_same [OF that same d(2)] by (simp add: flight_slot_def slot_ok_def)
    with same_window_slot [OF same cfg_slot [OF d(2)] p(1)] p pend show ?thesis
      by (auto simp: pending_ok_def same_packet_def slot_ok_def)
  qed
  ultimately show ?thesis using mid by (simp add: mid_rel_def sent_total_def)
qed

lemma mid_flight:
  assumes mid: "mid_rel t0 P C A B S Not_sending a s" and i: "real_base a A B \<le> i" "i < S"
  shows "flight_slot t0 P s i"
proof (cases "B \<le> i")
  case True
  let ?N = "ring_size s"
  note d = mid_relD [OF mid, unfolded sent_total_def, simplified]
  note c = cfg_ring [OF d(2)]
  have "(B - 1) mod ?N \<noteq> i mod ?N" if "a \<noteq> No_ack"
  proof (rule ring_neq [OF c(2)])
    have "0 < B" using that mid by (auto simp: mid_rel_def pending_ok_def)
    then show "B - 1 < i" "i < B - 1 + ?N" using True i(2) d(7,14) c(6) by linarith+
  qed
  then have "marked a ((B - 1) mod ?N) s ! (i mod ?N) = window_map s ! (i mod ?N)"
    by (simp add: marked_def)
  with core_rel_slot [OF d(1) True i(2)] show ?thesis
    by (fastforce simp: flight_slot_def settled_def slot_ok_def)
next
  case False
  with i(1) mid show ?thesis by (auto simp: mid_rel_def pending_ok_def real_base_def split: if_splits)
qed

text \<open>
  What a handler in its loop relies on: no packet is sent meanwhile, and the slots it has still to
  send keep their packets, also when they are acknowledged.
\<close>

fun handler_ok :: "int \<Rightarrow> string list \<Rightarrow> nat \<Rightarrow> handler_phase \<Rightarrow> client_sender \<Rightarrow> bool" where
  "handler_ok t0 P S (Resending i nseqnum bidx buffer_size wsize j) s \<longleftrightarrow>
     nseqnum = int (S mod ring_size s) \<and> buffer_size = int (ring_size s) \<and> wsize = window_size s \<and>
     (\<exists>R k. bidx = int (R mod ring_size s) \<and> j = int (k mod ring_size s) \<and> R \<le> k \<and> k \<le> S \<and>
        S \<le> R + nat (window_size s) \<and> (\<forall>l. k \<le> l \<and> l < S \<longrightarrow> flight_slot t0 P s l))"
| "handler_ok t0 P S h s = True"

lemma handler_okI:
  assumes "R \<le> k" and "k \<le> S" and "S \<le> R + nat (window_size s)" and "\<And>l. k \<le> l \<Longrightarrow> l < S \<Longrightarrow> flight_slot t0 P s l"
  shows "handler_ok t0 P S (Resending i (int (S mod ring_size s)) (int (R mod ring_size s)) (int (ring_size s))
    (window_size s) (int (k mod ring_size s))) s"
  using assms by auto

definition handler_rel :: "int \<Rightarrow> string list \<Rightarrow> nat \<Rightarrow> send_phase \<Rightarrow> handler_phase \<Rightarrow> client_sender \<Rightarrow> bool" where
  "handler_rel t0 P S m h s \<longleftrightarrow> h = No_handler \<or> m = Not_sending \<and> handler_ok t0 P S h s"

lemma handler_begin_rel:
  assumes mid: "mid_rel t0 P C A B S Not_sending a s"
  shows "\<exists>h. handler_begin i s = Inr h \<and> handler_rel t0 P S Not_sending h s"
proof -
  note d = mid_relD [OF mid, unfolded sent_total_def, simplified]
  have "real_base a A B \<le> S" using d(6,14) by simp
  from handler_okI [OF order_refl this d(7) mid_flight [OF mid]] show ?thesis
    using cfg_ring(9) [OF d(2)] d(8,9)
    by (simp add: handler_begin_def handler_rel_def getNextSeqNum_def getBaseIdx_def getWindowSize_def del: handler_ok.simps)
qed

lemma resend_next_rel:
  assumes mid: "mid_rel t0 P C A B S Not_sending a s"
    and ok: "handler_ok t0 P S (Resending i nseqnum bidx buffer_size wsize j) s"
    and guard: "resend_guard nseqnum bidx buffer_size wsize j"
  shows "\<exists>j' s'. resend_next buffer_size j s = Inr (j', s') \<and> mid_rel t0 P C A B S Not_sending a s' \<and>
    conf s' = conf s \<and> handler_ok t0 P S (Resending i nseqnum bidx buffer_size wsize j') s'"
proof -
  let ?N = "ring_size s" and ?w = "nat (window_size s)"
  have cfg: "sender_cfg s" by (rule mid_relD(2) [OF mid])
  note c = cfg_ring [OF cfg]
  obtain R k where ph: "nseqnum = int (S mod ?N)" "buffer_size = int ?N" "wsize = window_size s"
      "bidx = int (R mod ?N)" "j = int (k mod ?N)"
    and k: "R \<le> k" "k \<le> S" "S \<le> R + ?w" and fl: "\<And>l. k \<le> l \<Longrightarrow> l < S \<Longrightarrow> flight_slot t0 P s l"
    using ok by auto
  have kS: "k < S"
    using resend_test [of ?N R k S ?w] c(2,6) k guard unfolding ph c(5) [symmetric] by simp
  obtain p where p: "window_map s ! (k mod ?N) = Some p" "packet_data p = P ! k" "slot_ok t0 s (k mod ?N) p"
    using fl [OF order_refl kS] by (auto simp: flight_slot_def)
  obtain w where w: "resend_packet (int (k mod ?N)) s =
      Inr (s\<lparr>window_map := w, wire := wire s @ [packet_datagram s P k]\<rparr>)" (is "_ = Inr ?s")
    and same: "same_window t0 s (window_map s) w"
    using resend_packet_slot [OF cfg p] by blast
  have lt: "k mod ?N < ?N" using c(2) by simp
  then have "in_int (int (k mod ?N) + 1)" using c(4) unfolding int_bounds by linarith
  then have add: "iadd (int (k mod ?N)) 1 = Inr (int (Suc (k mod ?N)))" by simp
  have md: "imod (int (Suc (k mod ?N))) (int ?N) = Inr (int (Suc k mod ?N))"
    using cfg_imod [OF cfg, of "Suc (k mod ?N)"] lt ring_Suc [OF c(2), of k] by simp
  have next_j: "resend_next buffer_size j s = Inr (int (Suc k mod ?N), ?s)"
    using w add md by (simp add: resend_next_def ph del: of_nat_Suc)
  have "S \<le> k + ?w" using k by linarith
  from mid_rel_resent [OF mid same kS this]
  have mid': "mid_rel t0 P C A B S Not_sending a ?s" .
  have "flight_slot t0 P ?s l" if "Suc k \<le> l" "l < S" for l
    using flight_slot_same [OF fl same cfg] that by (simp add: flight_slot_def slot_ok_def)
  then have "handler_ok t0 P S (Resending i nseqnum bidx buffer_size wsize (int (Suc k mod ?N))) ?s"
    using handler_okI [of R "Suc k" S ?s t0 P i] ph k kS by (simp del: handler_ok.simps)
  moreover have "conf ?s = conf s" by (simp add: conf_def)
  ultimately show ?thesis using next_j mid' by blast
qed

lemma mid_timer_exits:
  assumes mid: "mid_rel t0 P C A B S m a s"
  shows "mid_rel t0 P C A B S m a (timer_exits i s)"
proof (cases "i < length (timers s)")
  case True
  have "timers_ok s" using mid_relD(3) [OF mid] by (simp add: timer_rel_def)
  with True have "started (timers s ! i)" by (auto simp: timers_ok_def)
  then show ?thesis unfolding timer_exits_def by (intro mid_put_timer [OF mid]) (simp add: thread_exit_def)
qed (use mid in \<open>simp add: timer_exits_def put_timer_def list_update_beyond\<close>)

text \<open>The steps of the other threads meanwhile.\<close>

definition slots_kept :: "client_sender \<Rightarrow> client_sender \<Rightarrow> bool" where
  "slots_kept s s' \<longleftrightarrow> ring_size s' = ring_size s \<and> digits s' = digits s \<and> window_size s' = window_size s \<and>
     next_seq_num_idx s' = next_seq_num_idx s \<and> now s \<le> now s' \<and>
     (\<forall>j p. window_map s ! j = Some p \<longrightarrow> (\<exists>q. window_map s' ! j = Some q \<and> packet_data q = packet_data p \<and>
        seqnum q = seqnum p \<and> starting_time q = starting_time p \<and> (packet_ok (digits s) p \<longrightarrow> packet_ok (digits s) q)))"

lemma slots_kept_same:
  "ring_size s' = ring_size s \<Longrightarrow> digits s' = digits s \<Longrightarrow> window_size s' = window_size s \<Longrightarrow>
     next_seq_num_idx s' = next_seq_num_idx s \<Longrightarrow> now s \<le> now s' \<Longrightarrow> window_map s' = window_map s \<Longrightarrow> slots_kept s s'"
  by (auto simp: slots_kept_def)

lemma slots_kept_flight:
  assumes kept: "slots_kept s s'" and flight: "flight_slot t0 P s i" shows "flight_slot t0 P s' i"
proof -
  obtain p where p: "window_map s ! (i mod ring_size s) = Some p" "packet_data p = P ! i"
    "slot_ok t0 s (i mod ring_size s) p" using flight by (auto simp: flight_slot_def)
  then obtain q where "window_map s' ! (i mod ring_size s) = Some q" "packet_data q = packet_data p"
    "seqnum q = seqnum p" "starting_time q = starting_time p" "packet_ok (digits s) q"
    using kept unfolding slots_kept_def slot_ok_def by blast
  with p kept show ?thesis by (auto simp: flight_slot_def slot_ok_def slots_kept_def)
qed

lemma slots_kept_handler:
  assumes "slots_kept s s'" and "handler_ok t0 P S h s" shows "handler_ok t0 P S h s'"
proof (cases h)
  case (Resending i nseqnum bidx buffer_size wsize j)
  then obtain R k where "nseqnum = int (S mod ring_size s)" "buffer_size = int (ring_size s)" "wsize = window_size s"
    "bidx = int (R mod ring_size s)" "j = int (k mod ring_size s)"
    and "R \<le> k" "k \<le> S" "S \<le> R + nat (window_size s)" "\<And>l. k \<le> l \<Longrightarrow> l < S \<Longrightarrow> flight_slot t0 P s l"
    using assms(2) by auto
  moreover have "ring_size s' = ring_size s" "window_size s' = window_size s"
    using assms(1) by (simp_all add: slots_kept_def)
  ultimately show ?thesis
    using handler_okI [of R k S s' t0 P i] slots_kept_flight [OF assms(1)] Resending by (simp del: handler_ok.simps)
qed simp_all

subsection \<open>The whole client\<close>

definition preempted_rel ::
    "bool option \<Rightarrow> int \<Rightarrow> string list \<Rightarrow> nat \<Rightarrow> nat \<Rightarrow> nat \<Rightarrow> nat \<Rightarrow> send_phase \<Rightarrow> ack_phase \<Rightarrow> system \<Rightarrow> bool"
where
  "preempted_rel ret t0 P C A B S m a y \<longleftrightarrow>
     mid_rel t0 P C A B S m a (clientSender y) \<and> source_ok (clientSender y) \<and> receiver_ok y \<and>
     (finished_sending_data (clientSender y) \<longleftrightarrow> sender_at y = Done) \<and>
     drop (sent_total m S) P = unsent y \<and>
     phase_ok ret C A (sent_total m S) (dp_left (dataProcessor (clientSender y))) (sender_at y) \<and>
     (m \<noteq> Not_sending \<longrightarrow> (\<exists>ds q. sender_at y = Sending ds q))"

lemma preempted_rel_rest:
  "preempted_rel ret t0 P C A A S Not_sending No_ack y \<longleftrightarrow> system_rel ret t0 P C A S y"
  by (auto simp: preempted_rel_def system_rel_def mid_rel_rest sent_total_def)

lemma preempted_relD:
  assumes "preempted_rel ret t0 P C A B S m a y"
  shows "mid_rel t0 P C A B S m a (clientSender y)" and "if a = No_ack then B = A else A < B"
    and "B \<le> sent_total m S"
proof -
  show mid: "mid_rel t0 P C A B S m a (clientSender y)" using assms by (simp add: preempted_rel_def)
  show "if a = No_ack then B = A else A < B" using mid by (auto simp: mid_rel_def pending_ok_def)
  show "B \<le> sent_total m S" by (rule mid_relD(6) [OF mid])
qed

text \<open>A state with an acknowledgement under way has packets that are not acknowledged.\<close>

lemma preempted_settled:
  assumes "preempted_rel ret t0 P C A B S Not_sending a y" and "A = S"
  shows "a = No_ack \<and> B = A \<and> system_rel ret t0 P C A S y"
  using assms preempted_relD [OF assms(1)] preempted_rel_rest
  by (cases "a = No_ack") (auto simp: sent_total_def)

lemma preempted_rel_sender:
  assumes rel: "preempted_rel ret t0 P C A B S m a y" and s': "conf s' = conf (clientSender y)"
    and mid: "mid_rel t0 P C A' B' S' m' a' s'" and A: "A \<le> A'"
    and S: "sent_total m' S' = sent_total m S" and m: "m = Not_sending \<longrightarrow> m' = Not_sending"
  shows "preempted_rel ret t0 P C A' B' S' m' a' (y\<lparr>clientSender := s'\<rparr>)"
proof -
  note eq = conf_eq_fields [OF s']
  have "A' \<le> sent_total m S" using mid_relD(5,6) [OF mid] S by simp
  with A rel have "phase_ok ret C A' (sent_total m S) (dp_left (dataProcessor (clientSender y))) (sender_at y)"
    by (auto simp: preempted_rel_def intro: phase_ok_acked)
  moreover have "receiver_ok (y\<lparr>clientSender := s'\<rparr>) = receiver_ok y"
    "unsent (y\<lparr>clientSender := s'\<rparr>) = unsent y"
    by (simp_all add: receiver_ok_def unsent_def loop_data_def eq)
  ultimately show ?thesis using rel mid S m by (auto simp: preempted_rel_def eq)
qed

text \<open>What every step leads to: a state of the invariant, or the null pointer of \<open>ackedPacket\<close>.\<close>

definition preempted_good :: "bool option \<Rightarrow> int \<Rightarrow> string list \<Rightarrow> nat \<Rightarrow> system \<Rightarrow> threads \<Rightarrow> bool" where
  "preempted_good ret t0 P S y r \<longleftrightarrow>
     (\<exists>y' m a C A B S'. r = Inr (y', m, a) \<and> preempted_rel ret t0 P C A B S' m a y' \<and>
        fst (conf (clientSender y')) = fst (conf (clientSender y)) \<and> (S' = S \<or> S' = Suc S))"

lemma preempted_goodI:
  "preempted_rel ret t0 P C A B S' m a y' \<Longrightarrow> fst (conf (clientSender y')) = fst (conf (clientSender y)) \<Longrightarrow>
     S' = S \<or> S' = Suc S \<Longrightarrow> preempted_good ret t0 P S y (Inr (y', m, a))"
  unfolding preempted_good_def by blast

lemma own_preempted:
  assumes "own_step ret t0 P A S y r" shows "preempted_good ret t0 P S y (with_phases Not_sending No_ack r)"
proof -
  obtain y' C' S' where y': "r = Inr y'" "system_rel ret t0 P C' A S' y'"
    "fst (conf (clientSender y')) = fst (conf (clientSender y))"
    and move: "gbn_move (nat (window_size (clientSender y))) (length P) (A, S) (A, S')"
    using assms unfolding own_step_def by blast
  have "S' = S \<or> S' = Suc S" using move by (auto simp: gbn_move_def gbn_step_simps)
  from preempted_goodI [OF y'(2) [folded preempted_rel_rest] y'(3) this] y'(1) show ?thesis
    by (simp add: with_phases_def)
qed

lemma on_sender_good:
  assumes rel: "preempted_rel ret t0 P C A B S m a y"
    and f: "\<exists>s'. f (clientSender y) = Inr s' \<and> mid_rel t0 P C A' B' S' m' a' s' \<and> conf s' = conf (clientSender y)"
    and A: "A \<le> A'" and S: "sent_total m' S' = sent_total m S" "S' = S \<or> S' = Suc S"
    and m: "m = Not_sending \<longrightarrow> m' = Not_sending"
  shows "preempted_good ret t0 P S y (on_sender f m' a' y)"
proof -
  obtain s' where s': "f (clientSender y) = Inr s'" "mid_rel t0 P C A' B' S' m' a' s'" "conf s' = conf (clientSender y)"
    using f by blast
  from preempted_goodI [OF preempted_rel_sender [OF rel s'(3,2) A S(1) m] _ S(2), of y] s' show ?thesis
    by (simp add: on_sender_def)
qed

lemma send_preempted_rel:
  assumes rel: "preempted_rel ret t0 P C A B S Not_sending a y" and pc: "sender_at y = Sending (d # ds) q"
    and adv: "canAdvance (clientSender y) = Inr True"
  shows "\<exists>s'. send_packet d (clientSender y) = Inr s' \<and> conf s' = conf (clientSender y) \<and>
    preempted_rel ret t0 P C A B S Packet_sent a (y\<lparr>sender_at := Sending ds q, clientSender := s'\<rparr>)"
proof -
  let ?s = "clientSender y"
  have mid: "mid_rel t0 P C A B S Not_sending a ?s" using rel by (simp add: preempted_rel_def)
  have uns: "drop S P = d # unsent (y\<lparr>sender_at := Sending ds q\<rparr>)"
    using rel pc by (simp add: preempted_rel_def unsent_def loop_data_def sent_total_def)
  then have more: "S < length P" by (metis drop_eq_Nil linorder_not_less list.distinct(1))
  then have d: "P ! S = d" and rest: "drop (Suc S) P = unsent (y\<lparr>sender_at := Sending ds q\<rparr>)"
    using uns by (simp_all add: Cons_nth_drop_Suc [symmetric])
  obtain s' where s': "send_packet d ?s = Inr s'" "mid_rel t0 P C A B S Packet_sent a s'" "conf s' = conf ?s"
    using mid_send [OF mid adv more] d by auto
  note eq = conf_eq_fields [OF s'(3)]
  have "preempted_rel ret t0 P C A B S Packet_sent a (y\<lparr>sender_at := Sending ds q, clientSender := s'\<rparr>)"
    using rel pc s'(2) rest eq
    by (simp add: preempted_rel_def receiver_ok_def unsent_def loop_data_def sent_total_def)
  then show ?thesis using s' by blast
qed

lemma send_preempted:
  assumes "preempted_rel ret t0 P C A B S Not_sending a y" and "sender_at y = Sending (d # ds) q"
    and "canAdvance (clientSender y) = Inr True"
  shows "preempted_good ret t0 P S y (on_sender (send_packet d) Packet_sent a (y\<lparr>sender_at := Sending ds q\<rparr>))"
  using send_preempted_rel [OF assms] preempted_goodI by (fastforce simp: on_sender_def)

subsection \<open>The receiver's part\<close>

definition check_inv ::
    "bool option \<Rightarrow> int \<Rightarrow> string list \<Rightarrow> nat \<Rightarrow> nat \<Rightarrow> nat \<Rightarrow> send_phase \<Rightarrow> system \<Rightarrow> system \<times> ack_phase \<Rightarrow> bool"
where
  "check_inv ret t0 P C A S m y = (\<lambda>(z, a).
     z = y\<lparr>clientSender := clientSender z\<rparr> \<and> conf (clientSender z) = conf (clientSender y) \<and>
     (\<exists>B. preempted_rel ret t0 P C A B S m a z))"

definition checks_ack :: "send_phase \<Rightarrow> system \<times> ack_phase \<Rightarrow> int \<Rightarrow> bool" where
  "checks_ack m = (\<lambda>(z, a) k. a = No_ack \<and> accepts_ack (seen_from_outside m z) k)"

lemma check_ack_ok:
  assumes inv: "check_inv ret t0 P C A S m y x" and k: "checks_ack m x k"
  shows "\<exists>x'. check_ack k x = Inr x' \<and> check_inv ret t0 P C A S m y x'"
proof -
  obtain z B where x: "x = (z, No_ack)" and z: "z = y\<lparr>clientSender := clientSender z\<rparr>"
    and c: "conf (clientSender z) = conf (clientSender y)" and rel: "preempted_rel ret t0 P C A B S m No_ack z"
    using inv k by (auto simp: check_inv_def checks_ack_def)
  then have B: "B = A" using preempted_relD(2) [OF rel] by simp
  have pl: "plausible_ack (counted m (clientSender z)) k"
    using k by (simp add: x checks_ack_def accepts_ack_def seen_from_outside_def)
  obtain go s' B' where s': "acked_check k (clientSender z) = Inr (go, s')" "conf s' = conf (clientSender z)"
    "if go then mid_rel t0 P C A B' S m (Ack_checked k) s' else mid_rel t0 P C A A S m No_ack s'"
    using mid_check [OF preempted_relD(1) [OF rel [unfolded B]] pl] by (metis (full_types))
  let ?a = "if go then Ack_checked k else No_ack"
  have "\<exists>B. preempted_rel ret t0 P C A B S m ?a (z\<lparr>clientSender := s'\<rparr>)"
    using preempted_rel_sender [OF rel s'(2), of A _ S m ?a] s'(3) by (cases go) auto
  moreover have "z\<lparr>clientSender := s'\<rparr> = y\<lparr>clientSender := s'\<rparr>" by (subst z) simp
  ultimately show ?thesis using s' c by (simp add: x check_ack_def check_inv_def)
qed

interpretation ack_checks: ack_sink check_ack "check_inv ret t0 P C A S m y" "checks_ack m"
  for ret t0 P C A S m y
  by unfold_locales (rule check_ack_ok)

lemma preempted_receive:
  assumes rel: "preempted_rel ret t0 P C A B S m No_ack y" and n: "receiver_buffer y = Some n"
    and net: "ordered_net (seen_from_outside m y) dg"
  shows "preempted_good ret t0 P S y (rbind (receiver_begin n dg y) (\<lambda>(y, a). Inr (y, m, a)))"
proof -
  have cfg: "sender_cfg (clientSender y)" using mid_relD(2) [OF preempted_relD(1) [OF rel]] .
  have d: "rx_max_seq_number (clientReceiver y) = int (digits (clientSender y))"
    and buf: "digits (clientSender y) + 32 < n"
    using rel n cfg_ring(8) [OF cfg] by (auto simp: preempted_rel_def receiver_ok_def)
  have inv: "check_inv ret t0 P C A S m y (y, No_ack)" using rel by (auto simp: check_inv_def)
  have harm: "harmless (checks_ack m) (digits (clientSender y)) n (y, No_ack) dg"
    and fin: "dg = [] \<longrightarrow> sender_at y = Done"
    using net n d by (auto simp: ordered_net_def harmless_def checks_ack_def seen_from_outside_def accepts_ack_def)
  obtain z a where z: "receive_datagram check_ack (clientReceiver y) n dg (y, No_ack) = Inr (dg \<noteq> [], z, a)"
    "check_inv ret t0 P C A S m y (z, a)"
    using ack_checks.receive_harmless [OF inv harm d buf] by auto
  define z' where "z' = (if dg \<noteq> [] then z else z\<lparr>receiver_buffer := None\<rparr>)"
  obtain B' where B': "preempted_rel ret t0 P C A B' S m a z" and c: "conf (clientSender z) = conf (clientSender y)"
    using z(2) by (auto simp: check_inv_def)
  have "dg = [] \<Longrightarrow> z = y" using z(1) by simp
  then have "preempted_rel ret t0 P C A B' S m a z'"
    using B' fin by (auto simp: z'_def preempted_rel_def receiver_ok_def unsent_def loop_data_def)
  moreover have "receiver_begin n dg y = Inr (z', a)" using z(1) by (simp add: receiver_begin_def z'_def)
  ultimately show ?thesis using c preempted_goodI [of ret t0 P C A B' S m a z' y S] by (simp add: z'_def)
qed

subsection \<open>Every step\<close>

lemma thread_step_cases:
  assumes rel: "preempted_rel ret t0 P C A B S m a y" and ret: "ret \<noteq> None"
    and stp: "thread_step locked ret ordered_net (t0 + INT_MAX) (Inr (y, m, a)) r"
  shows "preempted_good ret t0 P S y r \<or> r = Inl (Undefined Null_dereference)"
proof -
  let ?s = "clientSender y"
  note mid = preempted_relD(1) [OF rel] and d = mid_relD [OF preempted_relD(1) [OF rel]]
  note good = on_sender_good [OF rel]
  have idle: "a = No_ack \<and> B = A \<and> system_rel ret t0 P C A S y" if "A = S" "m = Not_sending"
    using preempted_settled that rel by blast
  have here: "preempted_good ret t0 P S y (Inr (y\<lparr>clientSender := s'\<rparr>, m', a'))"
    if "mid_rel t0 P C A B S m' a' s'" "conf s' = conf ?s" "sent_total m' S = sent_total m S"
      "m = Not_sending \<longrightarrow> m' = Not_sending" for s' m' a'
    using preempted_goodI [OF preempted_rel_sender [OF rel that(2,1) order_refl that(3,4)], of y S] that(2) by simp
  from stp show ?thesis
  proof (rule thread_stepE)
    assume m: "m = Not_sending" and pc: "sender_at y = Not_started"
      and r: "r = with_phases Not_sending a (client_start y)"
    have "A = S" using rel m pc by (simp add: preempted_rel_def sent_total_def)
    with idle m start_own [OF _ pc] own_preempted r show ?thesis by blast
  next
    assume m: "m = Not_sending" and pc: "sender_at y = At_chunk"
      and r: "r = with_phases Not_sending a (sender_chunk y)"
    have "A = S" using rel m pc by (simp add: preempted_rel_def sent_total_def)
    with idle m chunk_own [OF _ pc] own_preempted r show ?thesis by blast
  next
    fix d ds q assume "m = Not_sending" "sender_at y = Sending (d # ds) q" "canAdvance ?s = Inr True"
      "r = on_sender (send_packet d) Packet_sent a (y\<lparr>sender_at := Sending ds q\<rparr>)"
    then show ?thesis using send_preempted rel by blast
  next
    fix d ds q e assume m: "m = Not_sending" and "canAdvance ?s = Inl e"
    then show ?thesis using mid_canAdvance [OF mid [unfolded m]] by simp
  next
    assume m: "m = Packet_sent" and r: "r = Inr (y, Send_compared (indices_meet ?s), a)"
    from here [OF mid_compare [OF mid [unfolded m]]] m r show ?thesis by (simp add: sent_total_def)
  next
    fix meet assume m: "m = Send_compared meet" and r: "r = on_sender (\<lambda>s. Inr (send_timer meet s)) Timer_set a y"
    have "conf (send_timer meet ?s) = conf ?s" by (simp add: send_timer_def startTimeoutTimer_eq conf_def)
    with mid_set_timer [OF mid [unfolded m]]
    have "\<exists>s'. Inr (send_timer meet ?s) = Inr s' \<and> mid_rel t0 P C A B S Timer_set a s' \<and> conf s' = conf ?s" by simp
    then have "preempted_good ret t0 P S y (on_sender (\<lambda>s. Inr (send_timer meet s)) Timer_set a y)"
      by (rule good) (simp_all add: m sent_total_def)
    with r show ?thesis by simp
  next
    assume m: "m = Timer_set" and r: "r = on_sender incNextSeqNum Not_sending a y"
    have "preempted_good ret t0 P S y (on_sender incNextSeqNum Not_sending a y)"
      by (rule good, rule mid_count [OF mid [unfolded m]]) (simp_all add: m sent_total_def)
    with r show ?thesis by simp
  next
    fix q assume m: "m = Not_sending" and pc: "sender_at y = Sending [] q"
      and r: "r = Inr (y\<lparr>sender_at := Wait_acks q\<rparr>, Not_sending, a)"
    have "preempted_rel ret t0 P C A B S Not_sending a (y\<lparr>sender_at := Wait_acks q\<rparr>)"
      using rel m pc by (auto simp: preempted_rel_def receiver_ok_def unsent_def loop_data_def)
    from preempted_goodI [OF this, of y S] r show ?thesis by simp
  next
    fix q assume m: "m = Not_sending" and pc: "sender_at y = Wait_acks q" and ack: "chunk_acked q ?s"
      and r: "r = with_phases Not_sending a (sendChunk_end ret y)"
    have "A = S" using mid_chunk_acked [OF mid ack] rel m pc by (simp add: preempted_rel_def sent_total_def)
    with idle m acked_own [OF _ pc ack ret] own_preempted r show ?thesis by blast
  next
    fix n dg assume "a = No_ack" "receiver_buffer y = Some n" "ordered_net (seen_from_outside m y) dg"
      "r = rbind (receiver_begin n dg y) (\<lambda>(y, a). Inr (y, m, a))"
    then show ?thesis using preempted_receive rel by blast
  next
    fix k assume a: "a = Ack_checked k" and r: "r = on_sender (acked_base k) m (Base_set k) y"
    have "preempted_good ret t0 P S y (on_sender (acked_base k) m (Base_set k) y)"
      by (rule good, rule mid_base [OF mid [unfolded a]]) simp_all
    with r show ?thesis by simp
  next
    fix k assume a: "a = Base_set k" and "r = Inr (y, m, Ack_compared k (indices_meet ?s))"
    with here [OF mid_ack_compare [OF mid [unfolded a]]] show ?thesis by simp
  next
    fix k meet assume a: "a = Ack_compared k meet" and r: "r = on_sender (acked_timer meet) m (Ack_timed k) y"
    from mid_ack_timer [OF mid [unfolded a]] show ?thesis
    proof
      assume "acked_timer meet ?s = Inl (Undefined Null_dereference)"
      then show ?thesis using r by (simp add: on_sender_def)
    next
      assume "\<exists>s'. acked_timer meet ?s = Inr s' \<and> mid_rel t0 P C A B S m (Ack_timed k) s' \<and> conf s' = conf ?s"
      then have "preempted_good ret t0 P S y (on_sender (acked_timer meet) m (Ack_timed k) y)"
        by (rule good) simp_all
      with r show ?thesis by simp
    qed
  next
    fix k assume a: "a = Ack_timed k" and r: "r = on_sender (acked_mark k) m No_ack y"
    have "preempted_good ret t0 P S y (on_sender (acked_mark k) m No_ack y)"
      by (rule good, rule mid_mark [OF mid [unfolded a]]) (simp_all add: d(5))
    with r show ?thesis by simp
  next
    fix i t assume t: "thread_wait (now ?s) (timers ?s ! i) = Some t" "i < length (timers ?s)"
      and r: "r = Inr (y\<lparr>clientSender := put_timer i t ?s\<rparr>, m, a)"
    have "started t" using t d(3) thread_wait_started [OF t(1)] by (auto simp: timer_rel_def timers_ok_def)
    from here [OF mid_put_timer [OF mid this]] r show ?thesis by (simp add: put_timer_def conf_def)
  next
    fix n assume n: "now ?s \<le> n" "n \<le> t0 + INT_MAX" and r: "r = Inr (y\<lparr>clientSender := ?s\<lparr>now := n\<rparr>\<rparr>, m, a)"
    from here [OF mid_tick [OF mid n]] r show ?thesis by (simp add: conf_def)
  qed
qed

subsection \<open>What the steps leave to a handler in its loop\<close>

definition same_slots :: "client_sender \<Rightarrow> client_sender \<Rightarrow> bool" where
  "same_slots s s' \<longleftrightarrow> ring_size s' = ring_size s \<and> digits s' = digits s \<and> window_size s' = window_size s \<and>
     next_seq_num_idx s' = next_seq_num_idx s \<and> now s \<le> now s' \<and> window_map s' = window_map s"

lemma same_slots_kept: "same_slots s s' \<Longrightarrow> slots_kept s s'"
  by (auto simp: same_slots_def intro: slots_kept_same)

lemma same_slots_simps [simp]:
  "same_slots s s" "same_slots s (cleanTimers s)" "same_slots s (endConnection s)" "same_slots s (stop_timer_at i s)"
  "same_slots s (startTimeoutTimer s)" "same_slots s (put_timer i t s)" "same_slots s (close_chunk s)"
  "same_slots s (s\<lparr>dataProcessor := dp\<rparr>)" "same_slots s (threadFun_end s)" "now s \<le> n \<Longrightarrow> same_slots s (s\<lparr>now := n\<rparr>)"
  by (simp_all add: same_slots_def cleanTimers_def endConnection_def sendPacketUnreliable_def stop_timer_at_def
      startTimeoutTimer_eq put_timer_def close_chunk_def resetChunkVars_def setAckedPacketsCount_def threadFun_end_def
      ring_size_def digits_def Let_def split: option.split)

lemma same_slots_trans: "same_slots s t \<Longrightarrow> same_slots t u \<Longrightarrow> same_slots s u"
  by (simp add: same_slots_def)

lemma acked_check_slots: "acked_check k s = Inr (go, s') \<Longrightarrow> same_slots s s'"
  using same_slots_trans [OF same_slots_simps(2,3)]
  by (auto simp: acked_check_def sample_rtt_def Let_def rbind_def split: sum.splits if_splits)
    (simp add: same_slots_def cleanTimers_def ring_size_def digits_def)

lemma acked_base_slots: "acked_base k s = Inr s' \<Longrightarrow> same_slots s s'"
  by (auto simp: acked_base_def setBaseIdx_def rbind_def same_slots_def ring_size_def digits_def split: sum.splits)

lemma acked_timer_slots: "acked_timer meet s = Inr s' \<Longrightarrow> same_slots s s'"
  by (auto simp: acked_timer_def split: if_splits option.splits)

lemma acked_mark_slots:
  assumes "acked_mark k s = Inr s'" shows "slots_kept s s'"
proof -
  obtain t p where t: "count_acked k s = Inr t" and p: "window_get k t = Inr p"
    and s': "window_put k (setAcked p) t = Inr s'"
    using assms by (auto simp: acked_mark_def rbind_def split: sum.splits)
  have "same_slots s t"
    using t by (auto simp: count_acked_def rbind_def same_slots_def ring_size_def digits_def split: sum.splits if_splits)
  moreover have "window_map t ! nat k = Some p" "s' = t\<lparr>window_map := (window_map t)[nat k := Some (setAcked p)]\<rparr>"
    using p s' by (auto simp: window_get_def window_put_def split: if_splits option.splits)
  moreover from this have "window_map s' ! j =
      (if j = nat k then Some (setAcked p) else window_map t ! j)" for j
    using p by (auto simp: window_get_def nth_list_update split: if_splits option.splits)
  moreover have "packet_data (setAcked p) = packet_data p" "seqnum (setAcked p) = seqnum p"
    "starting_time (setAcked p) = starting_time p" by (simp_all add: packet_ops)
  ultimately show ?thesis
    by (auto simp: slots_kept_def same_slots_def ring_size_def digits_def)
qed

lemma receiver_begin_slots:
  assumes "receiver_begin n dg y = Inr (z, a)" shows "same_slots (clientSender y) (clientSender z)"
proof -
  obtain c x where r: "receive_datagram check_ack (clientReceiver y) n dg (y, No_ack) = Inr (c, x, a)"
    and z: "clientSender z = clientSender x"
    using assms by (auto simp: receiver_begin_def rbind_def split: sum.splits prod.splits)
  from r have "(x, a) = (y, No_ack) \<or> (\<exists>k. check_ack k (y, No_ack) = Inr (x, a))"
    by (auto simp: receive_datagram_def rbind_def Let_def split: sum.splits if_splits)
  then consider "x = y" | k where "check_ack k (y, No_ack) = Inr (x, a)" by auto
  then show ?thesis
  proof cases
    case 2
    then obtain go s where "acked_check k (clientSender y) = Inr (go, s)" "x = y\<lparr>clientSender := s\<rparr>"
      by (cases "acked_check k (clientSender y)") (auto simp: check_ack_def)
    then show ?thesis using z acked_check_slots by simp
  qed (simp add: z)
qed

lemma sender_chunk_slots: "sender_chunk y = Inr z \<Longrightarrow> same_slots (clientSender y) (clientSender z)"
  by (auto simp: sender_chunk_def sendChunk_read_def finish_sending_def rbind_def Let_def
      split: sum.splits if_splits option.splits)

lemma sendChunk_end_slots: "sendChunk_end ret y = Inr z \<Longrightarrow> same_slots (clientSender y) (clientSender z)"
  using same_slots_trans [OF same_slots_simps(7,9)]
  by (auto simp: sendChunk_end_def finish_sending_def Let_def split: option.splits bool.splits)

lemma thread_step_slots:
  assumes "thread_step True ret net h (Inr (y, Not_sending, a)) (Inr (z, m', a'))"
  shows "m' = Not_sending \<and> slots_kept (clientSender y) (clientSender z)"
  using assms
proof (rule thread_stepE)
  fix n dg assume "Inr (z, m', a') = rbind (receiver_begin n dg y) (\<lambda>(y, a). Inr (y, Not_sending, a))"
  then show ?thesis
    by (cases "receiver_begin n dg y") (auto intro: same_slots_kept dest: receiver_begin_slots)
next
  fix k assume "Inr (z, m', a') = on_sender (acked_mark k) Not_sending No_ack y"
  then show ?thesis
    by (cases "acked_mark k (clientSender y)") (auto simp: on_sender_def dest: acked_mark_slots)
next
  fix q assume "Inr (z, m', a') = with_phases Not_sending a (sendChunk_end ret y)"
  then show ?thesis
    by (cases "sendChunk_end ret y") (auto simp: with_phases_def intro: same_slots_kept dest: sendChunk_end_slots)
next
  assume "Inr (z, m', a') = with_phases Not_sending a (sender_chunk y)"
  then show ?thesis
    by (cases "sender_chunk y") (auto simp: with_phases_def intro: same_slots_kept dest: sender_chunk_slots)
next
  assume "Inr (z, m', a') = with_phases Not_sending a (client_start y)"
  then show ?thesis
    by (auto simp: with_phases_def client_start_def rbind_def intro: same_slots_kept split: sum.splits)
next
  fix k assume "Inr (z, m', a') = on_sender (acked_base k) Not_sending (Base_set k) y"
  then show ?thesis
    by (cases "acked_base k (clientSender y)") (auto simp: on_sender_def intro: same_slots_kept dest: acked_base_slots)
next
  fix k meet assume "Inr (z, m', a') = on_sender (acked_timer meet) Not_sending (Ack_timed k) y"
  then show ?thesis
    by (cases "acked_timer meet (clientSender y)") (auto simp: on_sender_def intro: same_slots_kept dest: acked_timer_slots)
qed (auto intro: same_slots_kept)

end
