(* ===== verification/PreemptedRuns.thy ===== *)
theory PreemptedRuns
  imports Preemption
begin

section \<open>Runs with the threads inside a method\<close>

text \<open>
  The invariant of \<open>preempted_step\<close> for a whole run; every run of \<open>client_step\<close> is one with no
  preemption; and the run in which an acknowledgement meets no timer.
\<close>

subsection \<open>The invariant\<close>

definition preempted_inv ::
    "bool option \<Rightarrow> int \<Rightarrow> client_subject \<Rightarrow> string \<Rightarrow> preempted \<Rightarrow> bool" where
  "preempted_inv ret t0 subj contents x \<longleftrightarrow> x = Inl (Undefined Null_dereference) \<or>
     (\<exists>y m a h C A B S. x = Inr (y, m, a, h) \<and> configured subj y \<and>
        preempted_rel ret t0 (file_packets (getPacket_size subj) contents) C A B S m a y \<and>
        handler_rel t0 (file_packets (getPacket_size subj) contents) S m h (clientSender y))"

lemma preempted_inv_init:
  assumes "good_subject subj" and "readable fs subj contents" and init: "preempted_initial fs t0 subj x"
  shows "preempted_inv ret t0 subj contents x"
proof -
  obtain x0 where x0: "initial fs t0 subj x0" "x = at_rest x0"
    using init by (auto simp: preempted_initial_def)
  then obtain y where y: "x0 = Inr y" "configured subj y"
    "system_rel ret t0 (file_packets (getPacket_size subj) contents) 0 0 0 y"
    using initial_rel [OF assms(1,2)] by blast
  have "handler_rel t0 P 0 Not_sending No_handler (clientSender y)" for P by (simp add: handler_rel_def)
  then show ?thesis
    using x0(2) y unfolding preempted_inv_def preempted_rel_rest [symmetric] at_rest_def by fastforce
qed

text \<open>One of the threads moves: what the handler relies on stays.\<close>

lemma thread_moves_rel:
  assumes rel: "preempted_rel ret t0 P C A B S m a y" and hr: "handler_rel t0 P S m h (clientSender y)"
    and ret: "ret \<noteq> None" and stp: "thread_step (h \<noteq> No_handler) ret ordered_net (t0 + INT_MAX) (Inr (y, m, a)) r"
  shows "r = Inl (Undefined Null_dereference) \<or>
    (\<exists>y' m' a' C A B S. r = Inr (y', m', a') \<and> preempted_rel ret t0 P C A B S m' a' y' \<and>
       fst (conf (clientSender y')) = fst (conf (clientSender y)) \<and> handler_rel t0 P S m' h (clientSender y'))"
  using thread_step_cases [OF rel ret stp]
proof
  assume "preempted_good ret t0 P S y r"
  then obtain y' m' a' C' A' B' S' where r: "r = Inr (y', m', a')" and rel': "preempted_rel ret t0 P C' A' B' S' m' a' y'"
    and c: "fst (conf (clientSender y')) = fst (conf (clientSender y))" and S': "S' = S \<or> S' = Suc S"
    unfolding preempted_good_def by blast
  have "handler_rel t0 P S' m' h (clientSender y')"
  proof (cases "h = No_handler")
    case False
    then have m: "m = Not_sending" and ok: "handler_ok t0 P S h (clientSender y)" using hr by (auto simp: handler_rel_def)
    have kept: "m' = Not_sending \<and> slots_kept (clientSender y) (clientSender y')"
      using stp False r m thread_step_slots by simp
    let ?N = "ring_size (clientSender y)"
    from kept have "next_seq_num_idx (clientSender y') = next_seq_num_idx (clientSender y)" "ring_size (clientSender y') = ?N"
      by (simp_all add: slots_kept_def)
    then have "S' mod ?N = S mod ?N" if "m' = Not_sending"
      using mid_relD(9) [OF preempted_relD(1) [OF rel]] mid_relD(9) [OF preempted_relD(1) [OF rel']]
      by (metis of_nat_eq_iff)
    moreover have "1 < ?N" using cfg_ring(6,7) [OF mid_relD(2) [OF preempted_relD(1) [OF rel]]] by linarith
    then have "S mod ?N \<noteq> Suc S mod ?N" by (intro ring_neq) auto
    ultimately have "S' = S" using S' kept by auto
    then show ?thesis using slots_kept_handler [OF kept [THEN conjunct2] ok] kept by (simp add: handler_rel_def)
  qed (simp add: handler_rel_def)
  then show ?thesis using r rel' c by blast
qed simp

text \<open>The handler moves: the counters stay.\<close>

lemma handler_moves_rel:
  assumes rel: "preempted_rel ret t0 P C A B S m a y" and hr: "handler_rel t0 P S m h' s'"
    and s': "mid_rel t0 P C A B S m a s'" "conf s' = conf (clientSender y)"
  shows "\<exists>C A B S. preempted_rel ret t0 P C A B S m a (y\<lparr>clientSender := s'\<rparr>) \<and>
    fst (conf (clientSender (y\<lparr>clientSender := s'\<rparr>))) = fst (conf (clientSender y)) \<and>
    handler_rel t0 P S m h' (clientSender (y\<lparr>clientSender := s'\<rparr>))"
  using preempted_rel_sender [OF rel s'(2,1)] hr s'(2) by auto

lemma preempted_step_rel:
  assumes rel: "preempted_rel ret t0 P C A B S m a y" and hr: "handler_rel t0 P S m h (clientSender y)"
    and ret: "ret \<noteq> None" and stp: "preempted_step ret ordered_net (t0 + INT_MAX) (Inr (y, m, a, h)) r"
  shows "r = Inl (Undefined Null_dereference) \<or>
    (\<exists>y' m' a' h' C A B S. r = Inr (y', m', a', h') \<and> preempted_rel ret t0 P C A B S m' a' y' \<and>
       fst (conf (clientSender y')) = fst (conf (clientSender y)) \<and> handler_rel t0 P S m' h' (clientSender y'))"
proof -
  let ?s = "clientSender y"
  note mid = preempted_relD(1) [OF rel]
  have exits: "conf (timer_exits i ?s) = conf ?s" "slots_kept ?s (timer_exits i ?s)" for i
    unfolding timer_exits_def by (simp add: put_timer_def conf_def) (rule same_slots_kept, simp)
  from stp show ?thesis
  proof (rule preempted_stepE)
    fix r' assume "thread_step (h \<noteq> No_handler) ret ordered_net (t0 + INT_MAX) (Inr (y, m, a)) r'"
      and r: "r = with_handler h r'"
    from thread_moves_rel [OF rel hr ret this(1)] show ?thesis
      using r unfolding with_handler_def by fastforce
  next
    fix i assume r: "r = Inr (y\<lparr>clientSender := timer_exits i ?s\<rparr>, m, a, h)"
    have "handler_rel t0 P S m h (timer_exits i ?s)"
      using hr slots_kept_handler [OF exits(2)] by (auto simp: handler_rel_def)
    from handler_moves_rel [OF rel this mid_timer_exits [OF mid] exits(1)] show ?thesis using r by blast
  next
    fix i assume m: "m = Not_sending" and r: "r = rbind (handler_begin i ?s) (\<lambda>h. Inr (y, Not_sending, a, h))"
    obtain h' where "handler_begin i ?s = Inr h'" "handler_rel t0 P S Not_sending h' ?s"
      using handler_begin_rel [OF mid [unfolded m]] by blast
    then show ?thesis using r rel m by auto
  next
    fix i nseqnum bidx buffer_size wsize j
    assume h: "h = Resending i nseqnum bidx buffer_size wsize j" and guard: "resend_guard nseqnum bidx buffer_size wsize j"
      and r: "r = rbind (resend_next buffer_size j ?s) (\<lambda>(j, s).
        Inr (y\<lparr>clientSender := s\<rparr>, m, a, Resending i nseqnum bidx buffer_size wsize j))"
    have m: "m = Not_sending" and ok: "handler_ok t0 P S (Resending i nseqnum bidx buffer_size wsize j) ?s"
      using hr h by (simp_all add: handler_rel_def)
    obtain j' s' where s': "resend_next buffer_size j ?s = Inr (j', s')" "mid_rel t0 P C A B S Not_sending a s'"
      "conf s' = conf ?s" "handler_ok t0 P S (Resending i nseqnum bidx buffer_size wsize j') s'"
      using resend_next_rel [OF mid [unfolded m] ok guard] by blast
    then have "handler_rel t0 P S m (Resending i nseqnum bidx buffer_size wsize j') s'"
      using m by (simp add: handler_rel_def)
    from handler_moves_rel [OF rel this s'(2) [folded m] s'(3)] show ?thesis using r s'(1) by auto
  next
    fix i nseqnum bidx buffer_size wsize j
    assume h: "h = Resending i nseqnum bidx buffer_size wsize j"
      and r: "r = Inr (y\<lparr>clientSender := startTimeoutTimer ?s\<rparr>, m, a, Resent i)"
    have "handler_rel t0 P S m (Resent i) (startTimeoutTimer ?s)" using hr h by (simp add: handler_rel_def)
    from handler_moves_rel [OF rel this mid_rel_start [OF mid]] show ?thesis
      using r by (auto simp: startTimeoutTimer_eq conf_def)
  next
    fix i assume r: "r = Inr (y\<lparr>clientSender := timer_exits i ?s\<rparr>, m, a, No_handler)"
    have "handler_rel t0 P S m No_handler (timer_exits i ?s)" by (simp add: handler_rel_def)
    from handler_moves_rel [OF rel this mid_timer_exits [OF mid] exits(1)] show ?thesis using r by blast
  qed
qed

lemma preempted_inv_step:
  assumes inv: "preempted_inv ret t0 subj contents x" and ret: "ret \<noteq> None"
    and stp: "preempted_step ret ordered_net (t0 + INT_MAX) x r"
  shows "preempted_inv ret t0 subj contents r"
proof (cases x)
  case (Inl e)
  then show ?thesis using stp by (simp add: crashed_preempted)
next
  case (Inr x')
  let ?P = "file_packets (getPacket_size subj) contents"
  obtain y m a h C A B S where x: "x = Inr (y, m, a, h)" and cfg: "configured subj y"
    and rel: "preempted_rel ret t0 ?P C A B S m a y" and hr: "handler_rel t0 ?P S m h (clientSender y)"
    using inv Inr by (auto simp: preempted_inv_def)
  from preempted_step_rel [OF rel hr ret stp [unfolded x]] show ?thesis
  proof
    assume "\<exists>y' m' a' h' C A B S. r = Inr (y', m', a', h') \<and> preempted_rel ret t0 ?P C A B S m' a' y' \<and>
       fst (conf (clientSender y')) = fst (conf (clientSender y)) \<and> handler_rel t0 ?P S m' h' (clientSender y')"
    then obtain y' m' a' h' C A B S where r: "r = Inr (y', m', a', h')" "preempted_rel ret t0 ?P C A B S m' a' y'"
      "handler_rel t0 ?P S m' h' (clientSender y')" and c: "fst (conf (clientSender y')) = fst (conf (clientSender y))"
      by blast
    have "configured subj y'" using cfg c by (simp add: configured_def conf_def)
    with r show ?thesis unfolding preempted_inv_def by blast
  qed (simp add: preempted_inv_def)
qed

interpretation preempted_sys: invariant_system
  "\<lambda>x. good_subject subj \<and> readable fs subj contents \<and> preempted_initial fs t0 subj x"
  "preempted_step (Some b) ordered_net (t0 + INT_MAX)"
  "preempted_inv (Some b) t0 subj contents"
  for fs t0 subj contents b
  by unfold_locales (auto intro: preempted_inv_init preempted_inv_step)

subsection \<open>Runs with no preemption\<close>

lemma with_phases_simps [simp]:
  "with_phases m a (Inr y) = Inr (y, m, a)" "with_phases m a (Inl e) = Inl e"
  by (simp_all add: with_phases_def)

text \<open>The parts of \<open>ackedPacket\<close> after the first, in a row.\<close>

definition finish_ack :: "ack_phase \<Rightarrow> system \<Rightarrow> system res" where
  "finish_ack a y = (case a of
     Ack_checked k \<Rightarrow>
       rbind (acked_base k (clientSender y)) (\<lambda>s.
       rbind (acked_timer (indices_meet s) s) (\<lambda>s.
       rbind (acked_mark k s) (\<lambda>s. Inr (y\<lparr>clientSender := s\<rparr>))))
   | _ \<Rightarrow> Inr y)"

lemma client_ackedPacket_parts:
  "client_ackedPacket k y = rbind (check_ack k (y, No_ack)) (\<lambda>(y, a). finish_ack a y)"
proof (cases "acked_check k (clientSender y)")
  case (Inr x)
  then show ?thesis
    by (cases x) (simp add: client_ackedPacket_def ackedPacket_parts check_ack_def finish_ack_def rbind_assoc)
qed (simp add: client_ackedPacket_def ackedPacket_parts check_ack_def)

lemma finish_none [simp]: "finish_ack No_ack y = Inr y"
  by (simp add: finish_ack_def)

lemma receive_datagram_parts:
  "receive_datagram client_ackedPacket r n dg y =
     rbind (receive_datagram check_ack r n dg (y, No_ack)) (\<lambda>(c, z, a). rbind (finish_ack a z) (\<lambda>z. Inr (c, z)))"
  by (simp add: receive_datagram_def Let_def rbind_assoc rbind_if client_ackedPacket_parts split_def
      cong: rbind_cong if_cong)

lemma receive_datagram_last:
  "receive_datagram on_ack r n dg s = Inr (False, x) \<Longrightarrow> x = s"
  by (auto simp: receive_datagram_def rbind_def Let_def split: sum.splits if_splits)

lemma receiver_round_parts:
  "receiver_round n dg y = rbind (receiver_begin n dg y) (\<lambda>(y, a). finish_ack a y)"
proof (cases "receive_datagram check_ack (clientReceiver y) n dg (y, No_ack)")
  case (Inr x)
  obtain c z a where x: "x = (c, z, a)" by (cases x)
  have "a = No_ack" if "\<not> c" using receive_datagram_last [of check_ack "clientReceiver y" n dg "(y, No_ack)"] Inr x that by simp
  then show ?thesis
    using Inr by (cases c; cases "finish_ack a z") (simp_all add: receiver_round_def receiver_begin_def receive_datagram_parts x)
qed (simp add: receiver_round_def receiver_begin_def receive_datagram_parts)

lemma finish_ack_run:
  "run (thread_step False ret net h) (Inr (y, m, Ack_checked k)) (with_phases m No_ack (finish_ack (Ack_checked k) y))"
proof -
  let ?step = "thread_step False ret net h" and ?c = "clientSender y"
  note base = pre_base [of False ret net h y m k]
  show ?thesis
  proof (cases "acked_base k ?c")
    case (Inl e)
    then show ?thesis using run_one [of ?step, OF base] by (simp add: finish_ack_def on_sender_def)
  next
    case b: (Inr s)
    let ?y = "y\<lparr>clientSender := s\<rparr>"
    have r: "run ?step (Inr (y, m, Ack_checked k)) (Inr (?y, m, Ack_compared k (indices_meet s)))"
      using base run_one [of ?step, OF pre_ack_compare [of False ret net h ?y m k]] b by (auto simp: on_sender_def intro: run_step)
    note tm = pre_ack_timer [of False ret net h ?y m k "indices_meet s"]
    show ?thesis
    proof (cases "acked_timer (indices_meet s) s")
      case (Inl e)
      then show ?thesis using run_trans [OF r run_one [of ?step, OF tm]] b by (simp add: finish_ack_def on_sender_def)
    next
      case (Inr u)
      then have "run ?step (Inr (y, m, Ack_checked k)) (Inr (y\<lparr>clientSender := u\<rparr>, m, Ack_timed k))"
        using run_trans [OF r run_one [of ?step, OF tm]] by (simp add: on_sender_def)
      from run_trans [OF this run_one [of ?step, OF pre_mark]] show ?thesis
        using b Inr by (cases "acked_mark k u") (simp_all add: finish_ack_def on_sender_def)
    qed
  qed
qed

lemma receiver_begin_phase:
  assumes "receiver_begin n dg y = Inr (z, a)" shows "a = No_ack \<or> (\<exists>k. a = Ack_checked k)"
  using assms
  by (auto simp: receiver_begin_def receive_datagram_def check_ack_def rbind_def Let_def
      split: sum.splits prod.splits if_splits)

lemma receive_run:
  assumes n: "receiver_buffer y = Some n" and net: "net y dg"
  shows "run (thread_step False ret net h) (Inr (y, Not_sending, No_ack))
    (with_phases Not_sending No_ack (receiver_round n dg y))"
proof -
  have "seen_from_outside Not_sending y = y" by (simp add: seen_from_outside_def counted_def)
  then have stp: "thread_step False ret net h (Inr (y, Not_sending, No_ack))
      (rbind (receiver_begin n dg y) (\<lambda>(y, a). Inr (y, Not_sending, a)))"
    using pre_receive [of y n net Not_sending dg False ret h] n net by simp
  show ?thesis
  proof (cases "receiver_begin n dg y")
    case (Inl e)
    then show ?thesis using run_one [of "thread_step False ret net h", OF stp] by (simp add: receiver_round_parts)
  next
    case (Inr x)
    obtain z a where x: "x = (z, a)" by (cases x)
    have r: "run (thread_step False ret net h) (Inr (y, Not_sending, No_ack)) (Inr (z, Not_sending, a))"
      using run_one [of "thread_step False ret net h", OF stp] Inr x by simp
    from receiver_begin_phase [of n dg y z a] Inr x consider "a = No_ack" | k where "a = Ack_checked k" by auto
    then show ?thesis
    proof cases
      case 1
      then show ?thesis using r Inr x by (simp add: receiver_round_parts finish_ack_def)
    next
      case 2
      from run_trans [OF r [unfolded 2] finish_ack_run] show ?thesis using Inr x 2 by (simp add: receiver_round_parts)
    qed
  qed
qed

lemma send_run:
  assumes pc: "sender_at y = Sending (d # ds) q" and adv: "canAdvance (clientSender y) = Inr True"
  shows "run (thread_step False ret net h) (Inr (y, Not_sending, No_ack))
    (with_phases Not_sending No_ack (sender_send d ds q y))"
proof -
  let ?step = "thread_step False ret net h" and ?y = "y\<lparr>sender_at := Sending ds q\<rparr>"
  note send = pre_send [OF pc adv, of False ret net h No_ack, simplified]
  show ?thesis
  proof (cases "send_packet d (clientSender y)")
    case (Inl e)
    then show ?thesis using run_one [of ?step, OF send]
      by (simp add: on_sender_def sender_send_def sendPacketReliable_parts)
  next
    case (Inr s)
    let ?t = "send_timer (indices_meet s) s"
    have "run ?step (Inr (y, Not_sending, No_ack)) (Inr (?y\<lparr>clientSender := ?t\<rparr>, Timer_set, No_ack))"
      using send pre_compare [of False ret net h "?y\<lparr>clientSender := s\<rparr>" No_ack]
        run_one [of ?step, OF pre_set_timer [of False ret net h "?y\<lparr>clientSender := s\<rparr>" "indices_meet s" No_ack]] Inr
      by (auto simp: on_sender_def intro: run_step)
    from run_trans [OF this run_one [of ?step, OF pre_count]]
    have "run ?step (Inr (y, Not_sending, No_ack)) (on_sender incNextSeqNum Not_sending No_ack (?y\<lparr>clientSender := ?t\<rparr>))" .
    moreover have swap: "?y\<lparr>clientSender := u\<rparr> = y\<lparr>clientSender := u, sender_at := Sending ds q\<rparr>" for u :: client_sender
      by (rule system.equality) simp_all
    have "on_sender incNextSeqNum Not_sending No_ack (?y\<lparr>clientSender := ?t\<rparr>) =
        with_phases Not_sending No_ack (sender_send d ds q y)"
      using Inr by (cases "incNextSeqNum ?t") (simp_all add: on_sender_def sender_send_def sendPacketReliable_parts swap)
    ultimately show ?thesis by simp
  qed
qed

text \<open>The threads' runs, next to no handler.\<close>

lemma with_handler_simps [simp]:
  "with_handler h (Inr (y, m, a)) = Inr (y, m, a, h)" "with_handler h (Inl e) = Inl e"
  by (simp_all add: with_handler_def)

lemma thread_run:
  "run (thread_step False ret net hz) x z \<Longrightarrow>
     run (preempted_step ret net hz) (with_handler No_handler x) (with_handler No_handler z)"
proof (induction rule: run.induct)
  case (run_step x u z)
  obtain y m a where x: "x = Inr (y, m, a)" using run_step.hyps(1) by (cases x) (auto simp: crashed_thread)
  have "preempted_step ret net hz (with_handler No_handler x) (with_handler No_handler u)"
    using thread_moves [of No_handler ret net hz y m a u] run_step.hyps(1) x by simp
  then show ?case using run_step.IH by (rule run.run_step)
qed simp

lemma at_rest_eq: "at_rest x = with_handler No_handler (with_phases Not_sending No_ack x)"
  by (cases x) (simp_all add: at_rest_def)

text \<open>The loop of \<open>timeoutHandler\<close>, when nothing comes between its rounds.\<close>

definition loop_run ::
    "bool option \<Rightarrow> (system \<Rightarrow> string \<Rightarrow> bool) \<Rightarrow> int \<Rightarrow> nat \<Rightarrow> int \<Rightarrow> int \<Rightarrow> int \<Rightarrow> int \<Rightarrow> int \<Rightarrow> client_sender \<Rightarrow>
     client_sender res \<Rightarrow> bool" where
  "loop_run ret net hz i nseqnum bidx buffer_size wsize j s r \<longleftrightarrow> (\<forall>y m a. clientSender y = s \<longrightarrow>
     run (preempted_step ret net hz) (Inr (y, m, a, Resending i nseqnum bidx buffer_size wsize j))
       (rbind r (\<lambda>s. Inr (y\<lparr>clientSender := startTimeoutTimer s\<rparr>, m, a, Resent i))))"

lemma resend_loop_run:
  assumes "resend_loop nseqnum bidx buffer_size wsize j s = Some r"
  shows "loop_run ret net hz i nseqnum bidx buffer_size wsize j s r"
proof (rule resend_loop.raw_induct [OF _ assms, of "loop_run ret net hz i"])
  fix loop nseqnum bidx buffer_size wsize j s r
  assume IH: "\<And>nseqnum bidx buffer_size wsize j s r. loop nseqnum bidx buffer_size wsize j s = Some r \<Longrightarrow>
      loop_run ret net hz i nseqnum bidx buffer_size wsize j s r"
    and "(if resend_guard nseqnum bidx buffer_size wsize j
      then (case rbind (resend_packet j s) (\<lambda>s. rbind (iadd j 1) (\<lambda>a. rbind (imod a buffer_size) (\<lambda>j. Inr (j, s)))) of
              Inl e \<Rightarrow> Some (Inl e) | Inr (j, s) \<Rightarrow> loop nseqnum bidx buffer_size wsize j s)
      else Some (Inr s)) = Some r"
  then have body: "(if resend_guard nseqnum bidx buffer_size wsize j
      then (case resend_next buffer_size j s of
              Inl e \<Rightarrow> Some (Inl e) | Inr (j, s) \<Rightarrow> loop nseqnum bidx buffer_size wsize j s)
      else Some (Inr s)) = Some r"
    unfolding resend_next_def by blast
  let ?step = "preempted_step ret net hz"
  let ?h = "\<lambda>j. Resending i nseqnum bidx buffer_size wsize j"
  have "run ?step (Inr (y, m, a, ?h j)) (rbind r (\<lambda>s. Inr (y\<lparr>clientSender := startTimeoutTimer s\<rparr>, m, a, Resent i)))"
    if y: "clientSender y = s" for y m a
  proof (cases "resend_guard nseqnum bidx buffer_size wsize j")
    case False
    then have "r = Inr s" using body by simp
    then show ?thesis
      using run_one [of ?step, OF handler_restarts [OF False, of ret net hz y m a i]] y by simp
  next
    case True
    note stp = handler_resends [OF True, of ret net hz y m a i, unfolded y]
    show ?thesis
    proof (cases "resend_next buffer_size j s")
      case (Inl e)
      then have "r = Inl e" using body True by simp
      then show ?thesis using run_one [of ?step, OF stp] Inl by simp
    next
      case (Inr x)
      obtain j' s' where x: "x = (j', s')" by (cases x)
      then have "loop nseqnum bidx buffer_size wsize j' s' = Some r" using body True Inr by simp
      then have "loop_run ret net hz i nseqnum bidx buffer_size wsize j' s' r" by (rule IH)
      from this [unfolded loop_run_def, rule_format, of "y\<lparr>clientSender := s'\<rparr>" m a]
      have rest: "run ?step (Inr (y\<lparr>clientSender := s'\<rparr>, m, a, ?h j'))
          (rbind r (\<lambda>s. Inr (y\<lparr>clientSender := startTimeoutTimer s\<rparr>, m, a, Resent i)))" by simp
      have "?step (Inr (y, m, a, ?h j)) (Inr (y\<lparr>clientSender := s'\<rparr>, m, a, ?h j'))"
        using stp Inr x by simp
      then show ?thesis using rest by (rule run_step)
    qed
  qed
  then show "loop_run ret net hz i nseqnum bidx buffer_size wsize j s r" by (simp add: loop_run_def)
qed

lemma fire_run:
  assumes i: "i < length (timers (clientSender y))" "thread (timers (clientSender y) ! i) = Firing"
    and r: "timer_fires i y = Some r"
  shows "run (preempted_step ret net hz) (at_rest (Inr y)) (at_rest r)"
proof -
  let ?step = "preempted_step ret net hz" and ?s = "clientSender y"
  obtain x where x: "timeoutHandler ?s = Some x" "r = rbind x (\<lambda>s. Inr (y\<lparr>clientSender := timer_exits i s\<rparr>))"
    using r by (auto simp: timer_fires_def timer_exits_def)
  show ?thesis
  proof (cases "finished_sending_data ?s")
    case True
    then have "x = Inr ?s" using x(1) by (simp add: timeoutHandler_def)
    then have "r = Inr (y\<lparr>clientSender := timer_exits i ?s\<rparr>)" using x(2) by simp
    then show ?thesis
      using run_one [of ?step, OF handler_idle [of i y No_handler, OF i _ True]] by (simp add: at_rest_def)
  next
    case False
    note starts = handler_starts [OF i False, of ret net hz No_ack]
    show ?thesis
    proof (cases "iadd (max_seq_num_b10 ?s) 1")
      case (Inl e)
      then have "x = Inl e" using x(1) False by (simp add: timeoutHandler_def Let_def)
      then have "r = Inl e" using x(2) by simp
      then show ?thesis using run_one [of ?step, OF starts] Inl by (simp add: handler_begin_def at_rest_def)
    next
      case (Inr buffer_size)
      let ?h = "Resending i (getNextSeqNum ?s) (getBaseIdx ?s) buffer_size (getWindowSize ?s) (getBaseIdx ?s)"
      obtain z where z: "resend_loop (getNextSeqNum ?s) (getBaseIdx ?s) buffer_size (getWindowSize ?s) (getBaseIdx ?s) ?s = Some z"
        and x': "x = rbind z (\<lambda>s. Inr (startTimeoutTimer s))"
        using x(1) False Inr by (auto simp: timeoutHandler_def Let_def)
      have "?step (Inr (y, Not_sending, No_ack, No_handler)) (Inr (y, Not_sending, No_ack, ?h))"
        using starts Inr by (simp add: handler_begin_def)
      then have loop: "run ?step (Inr (y, Not_sending, No_ack, No_handler))
          (rbind z (\<lambda>s. Inr (y\<lparr>clientSender := startTimeoutTimer s\<rparr>, Not_sending, No_ack, Resent i)))"
        using resend_loop_run [OF z, of ret net hz i] by (auto simp: loop_run_def intro: run_step)
      show ?thesis
      proof (cases z)
        case (Inl e)
        then show ?thesis using loop x(2) x' by (simp add: at_rest_def)
      next
        case (Inr s)
        from run_trans [OF loop [unfolded Inr rbind_simps] run_one [of ?step, OF handler_returns]]
        show ?thesis using x(2) x' Inr by (simp add: at_rest_def)
      qed
    qed
  qed
qed

lemma atomic_step_run:
  assumes "client_step ret net hz x z" shows "run (preempted_step ret net hz) (at_rest x) (at_rest z)"
  using assms
proof (induction rule: client_step.induct)
  case (step_send y d ds q)
  then show ?case using thread_run [OF send_run] by (simp add: at_rest_eq)
next
  case (step_receive y n dg)
  then show ?case using thread_run [OF receive_run] by (simp add: at_rest_eq)
next
  case (step_fire y i r)
  then show ?case by (rule fire_run)
qed (unfold at_rest_eq, (rule thread_run, rule run_one, force intro: thread_step.intros)+)

lemma atomic_run:
  "run (client_step ret net hz) x z \<Longrightarrow> run (preempted_step ret net hz) (at_rest x) (at_rest z)"
  by (induction rule: run.induct) (auto intro: run_trans atomic_step_run)

end
