(* ===== verification/TimerRaces.thy ===== *)
theory TimerRaces
  imports PreemptedRuns
begin

section \<open>Races about the timer\<close>

text \<open>
  \<open>ackedPacket\<close> compares the indices before it takes \<open>timer_mutex\<close>. Two runs show what that
  allows: an acknowledgement that comes before its packet is counted stops a timer that does not
  exist, and one whose comparison is old stops the timer of a packet sent since, which then is
  never sent again.
\<close>

subsection \<open>The start of the runs\<close>

lemma initial_sender:
  assumes good: "good_subject subj" and cont: "readable fs subj contents" and init: "initial fs t0 subj (Inr y)"
  shows "timers (clientSender y) = []" and "timeoutTimer (clientSender y) = None"
    and "dp_left (dataProcessor (clientSender y)) = chunks (nat CHUNK_SIZE) contents"
proof -
  obtain dp where dp: "new_DataProcessor fs (getFilename subj) CHUNK_SIZE = Inr dp"
    "dp_left dp = chunks (nat CHUNK_SIZE) contents"
    using new_DataProcessor_wf [of fs "getFilename subj" contents CHUNK_SIZE] cont
    by (auto simp: readable_def CHUNK_SIZE_def INT_MAX_def)
  show "timers (clientSender y) = []" "timeoutTimer (clientSender y) = None"
    "dp_left (dataProcessor (clientSender y)) = chunks (nat CHUNK_SIZE) contents"
    using init dp good_subject_ints [OF good]
    by (auto simp: initial_def new_Client_def new_ClientSender_def new_ClientReceiver_def system_of_def client.defs)
qed

text \<open>The sender at the head of its loop, with the data of the first chunk.\<close>

lemma first_chunk_run:
  assumes good: "good_subject subj" and cont: "readable fs subj contents" and ne: "contents \<noteq> []"
    and init: "preempted_initial fs t0 subj x"
  shows "\<exists>y q. run (preempted_step ret net h) x (at_rest (Inr y)) \<and>
    system_rel ret t0 (file_packets (getPacket_size subj) contents) 0 0 0 y \<and> timers (clientSender y) = [] \<and>
    timeoutTimer (clientSender y) = None \<and>
    sender_at y = Sending (chunks (nat (getPacket_size subj)) (take (nat CHUNK_SIZE) contents)) q"
proof -
  let ?P = "file_packets (getPacket_size subj) contents"
  obtain x0 where x0: "initial fs t0 subj x0" "x = at_rest x0"
    using init by (auto simp: preempted_initial_def)
  obtain y0 where y0: "x0 = Inr y0" "configured subj y0" "sender_at y0 = Not_started" "system_rel ret t0 ?P 0 0 0 y0"
    using initial_rel [OF good cont x0(1)] by blast
  note s0 = initial_sender [OF good cont x0(1) [unfolded y0(1)]]
  have "?P \<noteq> []" using good ne by (auto simp: file_packets_def good_subject_def CHUNK_SIZE_def dest: arg_cong [of _ _ concat])
  then obtain y ds q dp where y: "run (client_step ret net h) (Inr y0) (Inr y)" "system_rel ret t0 ?P 0 0 0 y"
    "sender_at y = Sending ds q" "clientSender y = (clientSender y0)\<lparr>dataProcessor := dp\<rparr>"
    "ds = chunks (nat (packet_size (clientSender y0))) (hd (dp_left (dataProcessor (clientSender y0))))"
    using start_run [OF y0(4,3)] by blast
  have "hd (chunks (nat CHUNK_SIZE) contents) = take (nat CHUNK_SIZE) contents"
    using ne by (simp add: chunks_step CHUNK_SIZE_def)
  then have "ds = chunks (nat (getPacket_size subj)) (take (nat CHUNK_SIZE) contents)"
    using y(5) y0(2) s0(3) by (simp add: configured_def)
  moreover have "run (preempted_step ret net h) x (at_rest (Inr y))"
    using atomic_run [OF y(1)] x0(2) y0(1) by simp
  ultimately show ?thesis using y(2-4) s0 by auto
qed

text \<open>The parts of \<open>sendPacketReliable\<close> in a row, when the indices are equal.\<close>

lemma send_parts_run:
  assumes mid: "mid_rel t0 P C A B S Not_sending a (clientSender y)" and pc: "sender_at y = Sending (d # ds) q"
    and adv: "canAdvance (clientSender y) = Inr True" and d: "S < length P" "P ! S = d"
    and meet: "base_idx (clientSender y) = next_seq_num_idx (clientSender y)"
  shows "\<exists>s'. run (thread_step False ret net h) (Inr (y, Not_sending, a))
      (Inr (y\<lparr>sender_at := Sending ds q, clientSender := s'\<rparr>, Not_sending, a)) \<and>
    mid_rel t0 P C A B (Suc S) Not_sending a s' \<and> conf s' = conf (clientSender y) \<and>
    timers s' = timers (startTimeoutTimer (clientSender y)) \<and>
    timeoutTimer s' = timeoutTimer (startTimeoutTimer (clientSender y))"
proof -
  let ?step = "thread_step False ret net h" and ?s = "clientSender y" and ?y = "y\<lparr>sender_at := Sending ds q\<rparr>"
  let ?u = "sent_state ?s d S"
  obtain s' where "send_packet d ?s = Inr s'" "mid_rel t0 P C A B S Packet_sent a s'" "conf s' = conf ?s"
    using mid_send [OF mid adv d(1)] d(2) by auto
  moreover have "send_packet d ?s = Inr ?u"
    using send_packet_eq [OF mid_relD(2,9) [OF mid]] .
  ultimately have u: "send_packet d ?s = Inr ?u" "mid_rel t0 P C A B S Packet_sent a ?u" "conf ?u = conf ?s" by simp_all
  have im: "indices_meet ?u" using meet by (simp add: indices_meet_def getBaseIdx_def getNextSeqNum_def sent_state_def)
  let ?t = "startTimeoutTimer ?u"
  have "mid_rel t0 P C A B S (Send_compared True) a ?u" using mid_compare [OF u(2)] im by simp
  from mid_set_timer [OF this] have t: "mid_rel t0 P C A B S Timer_set a ?t" by (simp add: send_timer_def)
  obtain v where v: "incNextSeqNum ?t = Inr v" "mid_rel t0 P C A B (Suc S) Not_sending a v" "conf v = conf ?t"
    using mid_count [OF t] by blast
  have "timers v = timers ?t" "timeoutTimer v = timeoutTimer ?t"
    using v(1) by (auto simp: incNextSeqNum_def rbind_def split: sum.splits)
  moreover have "timers ?t = timers (startTimeoutTimer ?s)" "timeoutTimer ?t = timeoutTimer (startTimeoutTimer ?s)"
    "conf ?t = conf ?u"
    by (simp_all add: startTimeoutTimer_eq stopped_timers_def sent_state_def conf_def split: option.split)
  moreover have s1: "?step (Inr (y, Not_sending, a)) (Inr (?y\<lparr>clientSender := ?u\<rparr>, Packet_sent, a))"
    using pre_send [OF pc adv, of False ret net h a] u(1) by (simp add: on_sender_def)
  moreover have s2: "?step (Inr (?y\<lparr>clientSender := ?u\<rparr>, Packet_sent, a)) (Inr (?y\<lparr>clientSender := ?u\<rparr>, Send_compared True, a))"
    using pre_compare [of False ret net h "?y\<lparr>clientSender := ?u\<rparr>" a] im by simp
  moreover have s3: "?step (Inr (?y\<lparr>clientSender := ?u\<rparr>, Send_compared True, a)) (Inr (?y\<lparr>clientSender := ?t\<rparr>, Timer_set, a))"
    using pre_set_timer [of False ret net h "?y\<lparr>clientSender := ?u\<rparr>" True a] by (simp add: on_sender_def send_timer_def)
  moreover have s4: "?step (Inr (?y\<lparr>clientSender := ?t\<rparr>, Timer_set, a)) (Inr (?y\<lparr>clientSender := v\<rparr>, Not_sending, a))"
    using pre_count [of False ret net h "?y\<lparr>clientSender := ?t\<rparr>" a] v(1) by (simp add: on_sender_def)
  moreover have "run ?step (Inr (y, Not_sending, a)) (Inr (?y\<lparr>clientSender := v\<rparr>, Not_sending, a))"
    by (rule run_step [of ?step, OF s1 run_step [of ?step, OF s2 run_step [of ?step, OF s3 run_one [of ?step, OF s4]]]])
  ultimately show ?thesis using v u(3) by (intro exI [of _ v] conjI) auto
qed

text \<open>The acknowledgement of the packet in front of the window arrives and moves the window.\<close>

lemma acked_base_timers:
  "acked_base k s = Inr s' \<Longrightarrow> timers s' = timers s \<and> timeoutTimer s' = timeoutTimer s"
  by (auto simp: acked_base_def setBaseIdx_def rbind_def split: sum.splits)

lemma acked_check_timers:
  "acked_check k s = Inr (go, s') \<Longrightarrow> timers s' = timers s \<and> timeoutTimer s' = timeoutTimer s"
  by (auto simp: acked_check_def Let_def rbind_def sample_rtt_def cleanTimers_def endConnection_def
      sendPacketUnreliable_def split: sum.splits if_splits)

lemma ack_arrives:
  assumes mid: "mid_rel t0 P C A A S m No_ack (clientSender y)" and act: "\<not> finished_sending_data (clientSender y)"
    and rx: "receiver_ok y" "receiver_buffer y = Some n" "sender_at y \<noteq> Done" and A: "A < sent_total m S"
  shows "\<exists>s' k. run (thread_step False ret ordered_net h) (Inr (y, m, No_ack)) (Inr (y\<lparr>clientSender := s'\<rparr>, m, Base_set k)) \<and>
    mid_rel t0 P C A (Suc A) S m (Base_set k) s' \<and> conf s' = conf (clientSender y) \<and>
    timers s' = timers (clientSender y) \<and> timeoutTimer s' = timeoutTimer (clientSender y)"
proof -
  let ?step = "thread_step False ret ordered_net h" and ?s = "clientSender y"
  let ?k = "int (A mod ring_size ?s)" and ?d = "digits ?s" and ?c = "counted m ?s"
  have cfg: "sender_cfg ?s" by (rule mid_relD(2) [OF mid])
  note c = cfg_ring [OF cfg] and same = mid_counted [OF mid]
  have "A mod ring_size ?s < ring_size ?s" using c(2) by simp
  then have "?k \<le> max_seq_num_b10 ?s" using c(1) by linarith
  then have k: "0 \<le> ?k" "?k \<le> max_seq_num_b10 (startTimeoutTimer ?c)" by (simp_all add: counted_def)
  have "sender_rel t0 P C A (sent_total m S) (startTimeoutTimer ?c)"
    by (rule sender_rel_startTimeoutTimer [OF same(1,2)])
  from in_window_iff [OF this k] A same(4) have "in_window ?c ?k" by auto
  then have pl: "plausible_ack ?c ?k" using k by (simp add: plausible_ack_def)
  have d: "rx_max_seq_number (clientReceiver y) = int ?d" and buf: "?d + 32 < n"
    using rx(1,2) c(8) by (auto simp: receiver_ok_def)
  note fit = cfg_fits [OF cfg, of A]
  have net: "ordered_net (seen_from_outside m y) (ack_datagram ?d ?k)"
    using rx(2) d fit ack_datagram_accepted(3) [OF fit] pl
    by (auto simp: ordered_net_def harmless_def accepts_ack_def seen_from_outside_def)
  obtain s1 where s1: "acked_check ?k ?s = Inr (True, s1)" "conf s1 = conf ?s"
    "mid_rel t0 P C A (Suc A) S m (Ack_checked ?k) s1"
    using check_goes_on [OF mid act order_refl A refl] by blast
  obtain s2 where s2: "acked_base ?k s1 = Inr s2" "mid_rel t0 P C A (Suc A) S m (Base_set ?k) s2" "conf s2 = conf s1"
    using mid_base [OF s1(3)] by blast
  have "receiver_begin n (ack_datagram ?d ?k) y = Inr (y\<lparr>clientSender := s1\<rparr>, Ack_checked ?k)"
    using receive_ack_datagram [OF fit d buf, of check_ack "(y, No_ack)"] s1(1)
    by (simp add: receiver_begin_def check_ack_def)
  then have "?step (Inr (y, m, No_ack)) (Inr (y\<lparr>clientSender := s1\<rparr>, m, Ack_checked ?k))"
    using pre_receive [OF rx(2), of ordered_net m _ False ret h, OF net] by simp
  moreover have "?step (Inr (y\<lparr>clientSender := s1\<rparr>, m, Ack_checked ?k)) (Inr (y\<lparr>clientSender := s2\<rparr>, m, Base_set ?k))"
    using pre_base [of False ret ordered_net h "y\<lparr>clientSender := s1\<rparr>" m ?k] s2(1) by (simp add: on_sender_def)
  ultimately have "run ?step (Inr (y, m, No_ack)) (Inr (y\<lparr>clientSender := s2\<rparr>, m, Base_set ?k))"
    by (blast intro: run_step)
  then show ?thesis
    using s2 s1 acked_check_timers [OF s1(1)] acked_base_timers [OF s2(1)] by (intro exI [of _ s2] exI [of _ ?k]) simp
qed

subsection \<open>No timer to stop\<close>

lemma null_timer_run:
  assumes rel: "system_rel ret t0 P 0 0 0 y" and pc: "sender_at y = Sending (d # ds) q"
    and tm: "timeoutTimer (clientSender y) = None"
  shows "run (thread_step False ret ordered_net h) (Inr (y, Not_sending, No_ack)) (Inl (Undefined Null_dereference))"
proof -
  let ?step = "thread_step False ret ordered_net h" and ?s = "clientSender y" and ?u = "sent_state (clientSender y) d 0"
  let ?y = "y\<lparr>sender_at := Sending ds q, clientSender := ?u\<rparr>"
  have srel: "sender_rel t0 P 0 0 0 ?s" using rel unfolding system_rel_def by blast
  then have mid: "mid_rel t0 P 0 0 0 0 Not_sending No_ack ?s" by (simp add: mid_rel_rest)
  note c = cfg_ring [OF mid_relD(2) [OF mid]]
  have adv: "canAdvance ?s = Inr True" using canAdvance_window [OF srel] c(7) by simp
  have P: "0 < length P" "P ! 0 = d" using rel pc by (auto simp: system_rel_def unsent_def loop_data_def)
  have u: "send_packet d ?s = Inr ?u" by (rule send_packet_eq [OF mid_relD(2,9) [OF mid]])
  then have midu: "mid_rel t0 P 0 0 0 0 Packet_sent No_ack ?u" and cu: "conf ?u = conf ?s"
    using mid_send [OF mid adv P(1)] P(2) by auto
  obtain n where n: "receiver_buffer ?y = Some n" and rx: "receiver_ok ?y" "sender_at ?y \<noteq> Done"
    and act: "\<not> finished_sending_data (clientSender ?y)"
    using rel pc conf_eq_fields [OF cu] by (auto simp: system_rel_def receiver_ok_def)
  obtain s2 k where arrive: "run ?step (Inr (?y, Packet_sent, No_ack)) (Inr (?y\<lparr>clientSender := s2\<rparr>, Packet_sent, Base_set k))"
    and mid2: "mid_rel t0 P 0 0 1 0 Packet_sent (Base_set k) s2" and tm2: "timeoutTimer s2 = timeoutTimer ?u"
    using ack_arrives [of t0 P 0 0 0 Packet_sent ?y n ret h] midu act rx n by (auto simp: sent_total_def)
  have N: "1 < ring_size s2" using cfg_ring(6,7) [OF mid_relD(2) [OF mid2]] by linarith
  have apart: "\<not> indices_meet s2" using mid_relD(8,9) [OF mid2] N
    by (simp add: indices_meet_def getBaseIdx_def getNextSeqNum_def real_base_def)
  have mid3: "mid_rel t0 P 0 0 1 0 Timer_set (Base_set k) s2"
    using mid_set_timer [of t0 P 0 0 1 0 False "Base_set k" s2] mid_compare [OF mid2] apart by (simp add: send_timer_def)
  obtain s4 where s4: "incNextSeqNum s2 = Inr s4" and mid4: "mid_rel t0 P 0 0 1 1 Not_sending (Base_set k) s4"
    using mid_count [OF mid3] by auto
  have meet: "indices_meet s4" using mid_relD(8,9) [OF mid4]
    by (simp add: indices_meet_def getBaseIdx_def getNextSeqNum_def real_base_def)
  have "timeoutTimer s4 = None"
    using s4 tm tm2 by (auto simp: incNextSeqNum_def rbind_def sent_state_def split: sum.splits)
  then have crash: "acked_timer True s4 = Inl (Undefined Null_dereference)" by (simp add: acked_timer_def)
  let ?z = "\<lambda>s. ?y\<lparr>clientSender := s\<rparr>"
  have "?step (Inr (y, Not_sending, No_ack)) (Inr (?y, Packet_sent, No_ack))"
    using pre_send [OF pc adv, of False ret ordered_net h No_ack] u by (simp add: on_sender_def)
  moreover have "?step (Inr (?z s2, Packet_sent, Base_set k)) (Inr (?z s2, Send_compared False, Base_set k))"
    using pre_compare [of False ret ordered_net h "?z s2" "Base_set k"] apart by simp
  moreover have "?step (Inr (?z s2, Send_compared False, Base_set k)) (Inr (?z s2, Timer_set, Base_set k))"
    using pre_set_timer [of False ret ordered_net h "?z s2" False "Base_set k"] by (simp add: on_sender_def send_timer_def)
  moreover have "?step (Inr (?z s2, Timer_set, Base_set k)) (Inr (?z s4, Not_sending, Base_set k))"
    using pre_count [of False ret ordered_net h "?z s2" "Base_set k"] s4 by (simp add: on_sender_def)
  moreover have "?step (Inr (?z s4, Not_sending, Base_set k)) (Inr (?z s4, Not_sending, Ack_compared k True))"
    using pre_ack_compare [of False ret ordered_net h "?z s4" Not_sending k] meet by simp
  moreover have "?step (Inr (?z s4, Not_sending, Ack_compared k True)) (Inl (Undefined Null_dereference))"
    using pre_ack_timer [of False ret ordered_net h "?z s4" Not_sending k True] crash by (simp add: on_sender_def)
  ultimately have "run ?step (Inr (?z s2, Packet_sent, Base_set k)) (Inl (Undefined Null_dereference))"
    "?step (Inr (y, Not_sending, No_ack)) (Inr (?y, Packet_sent, No_ack))" by (blast intro: run_step)+
  then show ?thesis using run_trans [OF arrive] by (blast intro: run_step)
qed

subsection \<open>A timer that is stopped too late\<close>

text \<open>Of the timers started so far only the current one is not stopped.\<close>

definition fresh_timer :: "timer \<Rightarrow> bool" where
  "fresh_timer t \<longleftrightarrow> started t \<and> \<not> finished t \<and> thread t = Waiting"

definition one_runs :: "client_sender \<Rightarrow> bool" where
  "one_runs s \<longleftrightarrow> (\<forall>i < length (timers s). fresh_timer (timers s ! i) \<and>
     (timeoutTimer s \<noteq> Some i \<longrightarrow> stopped (timers s ! i)))"

definition quiet_timer :: "timer \<Rightarrow> bool" where
  "quiet_timer t \<longleftrightarrow> stopped t \<and> thread t \<in> {Waiting, Exited}"

lemma fresh_timer_stop: "fresh_timer t \<Longrightarrow> fresh_timer (timer_stop t) \<and> stopped (timer_stop t)"
  by (auto simp: fresh_timer_def timer_ops)

lemma one_runs_start:
  assumes "one_runs s" shows "one_runs (startTimeoutTimer s)"
proof -
  have "fresh_timer (stopped_timers s ! i) \<and> stopped (stopped_timers s ! i)" if "i < length (timers s)" for i
    using assms that fresh_timer_stop [of "timers s ! i"]
    by (cases "timeoutTimer s = Some i")
      (auto simp: one_runs_def stopped_timers_def nth_list_update_neq split: option.split)
  moreover have "length (stopped_timers s) = length (timers s)"
    by (simp add: stopped_timers_def split: option.split)
  moreover have "fresh_timer (startTimeout (now s) (estimated_rtt s) False)"
    by (simp add: fresh_timer_def timer_ops)
  ultimately show ?thesis
    by (auto simp: one_runs_def startTimeoutTimer_eq nth_append less_Suc_eq)
qed

lemma one_runs_stop:
  assumes "one_runs s" and "timeoutTimer s = Some i"
  shows "\<forall>t \<in> set (timers (stop_timer_at i s)). quiet_timer t"
proof -
  have "quiet_timer (timers (stop_timer_at i s) ! j)" if "j < length (timers s)" for j
    using assms that fresh_timer_stop [of "timers s ! j"]
    by (cases "j = i") (auto simp: one_runs_def stop_timer_at_def quiet_timer_def fresh_timer_def nth_list_update)
  then show ?thesis by (auto simp: in_set_conv_nth stop_timer_at_def)
qed

lemma acked_mark_timers: "acked_mark k s = Inr s' \<Longrightarrow> timers s' = timers s"
  by (auto simp: acked_mark_def count_acked_def window_get_def window_put_def rbind_def Let_def
      split: sum.splits if_splits option.splits)

lemma lost_timer_run:
  assumes rel: "system_rel ret t0 P 0 0 0 y" and pc: "sender_at y = Sending (d # e # ds) q"
    and tm: "timers (clientSender y) = []" "timeoutTimer (clientSender y) = None"
  shows "\<exists>s'. run (thread_step False ret ordered_net h) (Inr (y, Not_sending, No_ack))
      (Inr (y\<lparr>sender_at := Sending ds q, clientSender := s'\<rparr>, Not_sending, No_ack)) \<and>
    sender_rel t0 P 0 1 2 s' \<and> (\<forall>t \<in> set (timers s'). quiet_timer t)"
proof -
  let ?step = "thread_step False ret ordered_net h" and ?s = "clientSender y"
  have srel: "sender_rel t0 P 0 0 0 ?s" using rel unfolding system_rel_def by blast
  then have mid: "mid_rel t0 P 0 0 0 0 Not_sending No_ack ?s" by (simp add: mid_rel_rest)
  note c = cfg_ring [OF mid_relD(2) [OF mid]]
  have adv: "canAdvance ?s = Inr True" using canAdvance_window [OF srel] c(7) by simp
  have P: "0 < length P" "P ! 0 = d" "1 < length P" "P ! 1 = e"
    using rel pc by (auto simp: system_rel_def unsent_def loop_data_def)
  obtain s1 where r1: "run ?step (Inr (y, Not_sending, No_ack))
      (Inr (y\<lparr>sender_at := Sending (e # ds) q, clientSender := s1\<rparr>, Not_sending, No_ack))" (is "run _ _ (Inr (?y1, _, _))")
    and mid1: "mid_rel t0 P 0 0 0 1 Not_sending No_ack s1" and c1: "conf s1 = conf ?s"
    and t1: "timers s1 = timers (startTimeoutTimer ?s)" "timeoutTimer s1 = timeoutTimer (startTimeoutTimer ?s)"
    using send_parts_run [OF mid pc adv P(1,2), of ret ordered_net h] mid_relD(8,9) [OF mid]
    by (auto simp: real_base_def)
  have one: "one_runs s1" using one_runs_start [of ?s] t1 tm by (simp add: one_runs_def)
  obtain n where n: "receiver_buffer ?y1 = Some n" and rx: "receiver_ok ?y1" "sender_at ?y1 \<noteq> Done"
    and act: "\<not> finished_sending_data (clientSender ?y1)"
    using rel pc conf_eq_fields [OF c1] by (auto simp: system_rel_def receiver_ok_def)
  obtain s2 k where r2: "run ?step (Inr (?y1, Not_sending, No_ack)) (Inr (?y1\<lparr>clientSender := s2\<rparr>, Not_sending, Base_set k))"
    and mid2: "mid_rel t0 P 0 0 1 1 Not_sending (Base_set k) s2" and c2: "conf s2 = conf s1"
    and t2: "timers s2 = timers s1" "timeoutTimer s2 = timeoutTimer s1"
    using ack_arrives [of t0 P 0 0 1 Not_sending ?y1 n ret h] mid1 act rx n by (auto simp: sent_total_def)
  let ?z = "\<lambda>s. y\<lparr>sender_at := Sending (e # ds) q, clientSender := s\<rparr>"
  have idx: "base_idx s2 = next_seq_num_idx s2" using mid_relD(8,9) [OF mid2] by (simp add: real_base_def)
  then have meet: "indices_meet s2" by (simp add: indices_meet_def getBaseIdx_def getNextSeqNum_def)
  have r3: "?step (Inr (?z s2, Not_sending, Base_set k)) (Inr (?z s2, Not_sending, Ack_compared k True))"
    using pre_ack_compare [of False ret ordered_net h "?z s2" Not_sending k] meet by simp
  have mid3: "mid_rel t0 P 0 0 1 1 Not_sending (Ack_compared k True) s2" by (rule mid_ack_compare [OF mid2])
  note c3 = cfg_ring [OF mid_relD(2) [OF mid3]]
  have adv3: "canAdvance s2 = Inr True"
    using mid_canAdvance [OF mid3] c3(7) by (simp add: real_base_def)
  obtain s4 where r4: "run ?step (Inr (?z s2, Not_sending, Ack_compared k True))
      (Inr (?z s2\<lparr>sender_at := Sending ds q, clientSender := s4\<rparr>, Not_sending, Ack_compared k True))"
    and mid4: "mid_rel t0 P 0 0 1 2 Not_sending (Ack_compared k True) s4"
    and t4: "timers s4 = timers (startTimeoutTimer s2)" "timeoutTimer s4 = timeoutTimer (startTimeoutTimer s2)"
    using send_parts_run [of t0 P 0 0 1 1 "Ack_compared k True" "?z s2" e ds q ret ordered_net h] mid3 adv3 P(3,4) idx
    by (auto simp: numeral_2_eq_2)
  let ?i = "length (timers s2)" and ?w = "\<lambda>s. y\<lparr>sender_at := Sending ds q, clientSender := s\<rparr>"
  have i: "timeoutTimer s4 = Some ?i" using t4(2) by (simp add: startTimeoutTimer_eq)
  have "one_runs (startTimeoutTimer s2)" using one_runs_start [of s2] one t2 by (simp add: one_runs_def)
  then have "one_runs s4" using t4 by (simp add: one_runs_def)
  then have quiet: "\<forall>t \<in> set (timers (stop_timer_at ?i s4)). quiet_timer t" by (rule one_runs_stop [OF _ i])
  have stopped: "acked_timer True s4 = Inr (stop_timer_at ?i s4)" using i by (simp add: acked_timer_def)
  then have mid5: "mid_rel t0 P 0 0 1 2 Not_sending (Ack_timed k) (stop_timer_at ?i s4)"
    using mid_ack_timer [OF mid4] by auto
  obtain s6 where s6: "acked_mark k (stop_timer_at ?i s4) = Inr s6" "mid_rel t0 P 0 1 1 2 Not_sending No_ack s6"
    using mid_mark [OF mid5] by blast
  have r5: "?step (Inr (?w s4, Not_sending, Ack_compared k True)) (Inr (?w (stop_timer_at ?i s4), Not_sending, Ack_timed k))"
    using pre_ack_timer [of False ret ordered_net h "?w s4" Not_sending k True] stopped by (simp add: on_sender_def)
  have r6: "?step (Inr (?w (stop_timer_at ?i s4), Not_sending, Ack_timed k)) (Inr (?w s6, Not_sending, No_ack))"
    using pre_mark [of False ret ordered_net h "?w (stop_timer_at ?i s4)" Not_sending k] s6(1) by (simp add: on_sender_def)
  have "?z s2\<lparr>sender_at := Sending ds q, clientSender := s4\<rparr> = ?w s4" by (rule system.equality) simp_all
  then have "run ?step (Inr (y, Not_sending, No_ack)) (Inr (?w s6, Not_sending, No_ack))"
    using run_trans [OF r1 run_trans [OF _ run_step [of ?step, OF r3 run_trans [OF r4]]]] r2
      run_step [of ?step, OF r5 run_one [of ?step, OF r6]] by simp
  then show ?thesis
    using s6 quiet acked_mark_timers [OF s6(1)] by (intro exI [of _ s6]) (simp add: mid_rel_rest)
qed

text \<open>Then, as long as nothing arrives, no timer calls its handler and the sender does not come to its end.\<close>

abbreviation no_arrivals :: "system \<Rightarrow> string \<Rightarrow> bool" where
  "no_arrivals \<equiv> \<lambda>y dg. False"

definition stuck_client :: "bool option \<Rightarrow> int \<Rightarrow> string list \<Rightarrow> system \<Rightarrow> send_phase \<Rightarrow> bool" where
  "stuck_client ret t0 P y m \<longleftrightarrow>
     (\<exists>C A S. preempted_rel ret t0 P C A A S m No_ack y \<and> A < S) \<and> m \<noteq> Send_compared True \<and>
     (\<forall>t \<in> set (timers (clientSender y)). quiet_timer t)"

lemma stuck_clientI:
  "preempted_rel ret t0 P C A A S m No_ack y \<Longrightarrow> A < S \<Longrightarrow> m \<noteq> Send_compared True \<Longrightarrow>
     \<forall>t \<in> set (timers (clientSender y)). quiet_timer t \<Longrightarrow> stuck_client ret t0 P y m"
  unfolding stuck_client_def by blast

lemma quiet_timer_wait: "quiet_timer t \<Longrightarrow> thread_wait n t = Some t' \<Longrightarrow> quiet_timer t'"
  by (auto simp: quiet_timer_def thread_wait_def split: if_splits)

lemma stuck_step:
  assumes stuck: "stuck_client ret t0 P y m"
    and stp: "thread_step False ret no_arrivals (t0 + INT_MAX) (Inr (y, m, No_ack)) r"
  shows "\<exists>z m'. r = Inr (z, m', No_ack) \<and> stuck_client ret t0 P z m'"
proof -
  let ?s = "clientSender y" and ?N = "ring_size (clientSender y)"
  obtain C A S where rel: "preempted_rel ret t0 P C A A S m No_ack y" and AS: "A < S"
    and quiet: "\<forall>t \<in> set (timers ?s). quiet_timer t" and m: "m \<noteq> Send_compared True"
    using stuck by (auto simp: stuck_client_def)
  note mid = preempted_relD(1) [OF rel] and d = mid_relD [OF preempted_relD(1) [OF rel]]
  have room: "sent_total m S \<le> A + nat (window_size ?s)" using d(7) by (simp add: real_base_def)
  then have "S < A + ?N" using cfg_ring(6) [OF d(2)] by (auto simp: sent_total_def split: if_splits)
  then have "A mod ?N \<noteq> S mod ?N" using ring_neq [of ?N A S] cfg_ring(2) [OF d(2)] AS by blast
  then have apart: "\<not> indices_meet ?s"
    using d(8,9) by (simp add: indices_meet_def getBaseIdx_def getNextSeqNum_def real_base_def)
  have stay: "stuck_client ret t0 P (y\<lparr>clientSender := s'\<rparr>) m'"
    if "mid_rel t0 P C A A S' m' No_ack s'" "conf s' = conf ?s" "sent_total m' S' = sent_total m S" "A < S'"
      "m = Not_sending \<longrightarrow> m' = Not_sending" "m' \<noteq> Send_compared True" "\<forall>t \<in> set (timers s'). quiet_timer t"
    for s' m' S'
    using that by (intro stuck_clientI [OF preempted_rel_sender [OF rel that(2,1) order_refl that(3,5)]]) simp_all
  from stp show ?thesis
  proof (rule thread_stepE)
    assume "m = Not_sending" "sender_at y = Not_started"
    then show ?thesis using rel AS by (simp add: preempted_rel_def sent_total_def)
  next
    assume "m = Not_sending" "sender_at y = At_chunk"
    then show ?thesis using rel AS by (simp add: preempted_rel_def sent_total_def)
  next
    fix d' ds q assume m': "m = Not_sending" and pc: "sender_at y = Sending (d' # ds) q" "canAdvance ?s = Inr True"
      and r: "r = on_sender (send_packet d') Packet_sent No_ack (y\<lparr>sender_at := Sending ds q\<rparr>)"
    have sent: "send_packet d' ?s = Inr (sent_state ?s d' S)" by (rule send_packet_eq [OF d(2,9)])
    then have "preempted_rel ret t0 P C A A S Packet_sent No_ack
        (y\<lparr>sender_at := Sending ds q, clientSender := sent_state ?s d' S\<rparr>)"
      using send_preempted_rel [OF rel [unfolded m'] pc] by auto
    from stuck_clientI [OF this AS] quiet show ?thesis using r sent by (simp add: on_sender_def sent_state_def)
  next
    fix d' ds q e assume m': "m = Not_sending" and "canAdvance ?s = Inl e"
    then show ?thesis using mid_canAdvance [OF mid [unfolded m']] by simp
  next
    assume m': "m = Packet_sent" and r: "r = Inr (y, Send_compared (indices_meet ?s), No_ack)"
    from stay [OF mid_compare [OF mid [unfolded m']] refl] show ?thesis
      using m' r apart AS quiet by (simp add: sent_total_def)
  next
    fix meet assume m': "m = Send_compared meet" and r: "r = on_sender (\<lambda>s. Inr (send_timer meet s)) Timer_set No_ack y"
    have "\<not> meet" using m m' by simp
    with stay [OF mid_set_timer [OF mid [unfolded m']]] m' r AS quiet show ?thesis
      by (simp add: on_sender_def send_timer_def sent_total_def)
  next
    assume m': "m = Timer_set" and r: "r = on_sender incNextSeqNum Not_sending No_ack y"
    obtain s' where s': "incNextSeqNum ?s = Inr s'" "mid_rel t0 P C A A (Suc S) Not_sending No_ack s'" "conf s' = conf ?s"
      using mid_count [OF mid [unfolded m']] by blast
    have "timers s' = timers ?s" using s'(1) by (auto simp: incNextSeqNum_def rbind_def split: sum.splits)
    with stay [OF s'(2,3)] m' r s'(1) AS quiet show ?thesis by (simp add: on_sender_def sent_total_def)
  next
    fix q assume m': "m = Not_sending" and pc: "sender_at y = Sending [] q"
      and r: "r = Inr (y\<lparr>sender_at := Wait_acks q\<rparr>, Not_sending, No_ack)"
    have "preempted_rel ret t0 P C A A S Not_sending No_ack (y\<lparr>sender_at := Wait_acks q\<rparr>)"
      using rel m' pc by (auto simp: preempted_rel_def receiver_ok_def unsent_def loop_data_def)
    from stuck_clientI [OF this AS] quiet show ?thesis using r by simp
  next
    fix q assume m': "m = Not_sending" and pc: "sender_at y = Wait_acks q" and ack: "chunk_acked q ?s"
    then show ?thesis using mid_chunk_acked [OF mid ack] rel AS by (simp add: preempted_rel_def sent_total_def)
  next
    fix i t assume t: "thread_wait (now ?s) (timers ?s ! i) = Some t" "i < length (timers ?s)"
      and r: "r = Inr (y\<lparr>clientSender := put_timer i t ?s\<rparr>, m, No_ack)"
    have "started t" using t d(3) thread_wait_started [OF t(1)] by (auto simp: timer_rel_def timers_ok_def)
    moreover have "quiet_timer t" using quiet t quiet_timer_wait by (metis nth_mem)
    then have "\<forall>t \<in> set (timers (put_timer i t ?s)). quiet_timer t"
      using quiet by (auto simp: put_timer_def dest!: set_update_subset_insert [THEN subsetD])
    ultimately show ?thesis using stay [OF mid_put_timer [OF mid]] r AS m by (simp add: put_timer_def conf_def)
  next
    fix n assume n: "now ?s \<le> n" "n \<le> t0 + INT_MAX" and r: "r = Inr (y\<lparr>clientSender := ?s\<lparr>now := n\<rparr>\<rparr>, m, No_ack)"
    from stay [OF mid_tick [OF mid n]] r AS m quiet show ?thesis by (simp add: conf_def)
  qed simp_all
qed

lemma stuck_preempted_step:
  assumes stuck: "stuck_client ret t0 P y m"
    and stp: "preempted_step ret no_arrivals (t0 + INT_MAX) (Inr (y, m, No_ack, No_handler)) r"
  shows "\<exists>z m'. r = Inr (z, m', No_ack, No_handler) \<and> stuck_client ret t0 P z m'"
proof -
  have silent: "thread (timers (clientSender y) ! i) \<noteq> Firing" if "i < length (timers (clientSender y))" for i
  proof -
    have "quiet_timer (timers (clientSender y) ! i)" using stuck that by (simp add: stuck_client_def)
    then show ?thesis by (auto simp: quiet_timer_def)
  qed
  from stp show ?thesis
  proof (rule preempted_stepE)
    fix r' assume r: "r = with_handler No_handler r'"
      and "thread_step (No_handler \<noteq> No_handler) ret no_arrivals (t0 + INT_MAX) (Inr (y, m, No_ack)) r'"
    then obtain z m' where "r' = Inr (z, m', No_ack)" "stuck_client ret t0 P z m'"
      using stuck_step [OF stuck, of r'] by auto
    then show ?thesis using r by simp
  qed (use silent in auto)
qed

lemma stuck_run:
  assumes "run (preempted_step ret no_arrivals (t0 + INT_MAX)) x r" and "x = Inr (y, m, No_ack, No_handler)"
    and "stuck_client ret t0 P y m"
  shows "\<exists>z m'. r = Inr (z, m', No_ack, No_handler) \<and> stuck_client ret t0 P z m'"
  using assms
proof (induction arbitrary: y m rule: run.induct)
  case (run_refl x)
  then show ?case by blast
next
  case (run_step x u r)
  then obtain z m' where "u = Inr (z, m', No_ack, No_handler)" "stuck_client ret t0 P z m'"
    using stuck_preempted_step by metis
  with run_step.IH show ?case by blast
qed

lemma stuck_client_view:
  assumes "stuck_client ret t0 P z m"
  shows "sender_at z \<noteq> Done \<and> (\<forall>t \<in> set (timers (clientSender z)). thread t \<noteq> Firing)"
  using assms by (auto simp: stuck_client_def preempted_rel_def sent_total_def quiet_timer_def)

lemma lost_is_stuck:
  assumes rel: "preempted_rel ret t0 P C A B S Not_sending No_ack y"
    and sent: "sender_rel t0 P 0 1 2 (clientSender y)" and quiet: "\<forall>t \<in> set (timers (clientSender y)). quiet_timer t"
  shows "stuck_client ret t0 P y Not_sending"
proof -
  have B: "B = A" using preempted_relD(2) [OF rel] by simp
  then have srel: "sender_rel t0 P C A S (clientSender y)"
    using preempted_relD(1) [OF rel] by (simp add: mid_rel_rest)
  have "S - A = 1" using unacked_eq [OF srel] unacked_eq [OF sent] by simp
  then show ?thesis using stuck_clientI [of ret t0 P C A S Not_sending y] rel B quiet by simp
qed

end
