(* ===== verification/SocketOps.thy ===== *)
theory SocketOps
  imports Prelude "HOL-Library.Word" "HOL-Library.Monad_Syntax"
begin

section \<open>Socket operations (lib/asio, detail/impl/socket_ops.ipp)\<close>

text \<open>
  The functions through which the program's sockets reach the operating system, as they are
  compiled on Linux. The system is a parameter: a state \<open>os\<close> holds what its calls will
  answer, in order, and records the calls made. A function that needs more answers than
  there are is blocked in the call, which is the result \<open>None\<close>. The error code that the
  functions leave in \<open>ec\<close> is part of their result.
\<close>

unbundle bit_operations_syntax

subsection \<open>Error codes\<close>

datatype error_category = System_category | Misc_category

type_synonym error_code = "int \<times> error_category"

abbreviation system_error :: "int \<Rightarrow> error_code" where
  "system_error n \<equiv> (n, System_category)"

definition no_error :: error_code where "no_error = system_error 0"
definition interrupted :: error_code where "interrupted = system_error 4"
definition bad_descriptor :: error_code where "bad_descriptor = system_error 9"
definition try_again :: error_code where "try_again = system_error 11"
definition would_block :: error_code where "would_block = system_error 11"
definition invalid_argument :: error_code where "invalid_argument = system_error 22"
definition ENOTTY :: int where "ENOTTY = 25"
definition EPROTO :: int where "EPROTO = 71"
definition not_socket :: error_code where "not_socket = system_error 88"
definition connection_aborted :: error_code where "connection_aborted = system_error 103"
definition no_buffer_space :: error_code where "no_buffer_space = system_error 105"
definition in_progress :: error_code where "in_progress = system_error 115"
definition already_open :: error_code where "already_open = (1, Misc_category)"
definition eof :: error_code where "eof = (2, Misc_category)"

lemmas error_defs = no_error_def interrupted_def bad_descriptor_def try_again_def would_block_def
  invalid_argument_def not_socket_def connection_aborted_def no_buffer_space_def in_progress_def
  already_open_def eof_def

subsection \<open>The system\<close>

type_synonym sockaddr = string

datatype poll_event = Pollin | Pollout | Poll_errors

datatype syscall =
    Sys_socket int int int
  | Sys_bind int sockaddr
  | Sys_listen int int
  | Sys_accept int
  | Sys_connect int sockaddr
  | Sys_shutdown int int
  | Sys_close int
  | Sys_ioctl int int int
  | Sys_setsockopt int int int int nat
  | Sys_getsockopt int int int
  | Sys_getpeername int
  | Sys_getsockname int
  | Sys_recvmsg int nat int bool
  | Sys_sendmsg int string int "sockaddr option"
  | Sys_poll int poll_event int
  | Sys_epoll_ctl int int "32 word"

text \<open>
  An answer: the returned value and \<open>errno\<close>, and what the call wrote through the pointers it
  was given (data, an address, the message flags, an integer with its size).
\<close>

record answer =
  returned :: int
  errno :: int
  wrote_data :: string
  wrote_addr :: sockaddr
  wrote_flags :: int
  wrote_value :: int
  wrote_size :: nat

record os =
  answers :: "answer list"
  syscalls :: "syscall list"

definition sys :: "syscall \<Rightarrow> os \<Rightarrow> (answer \<times> os) option" where
  "sys c w = (case answers w of [] \<Rightarrow> None | a # as \<Rightarrow> Some (a, w\<lparr>answers := as, syscalls := syscalls w @ [c]\<rparr>))"

definition error_wrapper :: "answer \<Rightarrow> int \<times> error_code" where
  "error_wrapper a = (returned a, system_error (errno a))"

definition invalid_socket :: int where "invalid_socket = -1"
definition socket_error_retval :: int where "socket_error_retval = -1"

subsection \<open>State bits\<close>

type_synonym state_type = "8 word"

definition user_set_non_blocking :: state_type where "user_set_non_blocking = 1"
definition internal_non_blocking :: state_type where "internal_non_blocking = 2"
definition non_blocking :: state_type where
  "non_blocking = user_set_non_blocking OR internal_non_blocking"
definition enable_connection_aborted :: state_type where "enable_connection_aborted = 4"
definition user_set_linger :: state_type where "user_set_linger = 8"
definition stream_oriented :: state_type where "stream_oriented = 16"
definition datagram_oriented :: state_type where "datagram_oriented = 32"
definition possible_dup :: state_type where "possible_dup = 64"

definition has_bit :: "state_type \<Rightarrow> state_type \<Rightarrow> bool" where
  "has_bit state b \<longleftrightarrow> state AND b \<noteq> 0"

subsection \<open>Calls that are made once\<close>

text \<open>
  The result of most calls: the error only if the call failed. The socket is checked first.
\<close>

definition call_once :: "int \<Rightarrow> syscall \<Rightarrow> (int \<Rightarrow> bool) \<Rightarrow> os \<Rightarrow> ((int \<times> error_code \<times> answer option) \<times> os) option"
  where
  "call_once s c ok w =
     (if s = invalid_socket then Some ((socket_error_retval, bad_descriptor, None), w)
      else do {
        (a, w) \<leftarrow> sys c w;
        let (result, ec) = error_wrapper a;
        Some ((result, if ok result then no_error else ec, Some a), w)
      })"

definition bind_op :: "int \<Rightarrow> sockaddr \<Rightarrow> os \<Rightarrow> ((int \<times> error_code) \<times> os) option" where
  "bind_op s addr w = do {
     ((result, ec, _), w) \<leftarrow> call_once s (Sys_bind s addr) (\<lambda>r. r = 0) w;
     Some ((result, ec), w) }"

definition listen_op :: "int \<Rightarrow> int \<Rightarrow> os \<Rightarrow> ((int \<times> error_code) \<times> os) option" where
  "listen_op s backlog w = do {
     ((result, ec, _), w) \<leftarrow> call_once s (Sys_listen s backlog) (\<lambda>r. r = 0) w;
     Some ((result, ec), w) }"

definition shutdown_op :: "int \<Rightarrow> int \<Rightarrow> os \<Rightarrow> ((int \<times> error_code) \<times> os) option" where
  "shutdown_op s what w = do {
     ((result, ec, _), w) \<leftarrow> call_once s (Sys_shutdown s what) (\<lambda>r. r = 0) w;
     Some ((result, ec), w) }"

text \<open>With the address the call wrote, if it was made.\<close>

definition getpeername_op :: "int \<Rightarrow> os \<Rightarrow> ((int \<times> error_code \<times> sockaddr option) \<times> os) option" where
  "getpeername_op s w = do {
     ((result, ec, a), w) \<leftarrow> call_once s (Sys_getpeername s) (\<lambda>r. r = 0) w;
     Some ((result, ec, map_option wrote_addr a), w) }"

definition getsockname_op :: "int \<Rightarrow> os \<Rightarrow> ((int \<times> error_code \<times> sockaddr option) \<times> os) option" where
  "getsockname_op s w = do {
     ((result, ec, a), w) \<leftarrow> call_once s (Sys_getsockname s) (\<lambda>r. r = 0) w;
     Some ((result, ec, map_option wrote_addr a), w) }"

definition connect_op :: "int \<Rightarrow> sockaddr \<Rightarrow> os \<Rightarrow> ((int \<times> error_code) \<times> os) option" where
  "connect_op s addr w = do {
     ((result, ec, _), w) \<leftarrow> call_once s (Sys_connect s addr) (\<lambda>r. r = 0) w;
     Some ((result, if result \<noteq> 0 \<and> ec = try_again then no_buffer_space else ec), w) }"

definition accept_op :: "int \<Rightarrow> os \<Rightarrow> ((int \<times> error_code \<times> sockaddr option) \<times> os) option" where
  "accept_op s w = do {
     ((new_s, ec, a), w) \<leftarrow> call_once s (Sys_accept s) (\<lambda>r. r \<noteq> invalid_socket) w;
     Some ((new_s, ec, map_option wrote_addr a), w) }"

definition socket_op :: "int \<Rightarrow> int \<Rightarrow> int \<Rightarrow> os \<Rightarrow> ((int \<times> error_code) \<times> os) option" where
  "socket_op af type protocol w = do {
     (a, w) \<leftarrow> sys (Sys_socket af type protocol) w;
     let (s, ec) = error_wrapper a;
     Some ((s, if 0 \<le> s then no_error else ec), w) }"

subsection \<open>Modes and options\<close>

definition FIONBIO :: int where "FIONBIO = 0x5421"
definition FIONREAD :: int where "FIONREAD = 0x541B"
definition SIOCATMARK :: int where "SIOCATMARK = 0x8905"
definition SOL_SOCKET :: int where "SOL_SOCKET = 1"
definition SO_ERROR :: int where "SO_ERROR = 4"
definition SO_SNDBUF :: int where "SO_SNDBUF = 7"
definition SO_RCVBUF :: int where "SO_RCVBUF = 8"
definition SO_LINGER :: int where "SO_LINGER = 13"
definition custom_socket_option_level :: int where "custom_socket_option_level = 0xA5100000 - 2 ^ 32"
definition enable_connection_aborted_option :: int where "enable_connection_aborted_option = 1"
definition always_fail_option :: int where "always_fail_option = 2"

definition set_user_non_blocking ::
    "int \<Rightarrow> state_type \<Rightarrow> bool \<Rightarrow> os \<Rightarrow> ((bool \<times> state_type \<times> error_code) \<times> os) option" where
  "set_user_non_blocking s state value w =
     (if s = invalid_socket then Some ((False, state, bad_descriptor), w)
      else do {
        (a, w) \<leftarrow> sys (Sys_ioctl s FIONBIO (if value then 1 else 0)) w;
        let (result, ec) = error_wrapper a;
        Some (if 0 \<le> result
          then (True,
            if value then state OR user_set_non_blocking
            else state AND NOT (user_set_non_blocking OR internal_non_blocking), no_error)
          else (False, state, ec), w) })"

definition set_internal_non_blocking ::
    "int \<Rightarrow> state_type \<Rightarrow> bool \<Rightarrow> os \<Rightarrow> ((bool \<times> state_type \<times> error_code) \<times> os) option" where
  "set_internal_non_blocking s state value w =
     (if s = invalid_socket then Some ((False, state, bad_descriptor), w)
      else if \<not> value \<and> has_bit state user_set_non_blocking
      then Some ((False, state, invalid_argument), w)
      else do {
        (a, w) \<leftarrow> sys (Sys_ioctl s FIONBIO (if value then 1 else 0)) w;
        let (result, ec) = error_wrapper a;
        Some (if 0 \<le> result
          then (True,
            if value then state OR internal_non_blocking
            else state AND NOT internal_non_blocking, no_error)
          else (False, state, ec), w) })"

text \<open>\<open>ioctl\<close> gives back its argument as the call wrote it.\<close>

definition ioctl_op ::
    "int \<Rightarrow> state_type \<Rightarrow> int \<Rightarrow> int \<Rightarrow> os \<Rightarrow> ((int \<times> state_type \<times> int \<times> error_code) \<times> os) option" where
  "ioctl_op s state cmd arg w =
     (if s = invalid_socket then Some ((socket_error_retval, state, arg, bad_descriptor), w)
      else do {
        (a, w) \<leftarrow> sys (Sys_ioctl s cmd arg) w;
        let (result, ec) = error_wrapper a;
        let arg = wrote_value a;
        Some (if 0 \<le> result
          then (result,
            if cmd = FIONBIO
            then (if arg \<noteq> 0 then state OR user_set_non_blocking
                  else state AND NOT (user_set_non_blocking OR internal_non_blocking))
            else state, arg, no_error)
          else (result, state, arg, ec), w) })"

definition sockatmark_op :: "int \<Rightarrow> os \<Rightarrow> ((bool \<times> error_code) \<times> os) option" where
  "sockatmark_op s w =
     (if s = invalid_socket then Some ((False, bad_descriptor), w)
      else do {
        (a, w) \<leftarrow> sys (Sys_ioctl s SIOCATMARK 0) w;
        let (result, ec) = error_wrapper a;
        let ec = (if result = 0 then no_error else ec);
        let ec = (if fst ec = ENOTTY then not_socket else ec);
        Some ((if fst ec \<noteq> 0 then False else wrote_value a \<noteq> 0, ec), w) })"

definition available_op :: "int \<Rightarrow> os \<Rightarrow> ((int \<times> error_code) \<times> os) option" where
  "available_op s w =
     (if s = invalid_socket then Some ((0, bad_descriptor), w)
      else do {
        (a, w) \<leftarrow> sys (Sys_ioctl s FIONREAD 0) w;
        let (result, ec) = error_wrapper a;
        let ec = (if result = 0 then no_error else ec);
        let ec = (if fst ec = ENOTTY then not_socket else ec);
        Some ((if fst ec \<noteq> 0 then 0 else wrote_value a, ec), w) })"

definition setsockopt_op ::
    "int \<Rightarrow> state_type \<Rightarrow> int \<Rightarrow> int \<Rightarrow> int \<Rightarrow> nat \<Rightarrow> os \<Rightarrow> ((int \<times> state_type \<times> error_code) \<times> os) option"
  where
  "setsockopt_op s state level optname optval optlen w =
     (if s = invalid_socket then Some ((socket_error_retval, state, bad_descriptor), w)
      else if level = custom_socket_option_level \<and> optname = always_fail_option
      then Some ((socket_error_retval, state, invalid_argument), w)
      else if level = custom_socket_option_level \<and> optname = enable_connection_aborted_option
      then (if optlen \<noteq> 4 then Some ((socket_error_retval, state, invalid_argument), w)
            else Some ((0, if optval \<noteq> 0 then state OR enable_connection_aborted
                           else state AND NOT enable_connection_aborted, no_error), w))
      else do {
        let state = (if level = SOL_SOCKET \<and> optname = SO_LINGER then state OR user_set_linger else state);
        (a, w) \<leftarrow> sys (Sys_setsockopt s level optname optval optlen) w;
        let (result, ec) = error_wrapper a;
        Some ((result, state, if result = 0 then no_error else ec), w) })"

text \<open>
  The value and its size, if they were written. Linux doubles the sizes of the buffers it
  is given; the value read back is halved.
\<close>

definition getsockopt_op ::
    "int \<Rightarrow> state_type \<Rightarrow> int \<Rightarrow> int \<Rightarrow> nat \<Rightarrow> os \<Rightarrow> ((int \<times> error_code \<times> (int \<times> nat) option) \<times> os) option"
  where
  "getsockopt_op s state level optname optlen w =
     (if s = invalid_socket then Some ((socket_error_retval, bad_descriptor, None), w)
      else if level = custom_socket_option_level \<and> optname = always_fail_option
      then Some ((socket_error_retval, invalid_argument, None), w)
      else if level = custom_socket_option_level \<and> optname = enable_connection_aborted_option
      then (if optlen \<noteq> 4 then Some ((socket_error_retval, invalid_argument, None), w)
            else Some ((0, no_error, Some (if has_bit state enable_connection_aborted then 1 else 0, 4)), w))
      else do {
        (a, w) \<leftarrow> sys (Sys_getsockopt s level optname) w;
        let (result, ec) = error_wrapper a;
        let value = (if result = 0 \<and> level = SOL_SOCKET \<and> wrote_size a = 4 \<and>
                        (optname = SO_SNDBUF \<or> optname = SO_RCVBUF)
                     then wrote_value a sdiv 2 else wrote_value a);
        Some ((result, if result = 0 then no_error else ec, Some (value, wrote_size a)), w) })"

text \<open>\<open>close\<close>: a destructor must not linger; a socket that would block is made blocking, once.\<close>

definition close_op ::
    "int \<Rightarrow> state_type \<Rightarrow> bool \<Rightarrow> os \<Rightarrow> ((int \<times> state_type \<times> error_code) \<times> os) option" where
  "close_op s state destruction w =
     (if s = invalid_socket then Some ((0, state, no_error), w)
      else do {
        (state, w) \<leftarrow>
          (if destruction \<and> has_bit state user_set_linger
           then do { ((_, state, _), w) \<leftarrow> setsockopt_op s state SOL_SOCKET SO_LINGER 0 8 w; Some (state, w) }
           else Some (state, w));
        (a, w) \<leftarrow> sys (Sys_close s) w;
        let (result, ec) = error_wrapper a;
        if result \<noteq> 0 \<and> (ec = would_block \<or> ec = try_again)
        then do {
          (_, w) \<leftarrow> sys (Sys_ioctl s FIONBIO 0) w;
          let state = state AND NOT non_blocking;
          (a, w) \<leftarrow> sys (Sys_close s) w;
          let (result, ec) = error_wrapper a;
          Some ((result, state, if result = 0 then no_error else ec), w) }
        else Some ((result, state, if result = 0 then no_error else ec), w) })"

subsection \<open>Waiting\<close>

definition poll_op ::
    "poll_event \<Rightarrow> int \<Rightarrow> state_type \<Rightarrow> int \<Rightarrow> os \<Rightarrow> ((int \<times> error_code) \<times> os) option" where
  "poll_op ev s state msec w =
     (if s = invalid_socket then Some ((socket_error_retval, bad_descriptor), w)
      else do {
        let timeout = (if has_bit state user_set_non_blocking then 0 else msec);
        (a, w) \<leftarrow> sys (Sys_poll s ev timeout) w;
        let (result, ec) = error_wrapper a;
        Some ((result,
          if result = 0 then (if has_bit state user_set_non_blocking then would_block else no_error)
          else if 0 < result then no_error else ec), w) })"

definition poll_read :: "int \<Rightarrow> state_type \<Rightarrow> int \<Rightarrow> os \<Rightarrow> ((int \<times> error_code) \<times> os) option" where
  "poll_read = poll_op Pollin"

definition poll_write :: "int \<Rightarrow> state_type \<Rightarrow> int \<Rightarrow> os \<Rightarrow> ((int \<times> error_code) \<times> os) option" where
  "poll_write = poll_op Pollout"

definition poll_error :: "int \<Rightarrow> state_type \<Rightarrow> int \<Rightarrow> os \<Rightarrow> ((int \<times> error_code) \<times> os) option" where
  "poll_error = poll_op Poll_errors"

definition poll_connect :: "int \<Rightarrow> int \<Rightarrow> os \<Rightarrow> ((int \<times> error_code) \<times> os) option" where
  "poll_connect s msec w = do {
     ((result, ec, _), w) \<leftarrow> call_once s (Sys_poll s Pollout msec) (\<lambda>r. 0 \<le> r) w;
     Some ((result, ec), w) }"

subsection \<open>Data\<close>

text \<open>The buffers of a call count with their total size, or as the data in them.\<close>

definition MSG_NOSIGNAL :: int where "MSG_NOSIGNAL = 0x4000"

definition recv_op :: "int \<Rightarrow> nat \<Rightarrow> int \<Rightarrow> os \<Rightarrow> ((int \<times> error_code \<times> string) \<times> os) option" where
  "recv_op s len flags w = do {
     (a, w) \<leftarrow> sys (Sys_recvmsg s len flags False) w;
     let (result, ec) = error_wrapper a;
     Some ((result, if 0 \<le> result then no_error else ec, wrote_data a), w) }"

definition recvfrom_op ::
    "int \<Rightarrow> nat \<Rightarrow> int \<Rightarrow> os \<Rightarrow> ((int \<times> error_code \<times> string \<times> sockaddr) \<times> os) option" where
  "recvfrom_op s len flags w = do {
     (a, w) \<leftarrow> sys (Sys_recvmsg s len flags True) w;
     let (result, ec) = error_wrapper a;
     Some ((result, if 0 \<le> result then no_error else ec, wrote_data a, wrote_addr a), w) }"

definition recvmsg_op ::
    "int \<Rightarrow> nat \<Rightarrow> int \<Rightarrow> os \<Rightarrow> ((int \<times> error_code \<times> string \<times> int) \<times> os) option" where
  "recvmsg_op s len in_flags w = do {
     (a, w) \<leftarrow> sys (Sys_recvmsg s len in_flags False) w;
     let (result, ec) = error_wrapper a;
     Some (if 0 \<le> result then (result, no_error, wrote_data a, wrote_flags a)
           else (result, ec, wrote_data a, 0), w) }"

definition send_op :: "int \<Rightarrow> string \<Rightarrow> int \<Rightarrow> os \<Rightarrow> ((int \<times> error_code) \<times> os) option" where
  "send_op s data flags w = do {
     (a, w) \<leftarrow> sys (Sys_sendmsg s data (flags OR MSG_NOSIGNAL) None) w;
     let (result, ec) = error_wrapper a;
     Some ((result, if 0 \<le> result then no_error else ec), w) }"

definition sendto_op :: "int \<Rightarrow> string \<Rightarrow> int \<Rightarrow> sockaddr \<Rightarrow> os \<Rightarrow> ((int \<times> error_code) \<times> os) option" where
  "sendto_op s data flags addr w = do {
     (a, w) \<leftarrow> sys (Sys_sendmsg s data (flags OR MSG_NOSIGNAL) (Some addr)) w;
     let (result, ec) = error_wrapper a;
     Some ((result, if 0 \<le> result then no_error else ec), w) }"

subsection \<open>Blocking calls\<close>

text \<open>
  Each of them retries for ever, with a wait in between; that it comes back is a theorem
  (\<open>blocking_calls_return\<close>). Whether the calls would block is tested on the
  error code.
\<close>

definition blocked :: "error_code \<Rightarrow> bool" where
  "blocked ec \<longleftrightarrow> ec = would_block \<or> ec = try_again"

text \<open>The loops of the five transfers. All return 0 bytes with an error.\<close>

partial_function (option) recv_loop ::
    "int \<Rightarrow> state_type \<Rightarrow> nat \<Rightarrow> int \<Rightarrow> os \<Rightarrow> ((int \<times> error_code \<times> string) \<times> os) option" where
  "recv_loop s state len flags w = do {
     ((bytes, ec, data), w) \<leftarrow> recv_op s len flags w;
     if 0 < bytes then Some ((bytes, ec, data), w)
     else if has_bit state stream_oriented \<and> bytes = 0 then Some ((0, eof, data), w)
     else if has_bit state user_set_non_blocking \<or> \<not> blocked ec then Some ((0, ec, data), w)
     else do {
       ((ready, ec), w) \<leftarrow> poll_read s 0 (-1) w;
       if ready < 0 then Some ((0, ec, data), w) else recv_loop s state len flags w } }"

definition sync_recv ::
    "int \<Rightarrow> state_type \<Rightarrow> nat \<Rightarrow> int \<Rightarrow> bool \<Rightarrow> os \<Rightarrow> ((int \<times> error_code \<times> string) \<times> os) option" where
  "sync_recv s state len flags all_empty w =
     (if s = invalid_socket then Some ((0, bad_descriptor, []), w)
      else if all_empty \<and> has_bit state stream_oriented then Some ((0, no_error, []), w)
      else recv_loop s state len flags w)"

partial_function (option) recvfrom_loop ::
    "int \<Rightarrow> state_type \<Rightarrow> nat \<Rightarrow> int \<Rightarrow> os \<Rightarrow> ((int \<times> error_code \<times> string \<times> sockaddr) \<times> os) option" where
  "recvfrom_loop s state len flags w = do {
     ((bytes, ec, data, addr), w) \<leftarrow> recvfrom_op s len flags w;
     if 0 \<le> bytes then Some ((bytes, ec, data, addr), w)
     else if has_bit state user_set_non_blocking \<or> \<not> blocked ec then Some ((0, ec, data, addr), w)
     else do {
       ((ready, ec), w) \<leftarrow> poll_read s 0 (-1) w;
       if ready < 0 then Some ((0, ec, data, addr), w) else recvfrom_loop s state len flags w } }"

definition sync_recvfrom ::
    "int \<Rightarrow> state_type \<Rightarrow> nat \<Rightarrow> int \<Rightarrow> os \<Rightarrow> ((int \<times> error_code \<times> string \<times> sockaddr) \<times> os) option" where
  "sync_recvfrom s state len flags w =
     (if s = invalid_socket then Some ((0, bad_descriptor, [], []), w)
      else recvfrom_loop s state len flags w)"

partial_function (option) recvmsg_loop ::
    "int \<Rightarrow> state_type \<Rightarrow> nat \<Rightarrow> int \<Rightarrow> os \<Rightarrow> ((int \<times> error_code \<times> string \<times> int) \<times> os) option" where
  "recvmsg_loop s state len flags w = do {
     ((bytes, ec, data, out_flags), w) \<leftarrow> recvmsg_op s len flags w;
     if 0 \<le> bytes then Some ((bytes, ec, data, out_flags), w)
     else if has_bit state user_set_non_blocking \<or> \<not> blocked ec then Some ((0, ec, data, out_flags), w)
     else do {
       ((ready, ec), w) \<leftarrow> poll_read s 0 (-1) w;
       if ready < 0 then Some ((0, ec, data, out_flags), w) else recvmsg_loop s state len flags w } }"

definition sync_recvmsg ::
    "int \<Rightarrow> state_type \<Rightarrow> nat \<Rightarrow> int \<Rightarrow> os \<Rightarrow> ((int \<times> error_code \<times> string \<times> int) \<times> os) option" where
  "sync_recvmsg s state len in_flags w =
     (if s = invalid_socket then Some ((0, bad_descriptor, [], 0), w)
      else recvmsg_loop s state len in_flags w)"

partial_function (option) send_loop ::
    "int \<Rightarrow> state_type \<Rightarrow> string \<Rightarrow> int \<Rightarrow> os \<Rightarrow> ((int \<times> error_code) \<times> os) option" where
  "send_loop s state data flags w = do {
     ((bytes, ec), w) \<leftarrow> send_op s data flags w;
     if 0 \<le> bytes then Some ((bytes, ec), w)
     else if has_bit state user_set_non_blocking \<or> \<not> blocked ec then Some ((0, ec), w)
     else do {
       ((ready, ec), w) \<leftarrow> poll_write s 0 (-1) w;
       if ready < 0 then Some ((0, ec), w) else send_loop s state data flags w } }"

definition sync_send ::
    "int \<Rightarrow> state_type \<Rightarrow> string \<Rightarrow> int \<Rightarrow> bool \<Rightarrow> os \<Rightarrow> ((int \<times> error_code) \<times> os) option" where
  "sync_send s state data flags all_empty w =
     (if s = invalid_socket then Some ((0, bad_descriptor), w)
      else if all_empty \<and> has_bit state stream_oriented then Some ((0, no_error), w)
      else send_loop s state data flags w)"

partial_function (option) sendto_loop ::
    "int \<Rightarrow> state_type \<Rightarrow> string \<Rightarrow> int \<Rightarrow> sockaddr \<Rightarrow> os \<Rightarrow> ((int \<times> error_code) \<times> os) option" where
  "sendto_loop s state data flags addr w = do {
     ((bytes, ec), w) \<leftarrow> sendto_op s data flags addr w;
     if 0 \<le> bytes then Some ((bytes, ec), w)
     else if has_bit state user_set_non_blocking \<or> \<not> blocked ec then Some ((0, ec), w)
     else do {
       ((ready, ec), w) \<leftarrow> poll_write s 0 (-1) w;
       if ready < 0 then Some ((0, ec), w) else sendto_loop s state data flags addr w } }"

definition sync_sendto ::
    "int \<Rightarrow> state_type \<Rightarrow> string \<Rightarrow> int \<Rightarrow> sockaddr \<Rightarrow> os \<Rightarrow> ((int \<times> error_code) \<times> os) option" where
  "sync_sendto s state data flags addr w =
     (if s = invalid_socket then Some ((0, bad_descriptor), w)
      else sendto_loop s state data flags addr w)"

text \<open>Connections: \<open>accept\<close> also retries when a connection was aborted, unless asked not to.\<close>

partial_function (option) sync_accept ::
    "int \<Rightarrow> state_type \<Rightarrow> os \<Rightarrow> ((int \<times> error_code \<times> sockaddr option) \<times> os) option" where
  "sync_accept s state w = do {
     ((new_socket, ec, addr), w) \<leftarrow> accept_op s w;
     if new_socket \<noteq> invalid_socket then Some ((new_socket, ec, addr), w)
     else if (if blocked ec then has_bit state user_set_non_blocking
              else if ec = connection_aborted \<or> fst ec = EPROTO then has_bit state enable_connection_aborted
              else True)
     then Some ((invalid_socket, ec, addr), w)
     else do {
       ((ready, ec), w) \<leftarrow> poll_read s 0 (-1) w;
       if ready < 0 then Some ((invalid_socket, ec, addr), w) else sync_accept s state w } }"

definition sync_connect :: "int \<Rightarrow> sockaddr \<Rightarrow> os \<Rightarrow> (error_code \<times> os) option" where
  "sync_connect s addr w = do {
     ((_, ec), w) \<leftarrow> connect_op s addr w;
     if ec \<noteq> in_progress \<and> ec \<noteq> would_block then Some (ec, w)
     else do {
       ((ready, ec), w) \<leftarrow> poll_connect s (-1) w;
       if ready < 0 then Some (ec, w)
       else do {
         ((result, ec, value), w) \<leftarrow> getsockopt_op s 0 SOL_SOCKET SO_ERROR 4 w;
         Some (if result = socket_error_retval then ec
               else system_error (case value of None \<Rightarrow> 0 | Some (n, _) \<Rightarrow> n), w) } } }"

subsection \<open>Calls of the reactor\<close>

text \<open>
  Each operation of the reactor tries once: whether it is complete (\<open>False\<close>: to be run
  again), the error and the bytes. Signals are retried at once.
\<close>

partial_function (option) non_blocking_recv ::
    "int \<Rightarrow> nat \<Rightarrow> int \<Rightarrow> bool \<Rightarrow> nat \<Rightarrow> os \<Rightarrow> ((bool \<times> error_code \<times> nat \<times> string) \<times> os) option" where
  "non_blocking_recv s len flags is_stream transferred w = do {
     ((bytes, ec, data), w) \<leftarrow> recv_op s len flags w;
     if is_stream \<and> bytes = 0 then Some ((True, eof, transferred, data), w)
     else if ec = interrupted then non_blocking_recv s len flags is_stream transferred w
     else if blocked ec then Some ((False, ec, transferred, data), w)
     else if 0 \<le> bytes then Some ((True, no_error, nat bytes, data), w)
     else Some ((True, ec, 0, data), w) }"

partial_function (option) non_blocking_recvfrom ::
    "int \<Rightarrow> nat \<Rightarrow> int \<Rightarrow> nat \<Rightarrow> os \<Rightarrow> ((bool \<times> error_code \<times> nat \<times> string \<times> sockaddr) \<times> os) option" where
  "non_blocking_recvfrom s len flags transferred w = do {
     ((bytes, ec, data, addr), w) \<leftarrow> recvfrom_op s len flags w;
     if ec = interrupted then non_blocking_recvfrom s len flags transferred w
     else if blocked ec then Some ((False, ec, transferred, data, addr), w)
     else if 0 \<le> bytes then Some ((True, no_error, nat bytes, data, addr), w)
     else Some ((True, ec, 0, data, addr), w) }"

partial_function (option) non_blocking_recvmsg ::
    "int \<Rightarrow> nat \<Rightarrow> int \<Rightarrow> nat \<Rightarrow> os \<Rightarrow> ((bool \<times> error_code \<times> nat \<times> string \<times> int) \<times> os) option" where
  "non_blocking_recvmsg s len in_flags transferred w = do {
     ((bytes, ec, data, out_flags), w) \<leftarrow> recvmsg_op s len in_flags w;
     if ec = interrupted then non_blocking_recvmsg s len in_flags transferred w
     else if blocked ec then Some ((False, ec, transferred, data, out_flags), w)
     else if 0 \<le> bytes then Some ((True, no_error, nat bytes, data, out_flags), w)
     else Some ((True, ec, 0, data, out_flags), w) }"

partial_function (option) non_blocking_send ::
    "int \<Rightarrow> string \<Rightarrow> int \<Rightarrow> nat \<Rightarrow> os \<Rightarrow> ((bool \<times> error_code \<times> nat) \<times> os) option" where
  "non_blocking_send s data flags transferred w = do {
     ((bytes, ec), w) \<leftarrow> send_op s data flags w;
     if ec = interrupted then non_blocking_send s data flags transferred w
     else if blocked ec then Some ((False, ec, transferred), w)
     else if 0 \<le> bytes then Some ((True, no_error, nat bytes), w)
     else Some ((True, ec, 0), w) }"

partial_function (option) non_blocking_sendto ::
    "int \<Rightarrow> string \<Rightarrow> int \<Rightarrow> sockaddr \<Rightarrow> nat \<Rightarrow> os \<Rightarrow> ((bool \<times> error_code \<times> nat) \<times> os) option" where
  "non_blocking_sendto s data flags addr transferred w = do {
     ((bytes, ec), w) \<leftarrow> sendto_op s data flags addr w;
     if ec = interrupted then non_blocking_sendto s data flags addr transferred w
     else if blocked ec then Some ((False, ec, transferred), w)
     else if 0 \<le> bytes then Some ((True, no_error, nat bytes), w)
     else Some ((True, ec, 0), w) }"

partial_function (option) non_blocking_accept ::
    "int \<Rightarrow> state_type \<Rightarrow> os \<Rightarrow> ((bool \<times> error_code \<times> int \<times> sockaddr option) \<times> os) option" where
  "non_blocking_accept s state w = do {
     ((new_socket, ec, addr), w) \<leftarrow> accept_op s w;
     if new_socket \<noteq> invalid_socket then Some ((True, ec, new_socket, addr), w)
     else if ec = interrupted then non_blocking_accept s state w
     else if blocked ec then Some ((False, ec, new_socket, addr), w)
     else if ec = connection_aborted \<or> fst ec = EPROTO
     then Some ((has_bit state enable_connection_aborted, ec, new_socket, addr), w)
     else Some ((True, ec, new_socket, addr), w) }"

text \<open>\<open>poll\<close> is called directly here; its errors are ignored and the socket's error is read.\<close>

definition non_blocking_connect :: "int \<Rightarrow> error_code \<Rightarrow> os \<Rightarrow> ((bool \<times> error_code) \<times> os) option" where
  "non_blocking_connect s ec w = do {
     (a, w) \<leftarrow> sys (Sys_poll s Pollout 0) w;
     if returned a = 0 then Some ((False, ec), w)
     else do {
       ((result, ec, value), w) \<leftarrow> getsockopt_op s 0 SOL_SOCKET SO_ERROR 4 w;
       Some ((True,
         if result = 0 then (case value of Some (n, _) \<Rightarrow> if n \<noteq> 0 then system_error n else no_error
                                         | None \<Rightarrow> no_error)
         else ec), w) } }"

subsection \<open>Loops that wait\<close>

text \<open>
  The shape of the blocking calls: an attempt, a decision whether to return, a wait, again.
  Whatever they do in between, such a loop returns what the first decided attempt gave, and
  gets there if every wait before it ends.
\<close>

lemma sys_answers: "sys c w = Some (a, w') \<Longrightarrow> length (answers w') < length (answers w)"
  by (auto simp: sys_def split: list.splits)

lemma sys_Cons [simp]: "answers w = a # as \<Longrightarrow> sys c w = Some (a, w\<lparr>answers := as, syscalls := syscalls w @ [c]\<rparr>)"
  by (simp add: sys_def)

locale retry_loop =
  fixes loop :: "os \<Rightarrow> ('r \<times> os) option" and attempt :: "os \<Rightarrow> ('a \<times> os) option"
    and decide :: "'a \<Rightarrow> 'r option" and wait :: "os \<Rightarrow> ((int \<times> error_code) \<times> os) option"
    and gave_up :: "'a \<Rightarrow> error_code \<Rightarrow> 'r"
  assumes unfold: "loop w = do {
      (a, w) \<leftarrow> attempt w;
      case decide a of
        Some r \<Rightarrow> Some (r, w)
      | None \<Rightarrow> do {
          ((ready, ec), w) \<leftarrow> wait w;
          if ready < 0 then Some (gave_up a ec, w) else loop w } }"
    and attempt_less: "attempt w = Some (a, w') \<Longrightarrow> decide a = None \<Longrightarrow>
      length (answers w') < length (answers w)"
    and wait_le: "wait w = Some (p, w') \<Longrightarrow> length (answers w') \<le> length (answers w)"
begin

inductive spurious :: "os \<Rightarrow> os \<Rightarrow> bool" where
  none: "spurious w w"
| round: "attempt w = Some (a, w1) \<Longrightarrow> decide a = None \<Longrightarrow> wait w1 = Some ((ready, ec), w2) \<Longrightarrow>
    0 \<le> ready \<Longrightarrow> spurious w2 w' \<Longrightarrow> spurious w w'"

lemma spurious_loop: "spurious w w' \<Longrightarrow> loop w = loop w'"
proof (induction rule: spurious.induct)
  case (round w a w1 ready ec w2 w')
  then show ?case by (subst unfold) simp
qed simp

lemma returns:
  assumes "spurious w w0" and "attempt w0 = Some (a, w')" and "decide a = Some r"
  shows "loop w = Some (r, w')"
  unfolding spurious_loop [OF assms(1)] by (subst unfold) (simp add: assms)

lemma gives_up:
  assumes "spurious w w0" and "attempt w0 = Some (a, w1)" and "decide a = None"
    and "wait w1 = Some ((ready, ec), w')" and "ready < 0"
  shows "loop w = Some (gave_up a ec, w')"
  unfolding spurious_loop [OF assms(1)] by (subst unfold) (simp add: assms)

text \<open>There is no other way to return.\<close>

lemma outcome:
  "loop w = Some (r, w') \<Longrightarrow> \<exists>w0 a w1. spurious w w0 \<and> attempt w0 = Some (a, w1) \<and>
     (decide a = Some r \<and> w' = w1 \<or>
      (\<exists>ready ec. decide a = None \<and> wait w1 = Some ((ready, ec), w') \<and> ready < 0 \<and> r = gave_up a ec))"
proof (induction "length (answers w)" arbitrary: w rule: less_induct)
  case less
  then obtain a w1 where a: "attempt w = Some (a, w1)"
    by (subst (asm) (2) unfold) (auto split: Option.bind_splits)
  show ?case
  proof (cases "decide a")
    case (Some r')
    then have "r' = r" "w' = w1" using less.prems a by (auto simp: unfold [of w])
    then show ?thesis using a Some spurious.none by blast
  next
    case None
    then obtain ready ec w2 where w: "wait w1 = Some ((ready, ec), w2)"
      using less.prems a by (auto simp: unfold [of w] split: Option.bind_splits)
    show ?thesis
    proof (cases "ready < 0")
      case True
      then have "r = gave_up a ec" "w' = w2" using less.prems a None w by (auto simp: unfold [of w])
      then show ?thesis using a None w True spurious.none by blast
    next
      case False
      then have "loop w2 = Some (r, w')" using less.prems a None w by (simp add: unfold [of w])
      moreover have "length (answers w2) < length (answers w)"
        using attempt_less [OF a None] wait_le [OF w] by simp
      moreover have "spurious w w0" if "spurious w2 w0" for w0
        using spurious.round [OF a None w _ that] False by simp
      ultimately show ?thesis using less.hyps by blast
    qed
  qed
qed

end

text \<open>With one system call per attempt and per wait the spurious rounds can be listed.\<close>

locale retry_syscall = retry_loop loop attempt decide wait gave_up
  for loop :: "os \<Rightarrow> ('r \<times> os) option" and attempt :: "os \<Rightarrow> ('a \<times> os) option" and decide wait gave_up +
  fixes usable :: bool and call wait_call :: syscall and view :: "answer \<Rightarrow> 'a"
    and wait_ec :: "answer \<Rightarrow> error_code"
  assumes attempt_call: "answers w = a # as \<Longrightarrow>
      attempt w = Some (view a, w\<lparr>answers := as, syscalls := syscalls w @ [call]\<rparr>)"
    and wait_call: "usable \<Longrightarrow> answers w = a # as \<Longrightarrow>
      wait w = Some ((returned a, wait_ec a), w\<lparr>answers := as, syscalls := syscalls w @ [wait_call]\<rparr>)"
begin

lemma busy_rounds:
  assumes "usable" and "\<And>b p. (b, p) \<in> set rounds \<Longrightarrow> decide (view b) = None \<and> 0 \<le> returned p"
    and "answers w = concat (map (\<lambda>(b, p). [b, p]) rounds) @ rst"
  shows "spurious w (w\<lparr>answers := rst,
    syscalls := syscalls w @ concat (replicate (length rounds) [call, wait_call])\<rparr>)"
  using assms(2,3)
proof (induction rounds arbitrary: w)
  case Nil
  then have "w\<lparr>answers := rst, syscalls := syscalls w\<rparr> = w" by simp
  then show ?case using spurious.none [of w] by simp
next
  case (Cons bp rounds)
  obtain b p where bp: "bp = (b, p)" by (cases bp)
  let ?as = "concat (map (\<lambda>(b, p). [b, p]) rounds) @ rst"
  let ?w1 = "w\<lparr>answers := p # ?as, syscalls := syscalls w @ [call]\<rparr>"
  let ?w2 = "w\<lparr>answers := ?as, syscalls := syscalls w @ [call, wait_call]\<rparr>"
  have "attempt w = Some (view b, ?w1)" using attempt_call [of w b "p # ?as"] Cons.prems(2) by (simp add: bp)
  moreover have "wait ?w1 = Some ((returned p, wait_ec p), ?w2)"
    using wait_call [OF assms(1), of ?w1 p ?as] by simp
  moreover have "decide (view b) = None" "0 \<le> returned p" using Cons.prems(1) [of b p] by (simp_all add: bp)
  moreover have "spurious ?w2 (w\<lparr>answers := rst,
      syscalls := syscalls w @ concat (replicate (length (bp # rounds)) [call, wait_call])\<rparr>)"
    using Cons.IH [OF Cons.prems(1), of ?w2] by simp
  ultimately show ?case using spurious.round by blast
qed

lemma returns_after:
  assumes "usable" and "\<And>b p. (b, p) \<in> set rounds \<Longrightarrow> decide (view b) = None \<and> 0 \<le> returned p"
    and "answers w = concat (map (\<lambda>(b, p). [b, p]) rounds) @ a # rst" and "decide (view a) = Some r"
  shows "loop w = Some (r, w\<lparr>answers := rst,
    syscalls := syscalls w @ concat (replicate (length rounds) [call, wait_call]) @ [call]\<rparr>)"
  by (rule returns [OF busy_rounds [OF assms(1,2,3)] _ assms(4)])
    (simp_all add: attempt_call [where as = rst])

end

text \<open>What the attempts decide.\<close>

definition transfer_done :: "state_type \<Rightarrow> int \<Rightarrow> error_code \<Rightarrow> bool" where
  "transfer_done state bytes ec \<longleftrightarrow> 0 \<le> bytes \<or> has_bit state user_set_non_blocking \<or> \<not> blocked ec"

definition send_decide :: "state_type \<Rightarrow> int \<times> error_code \<Rightarrow> (int \<times> error_code) option" where
  "send_decide state = (\<lambda>(bytes, ec). if transfer_done state bytes ec then Some (max 0 bytes, ec) else None)"

definition recv_decide :: "state_type \<Rightarrow> int \<times> error_code \<times> 'd \<Rightarrow> (int \<times> error_code \<times> 'd) option" where
  "recv_decide state =
     (\<lambda>(bytes, ec, d). if transfer_done state bytes ec then Some (max 0 bytes, ec, d) else None)"

definition stream_decide :: "state_type \<Rightarrow> int \<times> error_code \<times> string \<Rightarrow> (int \<times> error_code \<times> string) option" where
  "stream_decide state =
     (\<lambda>(bytes, ec, d).
        if 0 < bytes then Some (bytes, ec, d)
        else if has_bit state stream_oriented \<and> bytes = 0 then Some (0, eof, d)
        else if has_bit state user_set_non_blocking \<or> \<not> blocked ec then Some (0, ec, d)
        else None)"

lemma poll_answers: "poll_op ev s state msec w = Some (p, w') \<Longrightarrow> length (answers w') \<le> length (answers w)"
  by (auto simp: poll_op_def Let_def error_wrapper_def split: if_splits Option.bind_splits dest: sys_answers)

lemma accept_answers:
  "s \<noteq> invalid_socket \<Longrightarrow> accept_op s w = Some (r, w') \<Longrightarrow> length (answers w') < length (answers w)"
  by (auto simp: accept_op_def call_once_def Let_def error_wrapper_def split: Option.bind_splits dest: sys_answers)

lemma poll_forever:
  "s \<noteq> invalid_socket \<Longrightarrow> answers w = a # as \<Longrightarrow> poll_op ev s 0 (-1) w =
     Some ((returned a, if 0 \<le> returned a then no_error else system_error (errno a)),
       w\<lparr>answers := as, syscalls := syscalls w @ [Sys_poll s ev (-1)]\<rparr>)"
  by (simp add: poll_op_def has_bit_def error_wrapper_def Let_def)

lemmas transfer_defs = recv_op_def recvfrom_op_def recvmsg_op_def send_op_def sendto_op_def
  poll_read_def poll_write_def Let_def error_wrapper_def send_decide_def recv_decide_def transfer_done_def

lemma transfer_answers:
  "recv_op s len flags w = Some (r1, w') \<Longrightarrow> length (answers w') < length (answers w)"
  "recvfrom_op s len flags w = Some (r2, w') \<Longrightarrow> length (answers w') < length (answers w)"
  "recvmsg_op s len flags w = Some (r3, w') \<Longrightarrow> length (answers w') < length (answers w)"
  "send_op s data flags w = Some (r4, w') \<Longrightarrow> length (answers w') < length (answers w)"
  "sendto_op s data flags addr w = Some (r5, w') \<Longrightarrow> length (answers w') < length (answers w)"
  by (auto simp: transfer_defs split: Option.bind_splits if_splits dest: sys_answers)

text \<open>What a transfer makes of an answer.\<close>

definition poll_ec :: "answer \<Rightarrow> error_code" where
  "poll_ec a = (if 0 \<le> returned a then no_error else system_error (errno a))"

definition view_sent :: "answer \<Rightarrow> int \<times> error_code" where
  "view_sent a = (returned a, poll_ec a)"

definition view_received :: "answer \<Rightarrow> int \<times> error_code \<times> string" where
  "view_received a = (returned a, poll_ec a, wrote_data a)"

definition view_received_from :: "answer \<Rightarrow> int \<times> error_code \<times> string \<times> sockaddr" where
  "view_received_from a = (returned a, poll_ec a, wrote_data a, wrote_addr a)"

definition view_message :: "answer \<Rightarrow> int \<times> error_code \<times> string \<times> int" where
  "view_message a = (returned a, poll_ec a, wrote_data a, if 0 \<le> returned a then wrote_flags a else 0)"

lemmas transfer_views = view_sent_def view_received_def view_received_from_def view_message_def poll_ec_def

lemmas transfer_decides = send_decide_def recv_decide_def stream_decide_def transfer_done_def

interpretation sendto: retry_syscall "sendto_loop s state data flags addr" "sendto_op s data flags addr"
  "send_decide state" "poll_write s 0 (-1)" "\<lambda>_ ec. (0, ec)" "s \<noteq> invalid_socket"
  "Sys_sendmsg s data (flags OR MSG_NOSIGNAL) (Some addr)" "Sys_poll s Pollout (-1)" view_sent
  poll_ec for s state data flags addr
proof
  show "sendto_loop s state data flags addr w = do {
      (a, w) \<leftarrow> sendto_op s data flags addr w;
      case send_decide state a of
        Some r \<Rightarrow> Some (r, w)
      | None \<Rightarrow> do {
          ((ready, ec), w) \<leftarrow> poll_write s 0 (-1) w;
          if ready < 0 then Some ((\<lambda>_ ec. (0, ec)) a ec, w) else sendto_loop s state data flags addr w } }" for w
    by (subst sendto_loop.simps)
      (auto simp: transfer_decides intro!: Option.bind_cong split: option.splits)
  show "length (answers w') < length (answers w)" if "sendto_op s data flags addr w = Some (r, w')" "send_decide state r = None"
    for w r w'
    using that(1) by (rule transfer_answers)
qed (auto simp: transfer_defs transfer_views poll_forever dest: poll_answers)

interpretation send: retry_syscall "send_loop s state data flags" "send_op s data flags"
  "send_decide state" "poll_write s 0 (-1)" "\<lambda>_ ec. (0, ec)" "s \<noteq> invalid_socket"
  "Sys_sendmsg s data (flags OR MSG_NOSIGNAL) None" "Sys_poll s Pollout (-1)" view_sent
  poll_ec for s state data flags
proof
  show "send_loop s state data flags w = do {
      (a, w) \<leftarrow> send_op s data flags w;
      case send_decide state a of
        Some r \<Rightarrow> Some (r, w)
      | None \<Rightarrow> do {
          ((ready, ec), w) \<leftarrow> poll_write s 0 (-1) w;
          if ready < 0 then Some ((\<lambda>_ ec. (0, ec)) a ec, w) else send_loop s state data flags w } }" for w
    by (subst send_loop.simps)
      (auto simp: transfer_decides intro!: Option.bind_cong split: option.splits)
  show "length (answers w') < length (answers w)" if "send_op s data flags w = Some (r, w')" "send_decide state r = None"
    for w r w'
    using that(1) by (rule transfer_answers)
qed (auto simp: transfer_defs transfer_views poll_forever dest: poll_answers)

interpretation recvfrom: retry_syscall "recvfrom_loop s state len flags" "recvfrom_op s len flags"
  "recv_decide state" "poll_read s 0 (-1)" "\<lambda>(_, _, d) ec. (0, ec, d)" "s \<noteq> invalid_socket"
  "Sys_recvmsg s len flags True" "Sys_poll s Pollin (-1)" view_received_from
  poll_ec for s state len flags
proof
  show "recvfrom_loop s state len flags w = do {
      (a, w) \<leftarrow> recvfrom_op s len flags w;
      case recv_decide state a of
        Some r \<Rightarrow> Some (r, w)
      | None \<Rightarrow> do {
          ((ready, ec), w) \<leftarrow> poll_read s 0 (-1) w;
          if ready < 0 then Some ((\<lambda>(_, _, d) ec. (0, ec, d)) a ec, w) else recvfrom_loop s state len flags w } }" for w
    by (subst recvfrom_loop.simps)
      (auto simp: transfer_decides intro!: Option.bind_cong split: option.splits)
  show "length (answers w') < length (answers w)" if "recvfrom_op s len flags w = Some (r, w')" "recv_decide state r = None"
    for w r w'
    using that(1) by (rule transfer_answers)
qed (auto simp: transfer_defs transfer_views poll_forever dest: poll_answers)

interpretation recvmsg: retry_syscall "recvmsg_loop s state len flags" "recvmsg_op s len flags"
  "recv_decide state" "poll_read s 0 (-1)" "\<lambda>(_, _, d) ec. (0, ec, d)" "s \<noteq> invalid_socket"
  "Sys_recvmsg s len flags False" "Sys_poll s Pollin (-1)" view_message
  poll_ec for s state len flags
proof
  show "recvmsg_loop s state len flags w = do {
      (a, w) \<leftarrow> recvmsg_op s len flags w;
      case recv_decide state a of
        Some r \<Rightarrow> Some (r, w)
      | None \<Rightarrow> do {
          ((ready, ec), w) \<leftarrow> poll_read s 0 (-1) w;
          if ready < 0 then Some ((\<lambda>(_, _, d) ec. (0, ec, d)) a ec, w) else recvmsg_loop s state len flags w } }" for w
    by (subst recvmsg_loop.simps)
      (auto simp: transfer_decides intro!: Option.bind_cong split: option.splits)
  show "length (answers w') < length (answers w)" if "recvmsg_op s len flags w = Some (r, w')" "recv_decide state r = None"
    for w r w'
    using that(1) by (rule transfer_answers)
qed (auto simp: transfer_defs transfer_views poll_forever dest: poll_answers)

interpretation recv: retry_syscall "recv_loop s state len flags" "recv_op s len flags"
  "stream_decide state" "poll_read s 0 (-1)" "\<lambda>(_, _, d) ec. (0, ec, d)" "s \<noteq> invalid_socket"
  "Sys_recvmsg s len flags False" "Sys_poll s Pollin (-1)" view_received
  poll_ec for s state len flags
proof
  show "recv_loop s state len flags w = do {
      (a, w) \<leftarrow> recv_op s len flags w;
      case stream_decide state a of
        Some r \<Rightarrow> Some (r, w)
      | None \<Rightarrow> do {
          ((ready, ec), w) \<leftarrow> poll_read s 0 (-1) w;
          if ready < 0 then Some ((\<lambda>(_, _, d) ec. (0, ec, d)) a ec, w) else recv_loop s state len flags w } }" for w
    by (subst recv_loop.simps)
      (auto simp: transfer_decides intro!: Option.bind_cong split: option.splits)
  show "length (answers w') < length (answers w)" if "recv_op s len flags w = Some (r, w')" "stream_decide state r = None"
    for w r w'
    using that(1) by (rule transfer_answers)
qed (auto simp: transfer_defs transfer_views poll_forever dest: poll_answers)

definition accept_decide ::
    "state_type \<Rightarrow> int \<times> error_code \<times> sockaddr option \<Rightarrow> (int \<times> error_code \<times> sockaddr option) option" where
  "accept_decide state = (\<lambda>(new_socket, ec, addr).
     if new_socket \<noteq> invalid_socket then Some (new_socket, ec, addr)
     else if (if blocked ec then has_bit state user_set_non_blocking
              else if ec = connection_aborted \<or> fst ec = EPROTO then has_bit state enable_connection_aborted
              else True)
     then Some (invalid_socket, ec, addr) else None)"

interpretation accept: retry_loop "sync_accept s state" "accept_op s" "accept_decide state"
  "poll_read s 0 (-1)" "\<lambda>(_, _, addr) ec. (invalid_socket, ec, addr)" for s state
proof
  show "sync_accept s state w = do {
      (a, w) \<leftarrow> accept_op s w;
      case accept_decide state a of
        Some r \<Rightarrow> Some (r, w)
      | None \<Rightarrow> do {
          ((ready, ec), w) \<leftarrow> poll_read s 0 (-1) w;
          if ready < 0 then Some ((\<lambda>(_, _, addr) ec. (invalid_socket, ec, addr)) a ec, w)
          else sync_accept s state w } }" for w
    by (subst sync_accept.simps) (auto simp: accept_decide_def intro!: Option.bind_cong split: option.splits)
  show "length (answers w') < length (answers w)"
    if "accept_op s w = Some (r, w')" "accept_decide state r = None" for w r w'
  proof (rule accept_answers [OF _ that(1)])
    show "s \<noteq> invalid_socket"
    proof
      assume "s = invalid_socket"
      then have "r = (socket_error_retval, bad_descriptor, None)" using that(1) by (simp add: accept_op_def call_once_def)
      then show False using that(2)
        by (simp add: accept_decide_def socket_error_retval_def invalid_socket_def blocked_def error_defs EPROTO_def)
    qed
  qed
qed (auto simp: poll_read_def dest: poll_answers)

text \<open>A round of an attempt that would block and a wait that ends; the answers and calls of some.\<close>

definition busy :: "answer \<times> answer \<Rightarrow> bool" where
  "busy = (\<lambda>(attempt, ready). returned attempt < 0 \<and> errno attempt = 11 \<and> 0 \<le> returned ready)"

definition answers_of :: "(answer \<times> answer) list \<Rightarrow> answer list" where
  "answers_of rounds = concat (map (\<lambda>(b, p). [b, p]) rounds)"

definition calls_of :: "nat \<Rightarrow> syscall \<Rightarrow> syscall \<Rightarrow> syscall list" where
  "calls_of n call wait = concat (replicate n [call, wait]) @ [call]"

text \<open>
  C34. A send or receive on a socket that the program has not made non-blocking waits, through
  any number of attempts that would block and of waits that end without anything to do, and
  then returns what the first other attempt says: its bytes and data, or 0 bytes and its
  error, which is never that the call would block. One attempt is made per readiness.
\<close>

theorem blocking_calls_return:
  assumes "s \<noteq> -1" and "\<not> has_bit state user_set_non_blocking" and "list_all busy rounds"
    and "0 \<le> returned a \<or> errno a \<noteq> 11"
    and "answers w = answers_of rounds @ a # rst"
  defines "ec \<equiv> (if 0 \<le> returned a then no_error else system_error (errno a))"
    and "after \<equiv> (\<lambda>call wait. w\<lparr>answers := rst, syscalls := syscalls w @ calls_of (length rounds) call wait\<rparr>)"
  shows "sync_sendto s state data flags addr w =
      Some ((max 0 (returned a), ec),
        after (Sys_sendmsg s data (flags OR MSG_NOSIGNAL) (Some addr)) (Sys_poll s Pollout (-1))) \<and>
    sync_recvfrom s state len flags w =
      Some ((max 0 (returned a), ec, wrote_data a, wrote_addr a),
        after (Sys_recvmsg s len flags True) (Sys_poll s Pollin (-1)))"
proof -
  have s: "s \<noteq> invalid_socket" using assms(1) by (simp add: invalid_socket_def)
  have busy: "returned b < 0 \<and> errno b = 11 \<and> 0 \<le> returned p" if "(b, p) \<in> set rounds" for b p
    using assms(3) that by (auto simp: list_all_iff busy_def)
  have decide: "send_decide state (view_sent b) = None \<and> 0 \<le> returned p"
    "recv_decide state (view_received_from b) = None \<and> 0 \<le> returned p" if "(b, p) \<in> set rounds" for b p
    using busy [OF that] assms(2) by (simp_all add: transfer_decides transfer_views blocked_def error_defs)
  have "send_decide state (view_sent a) = Some (max 0 (returned a), ec)"
    "recv_decide state (view_received_from a) = Some (max 0 (returned a), ec, wrote_data a, wrote_addr a)"
    using assms(4) by (auto simp: transfer_decides transfer_views blocked_def error_defs ec_def)
  then show ?thesis
    using sendto.returns_after [OF s decide(1) assms(5) [unfolded answers_of_def]]
      recvfrom.returns_after [OF s decide(2) assms(5) [unfolded answers_of_def]] s
    by (simp add: sync_sendto_def sync_recvfrom_def after_def calls_of_def)
qed

definition demo_answer :: "int \<Rightarrow> int \<Rightarrow> string \<Rightarrow> answer" where
  "demo_answer r e d = \<lparr>returned = r, errno = e, wrote_data = d, wrote_addr = [], wrote_flags = 0,
     wrote_value = 0, wrote_size = 0\<rparr>"

theorem blocking_calls_return_witness:
  "\<exists>w. answers w = [demo_answer (-1) 11 [], demo_answer 1 0 [], demo_answer 2 0 ''ok''] \<and>
     (\<exists>w'. sync_sendto 3 datagram_oriented ''hi'' 0 [] w = Some ((2, no_error), w') \<and> answers w' = []) \<and>
     (\<exists>w'. sync_recvfrom 3 datagram_oriented 10 0 w = Some ((2, no_error, ''ok'', []), w') \<and>
        syscalls w' = [Sys_recvmsg 3 10 0 True, Sys_poll 3 Pollin (-1), Sys_recvmsg 3 10 0 True])"
proof (intro exI conjI)
  let ?w = "\<lparr>answers = [demo_answer (-1) 11 [], demo_answer 1 0 [], demo_answer 2 0 ''ok''], syscalls = []\<rparr>"
  show "answers ?w = [demo_answer (-1) 11 [], demo_answer 1 0 [], demo_answer 2 0 ''ok'']" by simp
  have h: "(3 :: int) \<noteq> -1" "\<not> has_bit datagram_oriented user_set_non_blocking"
    "list_all busy [(demo_answer (-1) 11 [], demo_answer 1 0 [])]"
    "0 \<le> returned (demo_answer 2 0 ''ok'') \<or> errno (demo_answer 2 0 ''ok'') \<noteq> 11"
    "answers ?w = answers_of [(demo_answer (-1) 11 [], demo_answer 1 0 [])] @ demo_answer 2 0 ''ok'' # []"
    by (simp_all add: has_bit_def datagram_oriented_def user_set_non_blocking_def busy_def demo_answer_def
        answers_of_def)
  note r = blocking_calls_return [OF h, of "''hi''" 0 "[]" 10]
  show "sync_sendto 3 datagram_oriented ''hi'' 0 [] ?w = Some ((2, no_error),
      ?w\<lparr>answers := [], syscalls := calls_of 1 (Sys_sendmsg 3 ''hi'' (0 OR MSG_NOSIGNAL) (Some []))
        (Sys_poll 3 Pollout (-1))\<rparr>)"
    using r by (simp add: demo_answer_def)
  show "sync_recvfrom 3 datagram_oriented 10 0 ?w = Some ((2, no_error, ''ok'', []),
      ?w\<lparr>answers := [], syscalls := calls_of 1 (Sys_recvmsg 3 10 0 True) (Sys_poll 3 Pollin (-1))\<rparr>)"
    using r by (simp add: demo_answer_def)
qed (simp_all add: calls_of_def)

end
