(* ===== verification/OpQueue.thy ===== *)
theory OpQueue
  imports Prelude "HOL-Library.Monad_Syntax"
begin

section \<open>Queues of operations (lib/asio, detail/op_queue.hpp)\<close>

text \<open>
  The queues that the reactor and the scheduler pass operations through are intrusive: an
  operation holds the pointer to the next one itself, and a queue is a pair of pointers to
  its ends. The model keeps the pointers, for any number of queues over the same operations.
  The second half shows that sequences of calls behave as they would on lists, as long as an
  operation is in one queue at a time; the reactor and the scheduler are modelled with lists.
\<close>

record op_queues =
  next_op :: "nat \<Rightarrow> nat option"
  front_op :: "nat \<Rightarrow> nat option"
  back_op :: "nat \<Rightarrow> nat option"

definition queues_empty :: op_queues where
  "queues_empty = \<lparr>next_op = (\<lambda>_. None), front_op = (\<lambda>_. None), back_op = (\<lambda>_. None)\<rparr>"

definition queue_front :: "nat \<Rightarrow> op_queues \<Rightarrow> nat option" where
  "queue_front q s = front_op s q"

definition queue_pop :: "nat \<Rightarrow> op_queues \<Rightarrow> op_queues" where
  "queue_pop q s = (case front_op s q of
     None \<Rightarrow> s
   | Some tmp \<Rightarrow>
       let s = s\<lparr>front_op := (front_op s)(q := next_op s tmp)\<rparr>;
           s = (if front_op s q = None then s\<lparr>back_op := (back_op s)(q := None)\<rparr> else s)
       in s\<lparr>next_op := (next_op s)(tmp := None)\<rparr>)"

definition queue_push :: "nat \<Rightarrow> nat \<Rightarrow> op_queues \<Rightarrow> op_queues" where
  "queue_push q h s =
     (let s = s\<lparr>next_op := (next_op s)(h := None)\<rparr> in
      case back_op s q of
        Some b \<Rightarrow> s\<lparr>next_op := (next_op s)(b := Some h), back_op := (back_op s)(q := Some h)\<rparr>
      | None \<Rightarrow> s\<lparr>front_op := (front_op s)(q := Some h), back_op := (back_op s)(q := Some h)\<rparr>)"

text \<open>All operations of another queue.\<close>

definition queue_push_all :: "nat \<Rightarrow> nat \<Rightarrow> op_queues \<Rightarrow> op_queues" where
  "queue_push_all q other s = (case front_op s other of
     None \<Rightarrow> s
   | Some other_front \<Rightarrow>
       let s = (case back_op s q of
             Some b \<Rightarrow> s\<lparr>next_op := (next_op s)(b := Some other_front)\<rparr>
           | None \<Rightarrow> s\<lparr>front_op := (front_op s)(q := Some other_front)\<rparr>);
           s = s\<lparr>back_op := (back_op s)(q := back_op s other)\<rparr>;
           s = s\<lparr>front_op := (front_op s)(other := None)\<rparr>
       in s\<lparr>back_op := (back_op s)(other := None)\<rparr>)"

definition queue_empty :: "nat \<Rightarrow> op_queues \<Rightarrow> bool" where
  "queue_empty q s \<longleftrightarrow> front_op s q = None"

definition queue_is_enqueued :: "nat \<Rightarrow> nat \<Rightarrow> op_queues \<Rightarrow> bool" where
  "queue_is_enqueued q h s \<longleftrightarrow> next_op s h \<noteq> None \<or> back_op s q = Some h"

text \<open>The destructor, with the operations it destroys. It only ends if the links do.\<close>

partial_function (option) queue_destroy :: "nat \<Rightarrow> op_queues \<Rightarrow> (nat list \<times> op_queues) option" where
  "queue_destroy q s = (case front_op s q of
     None \<Rightarrow> Some ([], s)
   | Some h \<Rightarrow> do {
       (hs, s) \<leftarrow> queue_destroy q (queue_pop q s);
       Some (h # hs, s) })"

subsection \<open>Calls and what they do to lists\<close>

datatype queue_call =
    Push_op nat nat
  | Push_all nat nat
  | Pop_op nat
  | Front_op nat
  | Is_empty nat
  | Is_enqueued nat nat
  | Destroy nat

datatype queue_result = Nothing | Op "nat option" | Flag bool | Destroyed "nat list"

fun exec_call :: "queue_call \<Rightarrow> op_queues \<Rightarrow> (queue_result \<times> op_queues) option" where
  "exec_call (Push_op q h) s = Some (Nothing, queue_push q h s)"
| "exec_call (Push_all q r) s = Some (Nothing, queue_push_all q r s)"
| "exec_call (Pop_op q) s = Some (Nothing, queue_pop q s)"
| "exec_call (Front_op q) s = Some (Op (queue_front q s), s)"
| "exec_call (Is_empty q) s = Some (Flag (queue_empty q s), s)"
| "exec_call (Is_enqueued q h) s = Some (Flag (queue_is_enqueued q h s), s)"
| "exec_call (Destroy q) s = map_option (apfst Destroyed) (queue_destroy q s)"

fun list_call :: "queue_call \<Rightarrow> (nat \<Rightarrow> nat list) \<Rightarrow> queue_result \<times> (nat \<Rightarrow> nat list)" where
  "list_call (Push_op q h) Q = (Nothing, Q(q := Q q @ [h]))"
| "list_call (Push_all q r) Q = (Nothing, Q(q := Q q @ Q r, r := []))"
| "list_call (Pop_op q) Q = (Nothing, Q(q := tl (Q q)))"
| "list_call (Front_op q) Q = (Op (case Q q of [] \<Rightarrow> None | h # _ \<Rightarrow> Some h), Q)"
| "list_call (Is_empty q) Q = (Flag (Q q = []), Q)"
| "list_call (Is_enqueued q h) Q = (Flag (h \<in> set (Q q)), Q)"
| "list_call (Destroy q) Q = (Destroyed (Q q), Q(q := []))"

text \<open>
  What a caller must keep to: push what is in no queue, do not append a queue to itself, and
  do not ask one queue for an operation that is in another.
\<close>

fun call_ok :: "queue_call \<Rightarrow> (nat \<Rightarrow> nat list) \<Rightarrow> bool" where
  "call_ok (Push_op q h) Q \<longleftrightarrow> (\<forall>r. h \<notin> set (Q r))"
| "call_ok (Push_all q r) Q \<longleftrightarrow> q \<noteq> r"
| "call_ok (Is_enqueued q h) Q \<longleftrightarrow> (\<forall>r. r \<noteq> q \<longrightarrow> h \<notin> set (Q r))"
| "call_ok _ Q \<longleftrightarrow> True"

subsection \<open>Paths\<close>

primrec path :: "('a \<Rightarrow> 'a option) \<Rightarrow> 'a option \<Rightarrow> 'a list \<Rightarrow> 'a option \<Rightarrow> bool" where
  "path l p [] z \<longleftrightarrow> p = z"
| "path l p (x # xs) z \<longleftrightarrow> p = Some x \<and> path l (l x) xs z"

lemma path_append [simp]: "path l p (xs @ ys) z \<longleftrightarrow> (\<exists>m. path l p xs m \<and> path l m ys z)"
  by (induction xs arbitrary: p) auto

lemma path_frame: "u \<notin> set xs \<Longrightarrow> path (l(u := v)) p xs z = path l p xs z"
  by (induction xs arbitrary: p) auto

lemma path_None_start: "path l None xs None \<longleftrightarrow> xs = []"
  by (cases xs) auto

lemma path_relink:
  "path l p xs z \<Longrightarrow> xs \<noteq> [] \<Longrightarrow> distinct xs \<Longrightarrow> path (l(last xs := y)) p xs y"
proof (induction xs arbitrary: p)
  case (Cons x xs)
  then show ?case by (cases "xs = []") auto
qed simp

definition last_op :: "'a list \<Rightarrow> 'a option" where
  "last_op xs = (if xs = [] then None else Some (last xs))"

lemma last_op_simps [simp]:
  "last_op [] = None" "last_op [x] = Some x" "last_op (xs @ [x]) = Some x" "last_op xs = None \<longleftrightarrow> xs = []"
  "last_op xs = Some x \<longleftrightarrow> xs \<noteq> [] \<and> last xs = x"
  by (auto simp: last_op_def)

lemma last_op_append: "ys \<noteq> [] \<Longrightarrow> last_op (xs @ ys) = last_op ys"
  by (simp add: last_op_def)

text \<open>An operation of a path links to nothing only at its end.\<close>

lemma path_links: "path l p xs None \<Longrightarrow> h \<in> set xs \<Longrightarrow> l h = None \<Longrightarrow> last_op xs = Some h"
  by (induction xs arbitrary: p) (auto simp: path_None_start)

subsection \<open>Pointers that represent lists\<close>

text \<open>Lists of which no two share an operation, and what is in any of them.\<close>

definition separate :: "('q \<Rightarrow> 'a list) \<Rightarrow> bool" where
  "separate Q \<longleftrightarrow> (\<forall>q. distinct (Q q)) \<and> (\<forall>q r h. h \<in> set (Q q) \<longrightarrow> h \<in> set (Q r) \<longrightarrow> q = r)"

definition queued :: "('q \<Rightarrow> 'a list) \<Rightarrow> 'a set" where
  "queued Q = (\<Union>q. set (Q q))"

lemma separateD:
  "separate Q \<Longrightarrow> distinct (Q q)" "separate Q \<Longrightarrow> h \<in> set (Q q) \<Longrightarrow> q \<noteq> r \<Longrightarrow> h \<notin> set (Q r)"
  by (auto simp: separate_def)

lemma separate_push: "separate Q \<Longrightarrow> h \<notin> queued Q \<Longrightarrow> separate (Q(q := Q q @ [h]))"
  by (auto simp: separate_def queued_def)

lemma separate_tl: "separate Q \<Longrightarrow> separate (Q(q := tl (Q q)))"
proof -
  have "h \<in> set (tl (Q q)) \<Longrightarrow> h \<in> set (Q q)" for h by (cases "Q q") auto
  then show "separate Q \<Longrightarrow> separate (Q(q := tl (Q q)))" unfolding separate_def by (simp add: distinct_tl) metis
qed

lemma separate_push_all: "separate Q \<Longrightarrow> q \<noteq> r \<Longrightarrow> separate (Q(q := Q q @ Q r, r := []))"
  by (auto simp: separate_def)

lemma queued_push [simp]: "queued (Q(q := Q q @ [h])) = insert h (queued Q)"
  by (auto simp: queued_def split: if_splits)

lemma queued_push_all [simp]: "q \<noteq> r \<Longrightarrow> queued (Q(q := Q q @ Q r, r := [])) = queued Q"
  by (rule set_eqI, simp add: queued_def) metis

lemma queued_pop: "separate Q \<Longrightarrow> Q q = h # hs \<Longrightarrow> queued (Q(q := hs)) = queued Q - {h}"
proof -
  assume s: "separate Q" and q: "Q q = h # hs"
  have "x \<in> queued (Q(q := hs)) \<longleftrightarrow> x \<noteq> h \<and> x \<in> queued Q" for x
  proof -
    have "(\<exists>r. x \<in> set (Q r)) \<longleftrightarrow> x = h \<or> x \<in> set hs \<or> (\<exists>r. r \<noteq> q \<and> x \<in> set (Q r))"
      using q by (metis list.set_intros set_ConsD)
    then show ?thesis
      using separateD(1) [OF s, of q] separateD(2) [OF s, of h q] q by (auto simp: queued_def)
  qed
  then show ?thesis by auto
qed

definition queues_rep :: "op_queues \<Rightarrow> (nat \<Rightarrow> nat list) \<Rightarrow> bool" where
  "queues_rep s Q \<longleftrightarrow>
     (\<forall>q. path (next_op s) (front_op s q) (Q q) None) \<and> back_op s = last_op \<circ> Q \<and>
     separate Q \<and> (\<forall>h. h \<notin> queued Q \<longrightarrow> next_op s h = None)"

text \<open>
  What a client of the queues may rely on; sequences of admissible calls then run and give
  what they give on lists.
\<close>

fun list_run :: "queue_call list \<Rightarrow> (nat \<Rightarrow> nat list) \<Rightarrow> queue_result list \<times> (nat \<Rightarrow> nat list)" where
  "list_run [] Q = ([], Q)"
| "list_run (c # cs) Q =
     (let (r, Q) = list_call c Q; (rs, Q) = list_run cs Q in (r # rs, Q))"

fun calls_ok :: "queue_call list \<Rightarrow> (nat \<Rightarrow> nat list) \<Rightarrow> bool" where
  "calls_ok [] Q \<longleftrightarrow> True"
| "calls_ok (c # cs) Q \<longleftrightarrow> call_ok c Q \<and> calls_ok cs (snd (list_call c Q))"

locale queue_interface =
  fixes rep :: "'s \<Rightarrow> (nat \<Rightarrow> nat list) \<Rightarrow> bool"
    and call :: "queue_call \<Rightarrow> 's \<Rightarrow> (queue_result \<times> 's) option"
    and run :: "queue_call list \<Rightarrow> 's \<Rightarrow> (queue_result list \<times> 's) option"
  assumes call_refines: "rep s Q \<Longrightarrow> call_ok c Q \<Longrightarrow>
      \<exists>s'. call c s = Some (fst (list_call c Q), s') \<and> rep s' (snd (list_call c Q))"
    and run_Nil: "run [] s = Some ([], s)"
    and run_Cons: "run (c # cs) s =
      Option.bind (call c s) (\<lambda>(r, s). Option.bind (run cs s) (\<lambda>(rs, s). Some (r # rs, s)))"
begin

lemma run_refines:
  "rep s Q \<Longrightarrow> calls_ok cs Q \<Longrightarrow>
     \<exists>s'. run cs s = Some (fst (list_run cs Q), s') \<and> rep s' (snd (list_run cs Q))"
proof (induction cs arbitrary: s Q)
  case (Cons c cs)
  obtain s1 where s1: "call c s = Some (fst (list_call c Q), s1)" "rep s1 (snd (list_call c Q))"
    using call_refines [of s Q c] Cons.prems by auto
  obtain s2 where "run cs s1 = Some (fst (list_run cs (snd (list_call c Q))), s2)"
      "rep s2 (snd (list_run cs (snd (list_call c Q))))"
    using Cons.IH [OF s1(2)] Cons.prems(2) by auto
  with s1 show ?case by (auto simp: run_Cons Let_def case_prod_beta)
qed (simp add: run_Nil)

end

fun queue_run :: "queue_call list \<Rightarrow> op_queues \<Rightarrow> (queue_result list \<times> op_queues) option" where
  "queue_run [] s = Some ([], s)"
| "queue_run (c # cs) s = do {
     (r, s) \<leftarrow> exec_call c s;
     (rs, s) \<leftarrow> queue_run cs s;
     Some (r # rs, s) }"

subsection \<open>Each call keeps the representation\<close>

lemma queues_repD:
  assumes "queues_rep s Q"
  shows "path (next_op s) (front_op s q) (Q q) None" "back_op s q = last_op (Q q)" "separate Q"
    "h \<notin> queued Q \<Longrightarrow> next_op s h = None"
  using assms by (auto simp: queues_rep_def)

lemma queues_repI:
  assumes "separate Q" and "\<And>q. path (next_op s) (front_op s q) (Q q) None"
    and "\<And>q. back_op s q = last_op (Q q)" and "\<And>h. h \<notin> queued Q \<Longrightarrow> next_op s h = None"
  shows "queues_rep s Q"
  using assms by (auto simp: queues_rep_def)

lemma queues_rep_empty: "queues_rep queues_empty (\<lambda>_. [])"
  by (auto simp: queues_rep_def queues_empty_def separate_def)

lemma rep_front: "queues_rep s Q \<Longrightarrow> front_op s q = (case Q q of [] \<Rightarrow> None | h # _ \<Rightarrow> Some h)"
  using queues_repD(1) [of s Q q] by (cases "Q q") auto

text \<open>Linking the end of one queue to something else leaves the other queues alone.\<close>

lemma rep_relink:
  assumes "queues_rep s Q" and "Q q \<noteq> []"
  shows "path ((next_op s)(last (Q q) := y)) (front_op s q) (Q q) y"
    "q' \<noteq> q \<Longrightarrow> path ((next_op s)(last (Q q) := y)) (front_op s q') (Q q') None"
    "last (Q q) \<in> queued Q"
proof -
  note r = queues_repD [OF assms(1)]
  show "path ((next_op s)(last (Q q) := y)) (front_op s q) (Q q) y"
    by (rule path_relink [OF r(1) assms(2) separateD(1) [OF r(3)]])
  have "last (Q q) \<in> set (Q q)" using assms(2) by simp
  then show "q' \<noteq> q \<Longrightarrow> path ((next_op s)(last (Q q) := y)) (front_op s q') (Q q') None"
    using r(1) [of q'] separateD(2) [OF r(3)] by (subst path_frame) blast+
  show "last (Q q) \<in> queued Q" using last_in_set [OF assms(2)] by (auto simp: queued_def)
qed

lemma rep_push:
  assumes "queues_rep s Q" and "h \<notin> queued Q"
  shows "queues_rep (queue_push q h s) (Q(q := Q q @ [h]))"
proof (rule queues_repI)
  note r = queues_repD [OF assms(1)]
  have h: "(next_op s)(h := None) = next_op s" using r(4) assms(2) by auto
  show "separate (Q(q := Q q @ [h]))" by (rule separate_push [OF r(3) assms(2)])
  show "back_op (queue_push q h s) q' = last_op ((Q(q := Q q @ [h])) q')" for q'
    by (simp add: queue_push_def Let_def r(2) split: option.splits)
  show "next_op (queue_push q h s) h' = None" if "h' \<notin> queued (Q(q := Q q @ [h]))" for h'
    using that r(4) [of h'] rep_relink(3) [OF assms(1), of q]
    by (auto simp: queue_push_def Let_def r(2) split: option.splits)
  show "path (next_op (queue_push q h s)) (front_op (queue_push q h s) q') ((Q(q := Q q @ [h])) q') None" for q'
  proof (cases "Q q = []")
    case True
    then show ?thesis using r(1) [of q'] r(4) [OF assms(2)] by (simp add: queue_push_def r(2) h)
  next
    case False
    then show ?thesis using rep_relink(1,2) [OF assms(1) False, where y = "Some h"] r(4) [OF assms(2)]
        rep_relink(3) [OF assms(1) False] assms(2)
      by (auto simp: queue_push_def r(2) h last_op_def)
  qed
qed

lemma rep_pop:
  assumes "queues_rep s Q"
  shows "queues_rep (queue_pop q s) (Q(q := tl (Q q)))"
proof (cases "Q q")
  case Nil
  then have "Q(q := tl (Q q)) = Q" by (simp add: fun_upd_idem)
  with Nil show ?thesis using assms rep_front [OF assms, of q] by (simp add: queue_pop_def)
next
  case (Cons h hs)
  note r = queues_repD [OF assms]
  have front: "front_op s q = Some h" using rep_front [OF assms, of q] Cons by simp
  have hs: "path (next_op s) (next_op s h) hs None" using r(1) [of q] Cons by simp
  have nil: "next_op s h = None \<longleftrightarrow> hs = []" using hs by (cases hs) auto
  have h: "h \<notin> set ((Q(q := hs)) q')" for q'
    using separateD(1) [OF r(3), of q] separateD(2) [OF r(3), of h q q'] Cons by simp
  have "queues_rep (queue_pop q s) (Q(q := hs))"
  proof (rule queues_repI)
    show "separate (Q(q := hs))" using separate_tl [OF r(3), of q] Cons by simp
    show "back_op (queue_pop q s) q' = last_op ((Q(q := hs)) q')" for q'
      using Cons nil by (simp add: queue_pop_def front Let_def r(2) last_op_def)
    show "next_op (queue_pop q s) h' = None" if "h' \<notin> queued (Q(q := hs))" for h'
      using that r(4) [of h'] queued_pop [OF r(3) Cons] by (auto simp: queue_pop_def front Let_def)
    show "path (next_op (queue_pop q s)) (front_op (queue_pop q s) q') ((Q(q := hs)) q') None" for q'
    proof -
      have "next_op (queue_pop q s) = (next_op s)(h := None)"
        "front_op (queue_pop q s) q' = (if q' = q then next_op s h else front_op s q')"
        by (simp_all add: queue_pop_def front Let_def)
      moreover have "path (next_op s) (if q' = q then next_op s h else front_op s q') ((Q(q := hs)) q') None"
        using hs r(1) by simp
      ultimately show ?thesis by (simp only: path_frame [OF h])
    qed
  qed
  then show ?thesis using Cons by simp
qed

lemma rep_push_all:
  assumes "queues_rep s Q" and "q \<noteq> r"
  shows "queues_rep (queue_push_all q r s) (Q(q := Q q @ Q r, r := []))"
proof (cases "Q r")
  case Nil
  then have "Q(q := Q q @ Q r, r := []) = Q" by (auto simp: fun_eq_iff)
  then show ?thesis using assms rep_front [OF assms(1), of r] Nil by (simp add: queue_push_all_def)
next
  case (Cons h hs)
  note p = queues_repD [OF assms(1)]
  have fr: "front_op s r = Some h" using rep_front [OF assms(1), of r] Cons by simp
  show ?thesis
  proof (rule queues_repI)
    show "separate (Q(q := Q q @ Q r, r := []))" by (rule separate_push_all [OF p(3) assms(2)])
    show "back_op (queue_push_all q r s) q' = last_op ((Q(q := Q q @ Q r, r := [])) q')" for q'
      using Cons by (simp add: queue_push_all_def fr Let_def p(2) last_op_def split: option.splits)
    show "next_op (queue_push_all q r s) h' = None" if "h' \<notin> queued (Q(q := Q q @ Q r, r := []))" for h'
      using that p(4) [of h'] rep_relink(3) [OF assms(1), of q] assms(2)
      by (auto simp: queue_push_all_def fr Let_def p(2) split: option.splits)
    show "path (next_op (queue_push_all q r s)) (front_op (queue_push_all q r s) q')
        ((Q(q := Q q @ Q r, r := [])) q') None" for q'
    proof (cases "Q q = []")
      case True
      then show ?thesis using p(1) [of q'] p(1) [of r] assms(2)
        by (auto simp: queue_push_all_def fr Let_def p(2))
    next
      case False
      then have "back_op s q = Some (last (Q q))" by (simp add: p(2))
      then show ?thesis using rep_relink(1,2) [OF assms(1) False, where y = "Some h"] assms(2)
          rep_relink(2) [OF assms(1) False, where q' = r and y = "Some h"]
        by (auto simp: queue_push_all_def fr Let_def)
    qed
  qed
qed

lemma rep_is_enqueued:
  assumes "queues_rep s Q" and "\<And>r. r \<noteq> q \<Longrightarrow> h \<notin> set (Q r)"
  shows "queue_is_enqueued q h s \<longleftrightarrow> h \<in> set (Q q)"
proof -
  note r = queues_repD [OF assms(1)]
  have "next_op s h \<noteq> None \<or> last_op (Q q) = Some h" if "h \<in> set (Q q)"
    using path_links [OF r(1) that] by blast
  moreover have "next_op s h = None" if "h \<notin> set (Q q)"
  proof (rule r(4))
    show "h \<notin> queued Q" unfolding queued_def UN_iff using that assms(2) by metis
  qed
  ultimately show ?thesis
    by (cases "h \<in> set (Q q)") (auto simp: queue_is_enqueued_def r(2))
qed

lemma rep_destroy:
  "queues_rep s Q \<Longrightarrow> Q q = hs \<Longrightarrow>
     \<exists>s'. queue_destroy q s = Some (hs, s') \<and> queues_rep s' (Q(q := []))"
proof (induction hs arbitrary: s Q)
  case Nil
  then show ?case using rep_front [OF Nil(1), of q] by (subst queue_destroy.simps) (simp add: fun_upd_idem)
next
  case (Cons h hs)
  obtain s' where "queue_destroy q (queue_pop q s) = Some (hs, s')"
      "queues_rep s' ((Q(q := tl (Q q)))(q := []))"
    using Cons.IH [OF rep_pop [OF Cons.prems(1), of q]] Cons.prems(2) by fastforce
  then show ?case using rep_front [OF Cons.prems(1), of q] Cons.prems(2)
    by (subst queue_destroy.simps) simp
qed

interpretation op_queue: queue_interface queues_rep exec_call queue_run
proof unfold_locales
  show "\<exists>s'. exec_call c s = Some (fst (list_call c Q), s') \<and> queues_rep s' (snd (list_call c Q))"
    if "queues_rep s Q" "call_ok c Q" for s Q c
    using that
    by (cases c) (auto simp: queued_def rep_push rep_push_all rep_pop rep_front rep_is_enqueued queue_front_def
        queue_empty_def split: list.splits dest: rep_destroy)
qed auto

text \<open>
  C38. Any sequence of admissible calls on empty queues runs to its end, gives the results that
  it gives on lists (first in, first out; a whole queue appended; membership) and leaves
  pointers that represent the resulting lists. In particular the destructors end.
\<close>

theorem op_queues_are_lists:
  assumes "calls_ok cs (\<lambda>_. [])"
  shows "\<exists>s. queue_run cs queues_empty = Some (fst (list_run cs (\<lambda>_. [])), s) \<and>
    queues_rep s (snd (list_run cs (\<lambda>_. [])))"
  by (rule op_queue.run_refines [OF queues_rep_empty assms])

theorem op_queues_are_lists_witness:
  "\<exists>s. queue_run [Push_op 0 7, Push_op 0 8, Push_op 1 9, Push_all 0 1, Pop_op 0, Front_op 0,
        Is_enqueued 0 9, Is_empty 1, Destroy 0] queues_empty
     = Some ([Nothing, Nothing, Nothing, Nothing, Nothing, Op (Some 8), Flag True, Flag True, Destroyed [8, 9]], s)"
  using op_queues_are_lists [of "[Push_op 0 7, Push_op 0 8, Push_op 1 9, Push_all 0 1, Pop_op 0, Front_op 0,
        Is_enqueued 0 9, Is_empty 1, Destroy 0]"] by (auto simp: Let_def)

end
