(* ===== verification/Scheduler.thy ===== *)
theory Scheduler
  imports SocketOps OpQueue
begin

section \<open>Reactor operations and the scheduler (lib/asio, detail/)\<close>

text \<open>
  The operations of the reactor (\<open>reactive_socket_*_op.hpp\<close>): one attempt at a
  call of \<open>SocketOps\<close>. Then the state of an \<open>io_context\<close>, which the scheduler
  (\<open>impl/scheduler.ipp\<close>) and the reactor share, and the functions of the scheduler
  through which operations are posted and counted. The queues are lists (\<open>OpQueue\<close>).
\<close>

subsection \<open>Operations that can be attempted\<close>

datatype io =
    Send_io int string int state_type
  | Sendto_io int string int sockaddr
  | Recv_io int nat int state_type
  | Recvfrom_io int nat int
  | Recvmsg_io int nat int
  | Accept_io int state_type
  | Connect_io int
  | Wait_io

record reactor_op =
  op_id :: nat
  op_io :: io
  op_ec :: error_code
  op_bytes :: nat
  op_data :: string
  op_addr :: sockaddr
  op_flags :: int
  op_socket :: int

datatype op_status = Op_not_done | Op_done | Op_done_and_exhausted

definition finish_status :: "bool \<Rightarrow> bool \<Rightarrow> op_status" where
  "finish_status finished exhausted =
     (if \<not> finished then Op_not_done else if exhausted then Op_done_and_exhausted else Op_done)"

definition perform_send :: "int \<Rightarrow> string \<Rightarrow> int \<Rightarrow> state_type \<Rightarrow> reactor_op \<Rightarrow> os \<Rightarrow>
    ((op_status \<times> reactor_op) \<times> os) option" where
  "perform_send s data flags state op w = do {
     ((fin, ec, n), w) \<leftarrow> non_blocking_send s data flags (op_bytes op) w;
     Some ((finish_status fin (has_bit state stream_oriented \<and> n < length data),
       op\<lparr>op_ec := ec, op_bytes := n\<rparr>), w) }"

definition perform_sendto :: "int \<Rightarrow> string \<Rightarrow> int \<Rightarrow> sockaddr \<Rightarrow> reactor_op \<Rightarrow> os \<Rightarrow>
    ((op_status \<times> reactor_op) \<times> os) option" where
  "perform_sendto s data flags addr op w = do {
     ((fin, ec, n), w) \<leftarrow> non_blocking_sendto s data flags addr (op_bytes op) w;
     Some ((finish_status fin False, op\<lparr>op_ec := ec, op_bytes := n\<rparr>), w) }"

definition perform_recv :: "int \<Rightarrow> nat \<Rightarrow> int \<Rightarrow> state_type \<Rightarrow> reactor_op \<Rightarrow> os \<Rightarrow>
    ((op_status \<times> reactor_op) \<times> os) option" where
  "perform_recv s len flags state op w = do {
     ((fin, ec, n, data), w) \<leftarrow>
       non_blocking_recv s len flags (has_bit state stream_oriented) (op_bytes op) w;
     Some ((finish_status fin (has_bit state stream_oriented \<and> n = 0),
       op\<lparr>op_ec := ec, op_bytes := n, op_data := data\<rparr>), w) }"

text \<open>The endpoint takes the sender's address only when the operation succeeded.\<close>

definition perform_recvfrom :: "int \<Rightarrow> nat \<Rightarrow> int \<Rightarrow> reactor_op \<Rightarrow> os \<Rightarrow>
    ((op_status \<times> reactor_op) \<times> os) option" where
  "perform_recvfrom s len flags op w = do {
     ((fin, ec, n, data, addr), w) \<leftarrow> non_blocking_recvfrom s len flags (op_bytes op) w;
     Some ((finish_status fin False,
       op\<lparr>op_ec := ec, op_bytes := n, op_data := data,
         op_addr := if fin \<and> fst ec = 0 then addr else op_addr op\<rparr>), w) }"

definition perform_recvmsg :: "int \<Rightarrow> nat \<Rightarrow> int \<Rightarrow> reactor_op \<Rightarrow> os \<Rightarrow>
    ((op_status \<times> reactor_op) \<times> os) option" where
  "perform_recvmsg s len in_flags op w = do {
     ((fin, ec, n, data, out_flags), w) \<leftarrow> non_blocking_recvmsg s len in_flags (op_bytes op) w;
     Some ((finish_status fin False,
       op\<lparr>op_ec := ec, op_bytes := n, op_data := data, op_flags := out_flags\<rparr>), w) }"

definition perform_accept :: "int \<Rightarrow> state_type \<Rightarrow> reactor_op \<Rightarrow> os \<Rightarrow>
    ((op_status \<times> reactor_op) \<times> os) option" where
  "perform_accept s state op w = do {
     ((fin, ec, new_socket, addr), w) \<leftarrow> non_blocking_accept s state w;
     Some ((finish_status fin False,
       op\<lparr>op_ec := ec, op_socket := new_socket,
         op_addr := case addr of Some a \<Rightarrow> a | None \<Rightarrow> op_addr op\<rparr>), w) }"

definition perform_connect :: "int \<Rightarrow> reactor_op \<Rightarrow> os \<Rightarrow>
    ((op_status \<times> reactor_op) \<times> os) option" where
  "perform_connect s op w = do {
     ((fin, ec), w) \<leftarrow> non_blocking_connect s (op_ec op) w;
     Some ((finish_status fin False, op\<lparr>op_ec := ec\<rparr>), w) }"

definition perform_wait :: "reactor_op \<Rightarrow> os \<Rightarrow> ((op_status \<times> reactor_op) \<times> os) option" where
  "perform_wait op w = Some ((Op_done, op), w)"

text \<open>The function pointer of an operation.\<close>

definition perform :: "reactor_op \<Rightarrow> os \<Rightarrow> ((op_status \<times> reactor_op) \<times> os) option" where
  "perform op = (case op_io op of
     Send_io s data flags state \<Rightarrow> perform_send s data flags state op
   | Sendto_io s data flags addr \<Rightarrow> perform_sendto s data flags addr op
   | Recv_io s len flags state \<Rightarrow> perform_recv s len flags state op
   | Recvfrom_io s len flags \<Rightarrow> perform_recvfrom s len flags op
   | Recvmsg_io s len in_flags \<Rightarrow> perform_recvmsg s len in_flags op
   | Accept_io s state \<Rightarrow> perform_accept s state op
   | Connect_io s \<Rightarrow> perform_connect s op
   | Wait_io \<Rightarrow> perform_wait op)"

lemmas perform_defs = perform_def perform_send_def perform_sendto_def perform_recv_def
  perform_recvfrom_def perform_recvmsg_def perform_accept_def perform_connect_def perform_wait_def

lemma perform_id: "perform op w = Some ((status, op'), w') \<Longrightarrow> op_id op' = op_id op"
  by (cases "op_io op") (auto simp: perform_defs split: bind_split_asm)

subsection \<open>The state of an execution context\<close>

datatype op_type = Read_op | Write_op | Except_op

abbreviation connect_op_type :: op_type where "connect_op_type \<equiv> Write_op"

text \<open>What waits in the scheduler's queue: the reactor, a descriptor with events, a completion.\<close>

datatype operation = Task_operation | Descriptor_operation nat | Completion reactor_op | Handler nat

record descriptor_state =
  ds_descriptor :: int
  registered_events :: "32 word"
  op_queue :: "op_type \<Rightarrow> reactor_op list"
  try_speculative :: "op_type \<Rightarrow> bool"
  ds_shutdown :: bool
  task_result :: "32 word"

record thread_info =
  private_op_queue :: "operation list"
  private_outstanding_work :: int

definition new_thread_info :: thread_info where
  "new_thread_info = \<lparr>private_op_queue = [], private_outstanding_work = 0\<rparr>"

text \<open>
  The threads inside \<open>run\<close> are those with a \<open>thread_info\<close> (\<open>thread_call_stack\<close>). Of the event
  on which they wait there are the flag, the number of waiting threads and the number
  of wake-ups on their way to one of them; of the reactor's interrupter, whether it has
  been signalled since it was last seen.
\<close>

record io_context =
  one_thread :: bool
  task_present :: bool
  task_interrupted :: bool
  outstanding_work :: int
  sched_queue :: "operation list"
  stopped :: bool
  sched_shutdown :: bool
  thread_infos :: "nat \<Rightarrow> thread_info option"
  event_set :: bool
  waiters :: nat
  notified :: nat
  interrupt_pending :: bool
  live_descriptors :: "nat list"
  free_descriptors :: "nat list"
  descriptors_created :: nat
  descriptors :: "nat \<Rightarrow> descriptor_state"

definition new_scheduler :: "bool \<Rightarrow> io_context" where
  "new_scheduler one = \<lparr>one_thread = one, task_present = False, task_interrupted = True,
     outstanding_work = 0, sched_queue = [], stopped = False, sched_shutdown = False,
     thread_infos = (\<lambda>_. None), event_set = False, waiters = 0, notified = 0, interrupt_pending = False,
     live_descriptors = [], free_descriptors = [], descriptors_created = 0,
     descriptors = (\<lambda>_. \<lparr>ds_descriptor = 0, registered_events = 0, op_queue = (\<lambda>_. []),
       try_speculative = (\<lambda>_. False), ds_shutdown = False, task_result = 0\<rparr>)\<rparr>"

subsection \<open>The event the threads wait for (posix_event.hpp)\<close>

text \<open>A notification wakes one waiting thread, if there is one that has not been woken.\<close>

definition notify_one :: "io_context \<Rightarrow> io_context" where
  "notify_one c = c\<lparr>notified := min (waiters c) (notified c + 1)\<rparr>"

definition event_signal_all :: "io_context \<Rightarrow> io_context" where
  "event_signal_all c = c\<lparr>event_set := True, notified := waiters c\<rparr>"

definition event_unlock_and_signal_one :: "io_context \<Rightarrow> io_context" where
  "event_unlock_and_signal_one c =
     (let c = c\<lparr>event_set := True\<rparr> in if 0 < waiters c then notify_one c else c)"

definition event_maybe_unlock_and_signal_one :: "io_context \<Rightarrow> bool \<times> io_context" where
  "event_maybe_unlock_and_signal_one c =
     (let c = c\<lparr>event_set := True\<rparr> in if 0 < waiters c then (True, notify_one c) else (False, c))"

definition event_clear :: "io_context \<Rightarrow> io_context" where
  "event_clear c = c\<lparr>event_set := False\<rparr>"

text \<open>
  \<open>wait\<close>: enter the condition variable unless the event is set, and what a thread that leaves
  it does. Both say whether the wait is over.
\<close>

definition event_wait_begin :: "io_context \<Rightarrow> bool \<times> io_context" where
  "event_wait_begin c = (if event_set c then (True, c) else (False, c\<lparr>waiters := waiters c + 1\<rparr>))"

definition event_wait_resume :: "io_context \<Rightarrow> bool \<times> io_context" where
  "event_wait_resume c =
     event_wait_begin (c\<lparr>waiters := waiters c - 1, notified := notified c - 1\<rparr>)"

subsection \<open>Waking and stopping\<close>

text \<open>\<open>epoll_reactor::interrupt\<close> makes a call of \<open>epoll_wait\<close> return.\<close>

definition reactor_interrupt :: "io_context \<Rightarrow> io_context" where
  "reactor_interrupt c = c\<lparr>interrupt_pending := True\<rparr>"

definition interrupt_task :: "io_context \<Rightarrow> io_context" where
  "interrupt_task c =
     (if \<not> task_interrupted c \<and> task_present c
      then reactor_interrupt (c\<lparr>task_interrupted := True\<rparr>) else c)"

definition wake_one_thread_and_unlock :: "io_context \<Rightarrow> io_context" where
  "wake_one_thread_and_unlock c =
     (let (woken, c) = event_maybe_unlock_and_signal_one c in if woken then c else interrupt_task c)"

definition stop_all_threads :: "io_context \<Rightarrow> io_context" where
  "stop_all_threads c = interrupt_task (event_signal_all (c\<lparr>stopped := True\<rparr>))"

definition sched_stop :: "io_context \<Rightarrow> io_context" where
  "sched_stop c = stop_all_threads c"

definition sched_restart :: "io_context \<Rightarrow> io_context" where
  "sched_restart c = c\<lparr>stopped := False\<rparr>"

definition init_task :: "io_context \<Rightarrow> io_context" where
  "init_task c =
     (if \<not> sched_shutdown c \<and> \<not> task_present c
      then wake_one_thread_and_unlock
        (c\<lparr>task_present := True, sched_queue := sched_queue c @ [Task_operation]\<rparr>)
      else c)"

subsection \<open>Counting work\<close>

definition work_started :: "io_context \<Rightarrow> io_context" where
  "work_started c = c\<lparr>outstanding_work := outstanding_work c + 1\<rparr>"

definition work_finished :: "io_context \<Rightarrow> io_context" where
  "work_finished c =
     (let c = c\<lparr>outstanding_work := outstanding_work c - 1\<rparr>
      in if outstanding_work c = 0 then sched_stop c else c)"

definition update_thread :: "nat \<Rightarrow> (thread_info \<Rightarrow> thread_info) \<Rightarrow> io_context \<Rightarrow> io_context" where
  "update_thread t f c = c\<lparr>thread_infos := (thread_infos c)(t := map_option f (thread_infos c t))\<rparr>"

text \<open>Only called in a thread of the scheduler (otherwise a null pointer is dereferenced).\<close>

definition compensating_work_started :: "nat \<Rightarrow> io_context \<Rightarrow> io_context" where
  "compensating_work_started t =
     update_thread t (\<lambda>ti. ti\<lparr>private_outstanding_work := private_outstanding_work ti + 1\<rparr>)"

subsection \<open>Posting\<close>

definition post_immediate_completion :: "nat \<Rightarrow> operation \<Rightarrow> bool \<Rightarrow> io_context \<Rightarrow> io_context" where
  "post_immediate_completion t op is_continuation c =
     (if (one_thread c \<or> is_continuation) \<and> thread_infos c t \<noteq> None
      then update_thread t (\<lambda>ti. ti\<lparr>private_outstanding_work := private_outstanding_work ti + 1,
        private_op_queue := private_op_queue ti @ [op]\<rparr>) c
      else
        let c = work_started c
        in wake_one_thread_and_unlock (c\<lparr>sched_queue := sched_queue c @ [op]\<rparr>))"

definition post_deferred_completions :: "nat \<Rightarrow> operation list \<Rightarrow> io_context \<Rightarrow> io_context" where
  "post_deferred_completions t ops c =
     (if ops = [] then c
      else if one_thread c \<and> thread_infos c t \<noteq> None
      then update_thread t (\<lambda>ti. ti\<lparr>private_op_queue := private_op_queue ti @ ops\<rparr>) c
      else wake_one_thread_and_unlock (c\<lparr>sched_queue := sched_queue c @ ops\<rparr>))"

definition post_deferred_completion :: "nat \<Rightarrow> operation \<Rightarrow> io_context \<Rightarrow> io_context" where
  "post_deferred_completion t op c =
     (if one_thread c \<and> thread_infos c t \<noteq> None
      then update_thread t (\<lambda>ti. ti\<lparr>private_op_queue := private_op_queue ti @ [op]\<rparr>) c
      else wake_one_thread_and_unlock (c\<lparr>sched_queue := sched_queue c @ [op]\<rparr>))"

definition do_dispatch :: "operation \<Rightarrow> io_context \<Rightarrow> io_context" where
  "do_dispatch op c =
     (let c = work_started c
      in wake_one_thread_and_unlock (c\<lparr>sched_queue := sched_queue c @ [op]\<rparr>))"

lemmas wake_defs = notify_one_def event_signal_all_def event_unlock_and_signal_one_def
  event_maybe_unlock_and_signal_one_def event_clear_def event_wait_begin_def event_wait_resume_def
  reactor_interrupt_def interrupt_task_def wake_one_thread_and_unlock_def stop_all_threads_def sched_stop_def

end
