(* ===== verification/Reactor.thy ===== *)
theory Reactor
  imports Scheduler
begin

section \<open>The reactor (lib/asio, detail/impl/epoll_reactor.ipp)\<close>

text \<open>
  Descriptors with their queues of operations, in the pool they are allocated from. A
  descriptor handed to the program is \<open>Some d\<close>, or \<open>None\<close> for the null pointer. Calls that
  reach the operating system take its state as in \<open>SocketOps\<close>. There are no timers: nothing
  in the program adds a timer queue. Each function runs under the mutex of the descriptor and is
  one step here.
\<close>

definition EPOLLIN :: "32 word" where "EPOLLIN = 0x1"
definition EPOLLPRI :: "32 word" where "EPOLLPRI = 0x2"
definition EPOLLOUT :: "32 word" where "EPOLLOUT = 0x4"
definition EPOLLERR :: "32 word" where "EPOLLERR = 0x8"
definition EPOLLHUP :: "32 word" where "EPOLLHUP = 0x10"
definition EPOLLET :: "32 word" where "EPOLLET = 0x80000000"
definition EPOLL_CTL_ADD :: int where "EPOLL_CTL_ADD = 1"
definition EPOLL_CTL_DEL :: int where "EPOLL_CTL_DEL = 2"
definition EPOLL_CTL_MOD :: int where "EPOLL_CTL_MOD = 3"
definition EPERM :: int where "EPERM = 1"
definition operation_not_supported :: error_code where "operation_not_supported = system_error 95"
definition operation_aborted :: error_code where "operation_aborted = system_error 125"

definition epoll_ctl :: "int \<Rightarrow> int \<Rightarrow> 32 word \<Rightarrow> os \<Rightarrow> ((int \<times> int) \<times> os) option" where
  "epoll_ctl cmd fd events w = do {
     (a, w) \<leftarrow> sys (Sys_epoll_ctl cmd fd events) w;
     Some ((returned a, errno a), w) }"

subsection \<open>The pool of descriptor states (object_pool.hpp)\<close>

definition allocate_descriptor_state :: "io_context \<Rightarrow> nat \<times> io_context" where
  "allocate_descriptor_state c = (case free_descriptors c of
     d # ds \<Rightarrow> (d, c\<lparr>free_descriptors := ds, live_descriptors := d # live_descriptors c\<rparr>)
   | [] \<Rightarrow> (descriptors_created c, c\<lparr>descriptors_created := descriptors_created c + 1,
       live_descriptors := descriptors_created c # live_descriptors c\<rparr>))"

definition free_descriptor_state :: "nat \<Rightarrow> io_context \<Rightarrow> io_context" where
  "free_descriptor_state d c =
     c\<lparr>live_descriptors := remove1 d (live_descriptors c), free_descriptors := d # free_descriptors c\<rparr>"

definition update_descriptor ::
    "nat \<Rightarrow> (descriptor_state \<Rightarrow> descriptor_state) \<Rightarrow> io_context \<Rightarrow> io_context" where
  "update_descriptor d f c = c\<lparr>descriptors := (descriptors c)(d := f (descriptors c d))\<rparr>"

definition push_op :: "op_type \<Rightarrow> reactor_op \<Rightarrow> descriptor_state \<Rightarrow> descriptor_state" where
  "push_op ty op ds = ds\<lparr>op_queue := (op_queue ds)(ty := op_queue ds ty @ [op])\<rparr>"

subsection \<open>Registration\<close>

definition initial_events :: "32 word" where
  "initial_events = EPOLLIN OR EPOLLERR OR EPOLLHUP OR EPOLLPRI OR EPOLLET"

definition init_descriptor :: "int \<Rightarrow> descriptor_state \<Rightarrow> descriptor_state" where
  "init_descriptor fd ds =
     ds\<lparr>ds_descriptor := fd, ds_shutdown := False, try_speculative := (\<lambda>_. True)\<rparr>"

text \<open>Returns the error number (0 for success) and the descriptor.\<close>

definition register_descriptor ::
    "int \<Rightarrow> io_context \<Rightarrow> os \<Rightarrow> ((int \<times> nat) \<times> io_context \<times> os) option" where
  "register_descriptor fd c w =
     (let (d, c) = allocate_descriptor_state c;
          c = update_descriptor d (init_descriptor fd) c;
          c = update_descriptor d (\<lambda>ds. ds\<lparr>registered_events := initial_events\<rparr>) c
      in do {
        ((result, err), w) \<leftarrow> epoll_ctl EPOLL_CTL_ADD fd initial_events w;
        if result \<noteq> 0 then
          (if err = EPERM
           then Some ((0, d), update_descriptor d (\<lambda>ds. ds\<lparr>registered_events := 0\<rparr>) c, w)
           else Some ((err, d), c, w))
        else Some ((0, d), c, w) })"

definition register_internal_descriptor ::
    "op_type \<Rightarrow> int \<Rightarrow> reactor_op \<Rightarrow> io_context \<Rightarrow> os \<Rightarrow> ((int \<times> nat) \<times> io_context \<times> os) option" where
  "register_internal_descriptor ty fd op c w =
     (let (d, c) = allocate_descriptor_state c;
          c = update_descriptor d (push_op ty op \<circ> init_descriptor fd) c;
          c = update_descriptor d (\<lambda>ds. ds\<lparr>registered_events := initial_events\<rparr>) c
      in do {
        ((result, err), w) \<leftarrow> epoll_ctl EPOLL_CTL_ADD fd initial_events w;
        Some ((if result \<noteq> 0 then err else 0, d), c, w) })"

text \<open>Target and source afterwards.\<close>

definition move_descriptor :: "nat option \<Rightarrow> nat option \<times> nat option" where
  "move_descriptor source = (source, None)"

subsection \<open>Starting an operation\<close>

definition start_op ::
    "nat \<Rightarrow> op_type \<Rightarrow> int \<Rightarrow> nat option \<Rightarrow> reactor_op \<Rightarrow> bool \<Rightarrow> bool \<Rightarrow> io_context \<Rightarrow> os \<Rightarrow>
      (io_context \<times> os) option" where
  "start_op t ty fd data op is_continuation allow_speculative c w = (case data of
     None \<Rightarrow>
       Some (post_immediate_completion t (Completion (op\<lparr>op_ec := bad_descriptor\<rparr>)) is_continuation c, w)
   | Some d \<Rightarrow>
       let ds = descriptors c d;
           post = (\<lambda>op. post_immediate_completion t (Completion op) is_continuation);
           enqueue = (\<lambda>op c. work_started (update_descriptor d (push_op ty op) c)) in
       if ds_shutdown ds then Some (post op c, w)
       else if op_queue ds ty = [] then
         if allow_speculative \<and> (ty \<noteq> Read_op \<or> op_queue ds Except_op = []) then do {
           ((status, op), w) \<leftarrow>
             (if try_speculative ds ty then perform op w else Some ((Op_not_done, op), w));
           if status \<noteq> Op_not_done then
             Some (post op
               (if status = Op_done_and_exhausted \<and> registered_events ds \<noteq> 0
                then update_descriptor d
                  (\<lambda>ds. ds\<lparr>try_speculative := (try_speculative ds)(ty := False)\<rparr>) c
                else c), w)
           else if registered_events ds = 0
           then Some (post (op\<lparr>op_ec := operation_not_supported\<rparr>) c, w)
           else if ty = Write_op \<and> registered_events ds AND EPOLLOUT = 0 then do {
             let events = registered_events ds OR EPOLLOUT;
             ((result, err), w) \<leftarrow> epoll_ctl EPOLL_CTL_MOD fd events w;
             if result = 0
             then Some (enqueue op (update_descriptor d
               (\<lambda>ds. ds\<lparr>registered_events := registered_events ds OR events\<rparr>) c), w)
             else Some (post (op\<lparr>op_ec := system_error err\<rparr>) c, w) }
           else Some (enqueue op c, w) }
         else if registered_events ds = 0
         then Some (post (op\<lparr>op_ec := operation_not_supported\<rparr>) c, w)
         else do {
           let events = (if ty = Write_op then registered_events ds OR EPOLLOUT else registered_events ds);
           (_, w) \<leftarrow> epoll_ctl EPOLL_CTL_MOD fd events w;
           Some (enqueue op (update_descriptor d (\<lambda>ds. ds\<lparr>registered_events := events\<rparr>) c), w) }
       else Some (enqueue op c, w))"

subsection \<open>Cancelling and deregistering\<close>

definition no_ops :: "op_type \<Rightarrow> reactor_op list" where
  "no_ops = (\<lambda>_. [])"

text \<open>All operations of a descriptor, in the order of the types, with the error of a cancelled one.\<close>

definition ds_ops :: "descriptor_state \<Rightarrow> reactor_op list" where
  "ds_ops ds = op_queue ds Read_op @ op_queue ds Write_op @ op_queue ds Except_op"

definition aborted_ops :: "descriptor_state \<Rightarrow> operation list" where
  "aborted_ops ds = map (\<lambda>op. Completion (op\<lparr>op_ec := operation_aborted\<rparr>)) (ds_ops ds)"

definition cancel_ops :: "nat \<Rightarrow> nat option \<Rightarrow> io_context \<Rightarrow> io_context" where
  "cancel_ops t data c = (case data of
     None \<Rightarrow> c
   | Some d \<Rightarrow>
       let ops = aborted_ops (descriptors c d);
           c = update_descriptor d (\<lambda>ds. ds\<lparr>op_queue := no_ops\<rparr>) c
       in post_deferred_completions t ops c)"

text \<open>
  Gives the descriptor that the caller passes on to \<open>cleanup_descriptor_data\<close>; the result of
  \<open>epoll_ctl\<close> is ignored.
\<close>

definition deregister_descriptor ::
    "nat \<Rightarrow> int \<Rightarrow> nat option \<Rightarrow> bool \<Rightarrow> io_context \<Rightarrow> os \<Rightarrow> (nat option \<times> io_context \<times> os) option" where
  "deregister_descriptor t fd data closing c w = (case data of
     None \<Rightarrow> Some (None, c, w)
   | Some d \<Rightarrow>
       let ds = descriptors c d in
       if \<not> ds_shutdown ds then do {
         w \<leftarrow> (if closing then Some w
               else if registered_events ds \<noteq> 0
               then do { (_, w) \<leftarrow> epoll_ctl EPOLL_CTL_DEL fd 0 w; Some w }
               else Some w);
         let ops = aborted_ops ds;
         let c = update_descriptor d
           (\<lambda>ds. ds\<lparr>op_queue := no_ops, ds_descriptor := -1, ds_shutdown := True\<rparr>) c;
         Some (Some d, post_deferred_completions t ops c, w) }
       else Some (None, c, w))"

text \<open>The operations of an internal descriptor are destroyed.\<close>

definition deregister_internal_descriptor ::
    "int \<Rightarrow> nat option \<Rightarrow> io_context \<Rightarrow> os \<Rightarrow> (nat option \<times> io_context \<times> os) option" where
  "deregister_internal_descriptor fd data c w = (case data of
     None \<Rightarrow> Some (None, c, w)
   | Some d \<Rightarrow>
       if \<not> ds_shutdown (descriptors c d) then do {
         (_, w) \<leftarrow> epoll_ctl EPOLL_CTL_DEL fd 0 w;
         Some (Some d, update_descriptor d
           (\<lambda>ds. ds\<lparr>op_queue := no_ops, ds_descriptor := -1, ds_shutdown := True\<rparr>) c, w) }
       else Some (None, c, w))"

definition cleanup_descriptor_data :: "nat option \<Rightarrow> io_context \<Rightarrow> nat option \<times> io_context" where
  "cleanup_descriptor_data data c = (case data of
     None \<Rightarrow> (None, c) | Some d \<Rightarrow> (None, free_descriptor_state d c))"

text \<open>
  The shutdown of the reactor: the operations of all live descriptors are collected, to be
  abandoned, and the descriptors are freed.
\<close>

fun shutdown_descriptors :: "nat list \<Rightarrow> io_context \<Rightarrow> reactor_op list \<times> io_context" where
  "shutdown_descriptors [] c = ([], c)"
| "shutdown_descriptors (d # ds) c =
     (let ops = ds_ops (descriptors c d);
          c = update_descriptor d (\<lambda>s. s\<lparr>op_queue := no_ops, ds_shutdown := True\<rparr>) c;
          (rest, c) = shutdown_descriptors ds (free_descriptor_state d c)
      in (ops @ rest, c))"

definition reactor_shutdown :: "io_context \<Rightarrow> reactor_op list \<times> io_context" where
  "reactor_shutdown c = shutdown_descriptors (live_descriptors c) c"

subsection \<open>Events\<close>

datatype event_source = Interrupter | Timer_fd | Descriptor_events nat

text \<open>
  \<open>run\<close> after \<open>epoll_wait\<close> has returned: each ready descriptor is put into the queue once, with
  the union of its events.
\<close>

fun dispatch_event :: "event_source \<times> 32 word \<Rightarrow> operation list \<times> io_context \<Rightarrow> operation list \<times> io_context"
where
  "dispatch_event (Interrupter, events) (ops, c) = (ops, c)"
| "dispatch_event (Timer_fd, events) (ops, c) = (ops, c)"
| "dispatch_event (Descriptor_events d, events) (ops, c) =
     (if Descriptor_operation d \<notin> set ops
      then (ops @ [Descriptor_operation d], update_descriptor d (\<lambda>ds. ds\<lparr>task_result := events\<rparr>) c)
      else (ops, update_descriptor d (\<lambda>ds. ds\<lparr>task_result := task_result ds OR events\<rparr>) c))"

definition reactor_run :: "(event_source \<times> 32 word) list \<Rightarrow> operation list \<times> io_context \<Rightarrow>
    operation list \<times> io_context" where
  "reactor_run evs = fold dispatch_event evs"

text \<open>The time \<open>epoll_wait\<close> waits, in milliseconds, when a timer descriptor is in use.\<close>

definition reactor_timeout :: "int \<Rightarrow> int" where
  "reactor_timeout usec = (if usec = 0 then 0 else if usec < 0 then -1 else (usec - 1) div 1000 + 1)"

text \<open>The operations at the head of a queue that complete, those left, and whether data ran out.\<close>

fun perform_queue ::
    "reactor_op list \<Rightarrow> os \<Rightarrow> ((reactor_op list \<times> reactor_op list \<times> bool) \<times> os) option" where
  "perform_queue [] w = Some (([], [], False), w)"
| "perform_queue (op # ops) w = do {
     ((status, op), w) \<leftarrow> perform op w;
     (case status of
        Op_not_done \<Rightarrow> Some (([], op # ops, False), w)
      | Op_done_and_exhausted \<Rightarrow> Some (([op], ops, True), w)
      | Op_done \<Rightarrow> do {
          ((finished, left, exhausted), w) \<leftarrow> perform_queue ops w;
          Some ((op # finished, left, exhausted), w) }) }"

fun event_flag :: "op_type \<Rightarrow> 32 word" where
  "event_flag Read_op = EPOLLIN"
| "event_flag Write_op = EPOLLOUT"
| "event_flag Except_op = EPOLLPRI"

definition perform_type ::
    "op_type \<Rightarrow> 32 word \<Rightarrow> descriptor_state \<Rightarrow> os \<Rightarrow> ((reactor_op list \<times> descriptor_state) \<times> os) option"
where
  "perform_type ty events ds w =
     (if events AND (event_flag ty OR EPOLLERR OR EPOLLHUP) \<noteq> 0 then do {
        ((finished, left, exhausted), w) \<leftarrow> perform_queue (op_queue ds ty) w;
        Some ((finished, ds\<lparr>op_queue := (op_queue ds)(ty := left),
          try_speculative := (try_speculative ds)(ty := \<not> exhausted)\<rparr>), w) }
      else Some (([], ds), w))"

text \<open>Exceptional operations first, then writing, then reading.\<close>

definition perform_types ::
    "32 word \<Rightarrow> descriptor_state \<Rightarrow> os \<Rightarrow> ((reactor_op list \<times> descriptor_state) \<times> os) option" where
  "perform_types events ds w = do {
     ((ops1, ds), w) \<leftarrow> perform_type Except_op events ds w;
     ((ops2, ds), w) \<leftarrow> perform_type Write_op events ds w;
     ((ops3, ds), w) \<leftarrow> perform_type Read_op events ds w;
     Some ((ops1 @ ops2 @ ops3, ds), w) }"

text \<open>
  The first finished operation is completed by the caller, the others are posted; the work
  that the caller will count as finished is made up for if there is none.
\<close>

definition perform_io ::
    "nat \<Rightarrow> nat \<Rightarrow> 32 word \<Rightarrow> io_context \<Rightarrow> os \<Rightarrow> (reactor_op option \<times> io_context \<times> os) option" where
  "perform_io t d events c w = do {
     ((ops, ds), w) \<leftarrow> perform_types events (descriptors c d) w;
     let c = update_descriptor d (\<lambda>_. ds) c;
     (case ops of
        [] \<Rightarrow> Some (None, compensating_work_started t c, w)
      | op # ops \<Rightarrow> Some (Some op, post_deferred_completions t (map Completion ops) c, w)) }"

end
