(* ===== verification/EventLoop.thy ===== *)
theory EventLoop
  imports Reactor Transition 
begin

section \<open>The event loop (lib/asio, detail/impl/scheduler.ipp)\<close>

text \<open>
  \<open>scheduler::run\<close> and \<open>run_one\<close> in any number of threads, interleaved at the places where
  they hold no mutex, together with what handlers and threads outside the loop do to the
  reactor. A thread is in one of the phases below.
\<close>

datatype phase =
    Outside                         \<comment> \<open>not in the loop; may call any function\<close>
  | Looking                         \<comment> \<open>about to take the mutex and look at the queue\<close>
  | Sleeping                         \<comment> \<open>in the condition variable\<close>
  | In_task bool                    \<comment> \<open>in \<open>epoll_wait\<close>; without waiting, if the flag is set\<close>
  | Performing nat "32 word"        \<comment> \<open>about to perform the operations of a descriptor\<close>
  | Executing "nat option"          \<comment> \<open>in the handler of an operation, or past \<open>perform_io\<close> without one\<close>

definition enter_thread :: "nat \<Rightarrow> io_context \<Rightarrow> io_context" where
  "enter_thread t c = c\<lparr>thread_infos := (thread_infos c)(t := Some new_thread_info)\<rparr>"

definition leave_thread :: "nat \<Rightarrow> io_context \<Rightarrow> io_context" where
  "leave_thread t c = c\<lparr>thread_infos := (thread_infos c)(t := None)\<rparr>"

text \<open>The beginning of \<open>run\<close> and \<open>run_one\<close>.\<close>

definition run_enter :: "nat \<Rightarrow> io_context \<Rightarrow> phase \<times> io_context" where
  "run_enter t c =
     (if outstanding_work c = 0 then (Outside, sched_stop c) else (Looking, enter_thread t c))"

text \<open>One iteration of \<open>do_run_one\<close>, from the lock to the unlock.\<close>

definition do_run_one :: "nat \<Rightarrow> io_context \<Rightarrow> phase \<times> io_context" where
  "do_run_one t c =
     (if stopped c then (Outside, leave_thread t c)
      else case sched_queue c of
        x # ops \<Rightarrow>
          let c = c\<lparr>sched_queue := ops\<rparr>; more_handlers = (ops \<noteq> []);
              wake = (\<lambda>c. if more_handlers \<and> \<not> one_thread c then wake_one_thread_and_unlock c else c) in
          (case x of
             Task_operation \<Rightarrow>
               let c = c\<lparr>task_interrupted := more_handlers\<rparr>;
                   c = (if more_handlers \<and> \<not> one_thread c then event_unlock_and_signal_one c else c)
               in (In_task more_handlers, c)
           | Descriptor_operation d \<Rightarrow> (Performing d (task_result (descriptors c d)), wake c)
           | Completion op \<Rightarrow> (Executing (Some (op_id op)), wake c)
           | Handler h \<Rightarrow> (Executing (Some h), wake c))
      | [] \<Rightarrow>
          let (signalled, c) = event_wait_begin (event_clear c)
          in (if signalled then Looking else Sleeping, c))"

definition wait_resume :: "io_context \<Rightarrow> phase \<times> io_context" where
  "wait_resume c = (let (signalled, c) = event_wait_resume c in (if signalled then Looking else Sleeping, c))"

definition private_work :: "io_context \<Rightarrow> nat \<Rightarrow> int" where
  "private_work c t = (case thread_infos c t of None \<Rightarrow> 0 | Some ti \<Rightarrow> private_outstanding_work ti)"

definition private_ops :: "io_context \<Rightarrow> nat \<Rightarrow> operation list" where
  "private_ops c t = (case thread_infos c t of None \<Rightarrow> [] | Some ti \<Rightarrow> private_op_queue ti)"

text \<open>The destructors that run at the end of the two branches of \<open>do_run_one\<close>.\<close>

definition task_cleanup :: "nat \<Rightarrow> io_context \<Rightarrow> io_context" where
  "task_cleanup t c =
     (let c = (if 0 < private_work c t
               then c\<lparr>outstanding_work := outstanding_work c + private_work c t\<rparr> else c);
          c = update_thread t (\<lambda>ti. ti\<lparr>private_outstanding_work := 0\<rparr>) c;
          c = c\<lparr>task_interrupted := True, sched_queue := sched_queue c @ private_ops c t\<rparr>;
          c = update_thread t (\<lambda>ti. ti\<lparr>private_op_queue := []\<rparr>) c
      in c\<lparr>sched_queue := sched_queue c @ [Task_operation]\<rparr>)"

definition work_cleanup :: "nat \<Rightarrow> io_context \<Rightarrow> io_context" where
  "work_cleanup t c =
     (let c = (if 1 < private_work c t
               then c\<lparr>outstanding_work := outstanding_work c + (private_work c t - 1)\<rparr>
               else if private_work c t < 1 then work_finished c else c);
          c = update_thread t (\<lambda>ti. ti\<lparr>private_outstanding_work := 0\<rparr>) c
      in if private_ops c t \<noteq> []
         then update_thread t (\<lambda>ti. ti\<lparr>private_op_queue := []\<rparr>)
           (c\<lparr>sched_queue := sched_queue c @ private_ops c t\<rparr>)
         else c)"

text \<open>
  The task: \<open>epoll_reactor::run\<close> with the events it was given, into the thread's private queue;
  then its cleanup. An event of the interrupter takes the pending interrupt.
\<close>

definition task_return :: "nat \<Rightarrow> (event_source \<times> 32 word) list \<Rightarrow> io_context \<Rightarrow> io_context" where
  "task_return t evs c =
     (let c = (if \<exists>e. (Interrupter, e) \<in> set evs then c\<lparr>interrupt_pending := False\<rparr> else c);
          (ops, c) = reactor_run evs (private_ops c t, c);
          c = update_thread t (\<lambda>ti. ti\<lparr>private_op_queue := ops\<rparr>) c
      in task_cleanup t c)"

text \<open>
  What the program does to the context, in a handler or outside of the loop: start an operation
  of a descriptor, post a handler, cancel, register and deregister a descriptor, hold
  the context (a work guard), stop and restart it.
\<close>

datatype action =
    Start_op op_type int "nat option" reactor_op bool bool
  | Post nat bool
  | Dispatch nat
  | Cancel "nat option"
  | Register int
  | Deregister int nat bool
  | Guard_begin
  | Guard_end
  | Stop
  | Restart

record loop_state =
  ctx :: io_context
  system :: os
  phases :: "nat \<Rightarrow> phase"
  only_one :: "nat \<Rightarrow> bool"
  guards :: nat
  started :: "nat list"
  completed :: "nat list"

fun act :: "nat \<Rightarrow> action \<Rightarrow> loop_state \<Rightarrow> loop_state option" where
  "act t (Start_op ty fd data op is_cont spec) s = do {
     (c, w) \<leftarrow> start_op t ty fd data op is_cont spec (ctx s) (system s);
     Some (s\<lparr>ctx := c, system := w, started := started s @ [op_id op]\<rparr>) }"
| "act t (Post h is_cont) s =
     Some (s\<lparr>ctx := post_immediate_completion t (Handler h) is_cont (ctx s), started := started s @ [h]\<rparr>)"
| "act t (Dispatch h) s = Some (s\<lparr>ctx := do_dispatch (Handler h) (ctx s), started := started s @ [h]\<rparr>)"
| "act t (Cancel data) s = Some (s\<lparr>ctx := cancel_ops t data (ctx s)\<rparr>)"
| "act t (Register fd) s = do {
     (_, c, w) \<leftarrow> register_descriptor fd (ctx s) (system s);
     Some (s\<lparr>ctx := c, system := w\<rparr>) }"
| "act t (Deregister fd d closing) s = do {
     (data, c, w) \<leftarrow> deregister_descriptor t fd (Some d) closing (ctx s) (system s);
     Some (s\<lparr>ctx := snd (cleanup_descriptor_data data c), system := w\<rparr>) }"
| "act t Guard_begin s = Some (s\<lparr>ctx := work_started (ctx s), guards := guards s + 1\<rparr>)"
| "act t Guard_end s =
     (if guards s = 0 then None else Some (s\<lparr>ctx := work_finished (ctx s), guards := guards s - 1\<rparr>))"
| "act t Stop s = Some (s\<lparr>ctx := sched_stop (ctx s)\<rparr>)"
| "act t Restart s = Some (s\<lparr>ctx := sched_restart (ctx s)\<rparr>)"

text \<open>The descriptors an action uses are live.\<close>

fun action_ok :: "action \<Rightarrow> io_context \<Rightarrow> bool" where
  "action_ok (Start_op ty fd (Some d) op is_cont spec) c \<longleftrightarrow> d \<in> set (live_descriptors c)"
| "action_ok (Cancel (Some d)) c \<longleftrightarrow> d \<in> set (live_descriptors c)"
| "action_ok (Deregister fd d closing) c \<longleftrightarrow> d \<in> set (live_descriptors c)"
| "action_ok _ c \<longleftrightarrow> True"

text \<open>
  The steps of \<open>n\<close> threads; threads call \<open>run_one\<close> only if \<open>ones\<close>. A context for one thread is
  entered by one thread at a time.
\<close>

inductive loop_step :: "nat \<Rightarrow> bool \<Rightarrow> loop_state \<Rightarrow> loop_state \<Rightarrow> bool" for n :: nat and ones :: bool
where
  step_act: "t < n \<Longrightarrow> phases s t = Outside \<or> (\<exists>h. phases s t = Executing (Some h)) \<Longrightarrow>
     action_ok a (ctx s) \<Longrightarrow> act t a s = Some s' \<Longrightarrow> loop_step n ones s s'"
| step_enter: "t < n \<Longrightarrow> phases s t = Outside \<Longrightarrow> run_enter t (ctx s) = (p, c) \<Longrightarrow> (once \<longrightarrow> ones) \<Longrightarrow>
     (one_thread (ctx s) \<longrightarrow> (\<forall>t' < n. phases s t' = Outside)) \<Longrightarrow>
     loop_step n ones s (s\<lparr>ctx := c, phases := (phases s)(t := p), only_one := (only_one s)(t := once)\<rparr>)"
| step_look: "t < n \<Longrightarrow> phases s t = Looking \<Longrightarrow> do_run_one t (ctx s) = (p, c) \<Longrightarrow>
     loop_step n ones s (s\<lparr>ctx := c, phases := (phases s)(t := p)\<rparr>)"
| step_resume: "t < n \<Longrightarrow> phases s t = Sleeping \<Longrightarrow> wait_resume (ctx s) = (p, c) \<Longrightarrow>
     loop_step n ones s (s\<lparr>ctx := c, phases := (phases s)(t := p)\<rparr>)"
| step_task: "t < n \<Longrightarrow> phases s t = In_task no_wait \<Longrightarrow>
     (\<forall>d e. (Descriptor_events d, e) \<in> set evs \<longrightarrow> d < descriptors_created (ctx s)) \<Longrightarrow>
     loop_step n ones s (s\<lparr>ctx := task_return t evs (ctx s), phases := (phases s)(t := Looking)\<rparr>)"
| step_perform: "t < n \<Longrightarrow> phases s t = Performing d events \<Longrightarrow>
     perform_io t d events (ctx s) (system s) = Some (op, c, w) \<Longrightarrow>
     loop_step n ones s (s\<lparr>ctx := c, system := w,
       phases := (phases s)(t := Executing (map_option op_id op))\<rparr>)"
| step_finish: "t < n \<Longrightarrow> phases s t = Executing h \<Longrightarrow>
     c = work_cleanup t (ctx s) \<Longrightarrow>
     loop_step n ones s (s\<lparr>ctx := if only_one s t then leave_thread t c else c,
       phases := (phases s)(t := if only_one s t then Outside else Looking),
       completed := completed s @ (case h of None \<Rightarrow> [] | Some i \<Rightarrow> [i])\<rparr>)"

text \<open>At the beginning no thread is in the loop, and there is no work.\<close>

definition loop_init :: "bool \<Rightarrow> loop_state \<Rightarrow> bool" where
  "loop_init one s \<longleftrightarrow> ctx s = init_task (new_scheduler one) \<and> phases s = (\<lambda>_. Outside) \<and>
     only_one s = (\<lambda>_. False) \<and> guards s = 0 \<and> started s = [] \<and> completed s = []"

subsection \<open>Running given steps\<close>

text \<open>The steps as a function of a schedule, to run the loop on examples.\<close>

datatype loop_move = Act action | Enter bool | Look | Resume | Task "(event_source \<times> 32 word) list" | Perform | Finish

fun move_thread :: "nat \<Rightarrow> bool \<Rightarrow> nat \<times> loop_move \<Rightarrow> loop_state \<Rightarrow> loop_state option" where
  "move_thread n ones (t, Act a) s =
     (if t < n \<and> (case phases s t of Outside \<Rightarrow> True | Executing (Some _) \<Rightarrow> True | _ \<Rightarrow> False) \<and> action_ok a (ctx s)
      then act t a s else None)"
| "move_thread n ones (t, Enter once) s =
     (if t < n \<and> phases s t = Outside \<and> (once \<longrightarrow> ones) \<and>
         (one_thread (ctx s) \<longrightarrow> (\<forall>t' \<in> set [0..<n]. phases s t' = Outside))
      then let (p, c) = run_enter t (ctx s) in
        Some (s\<lparr>ctx := c, phases := (phases s)(t := p), only_one := (only_one s)(t := once)\<rparr>)
      else None)"
| "move_thread n ones (t, Look) s =
     (if t < n \<and> phases s t = Looking
      then let (p, c) = do_run_one t (ctx s) in Some (s\<lparr>ctx := c, phases := (phases s)(t := p)\<rparr>) else None)"
| "move_thread n ones (t, Resume) s =
     (if t < n \<and> phases s t = Sleeping
      then let (p, c) = wait_resume (ctx s) in Some (s\<lparr>ctx := c, phases := (phases s)(t := p)\<rparr>) else None)"
| "move_thread n ones (t, Task evs) s =
     (if t < n \<and> (case phases s t of In_task _ \<Rightarrow> True | _ \<Rightarrow> False) \<and>
         list_all (\<lambda>(src, _). case src of Descriptor_events d \<Rightarrow> d < descriptors_created (ctx s) | _ \<Rightarrow> True) evs
      then Some (s\<lparr>ctx := task_return t evs (ctx s), phases := (phases s)(t := Looking)\<rparr>) else None)"
| "move_thread n ones (t, Perform) s =
     (if t < n then case phases s t of
        Performing d events \<Rightarrow> do {
          (op, c, w) \<leftarrow> perform_io t d events (ctx s) (system s);
          Some (s\<lparr>ctx := c, system := w, phases := (phases s)(t := Executing (map_option op_id op))\<rparr>) }
      | _ \<Rightarrow> None else None)"
| "move_thread n ones (t, Finish) s =
     (if t < n then case phases s t of
        Executing h \<Rightarrow>
          let c = work_cleanup t (ctx s) in
          Some (s\<lparr>ctx := if only_one s t then leave_thread t c else c,
            phases := (phases s)(t := if only_one s t then Outside else Looking),
            completed := completed s @ (case h of None \<Rightarrow> [] | Some i \<Rightarrow> [i])\<rparr>)
      | _ \<Rightarrow> None else None)"

fun move_threads :: "nat \<Rightarrow> bool \<Rightarrow> (nat \<times> loop_move) list \<Rightarrow> loop_state \<Rightarrow> loop_state option" where
  "move_threads n ones [] s = Some s"
| "move_threads n ones (m # ms) s = do { s \<leftarrow> move_thread n ones m s; move_threads n ones ms s }"

lemma move_thread_step: "move_thread n ones m s = Some s' \<Longrightarrow> loop_step n ones s s'"
proof (cases m)
  case (Pair t mv)
  assume m: "move_thread n ones m s = Some s'"
  show ?thesis
  proof (cases mv)
    case (Act a)
    then show ?thesis using m Pair by (auto split: if_splits phase.splits option.splits intro: step_act)
  next
    case (Enter once)
    then show ?thesis using m Pair by (auto split: if_splits prod.splits intro!: step_enter)
  next
    case Look
    then show ?thesis using m Pair by (auto split: if_splits prod.splits intro!: step_look)
  next
    case Resume
    then show ?thesis using m Pair by (auto split: if_splits prod.splits intro!: step_resume)
  next
    case (Task evs)
    then have "\<forall>d e. (Descriptor_events d, e) \<in> set evs \<longrightarrow> d < descriptors_created (ctx s)"
      using m Pair by (auto simp: list_all_iff split: if_splits phase.splits)
    then show ?thesis using m Pair Task by (auto split: if_splits phase.splits intro!: step_task)
  next
    case Perform
    then show ?thesis using m Pair by (auto split: if_splits phase.splits bind_split_asm intro!: step_perform)
  next
    case Finish
    then show ?thesis using m Pair
      using step_finish [of t n s] by (auto simp: Let_def split: if_splits phase.splits)
  qed
qed

lemma move_threads_reach:
  "move_threads n ones ms s = Some s' \<Longrightarrow> reach (loop_init one) (loop_step n ones) s \<Longrightarrow>
     reach (loop_init one) (loop_step n ones) s'"
  by (induction ms arbitrary: s) (auto split: bind_split_asm dest: move_thread_step reach_step)

definition demo_loop :: loop_state where
  "demo_loop = \<lparr>ctx = init_task (new_scheduler False), system = \<lparr>answers = [], syscalls = []\<rparr>,
     phases = (\<lambda>_. Outside), only_one = (\<lambda>_. False), guards = 0, started = [], completed = []\<rparr>"

lemma demo_loop_moves:
  "move_threads n ones ms demo_loop = Some s \<Longrightarrow> reach (loop_init False) (loop_step n ones) s"
  by (erule move_threads_reach, rule reach_init) (simp add: loop_init_def demo_loop_def)

lemmas loop_evals = demo_loop_def init_task_def new_scheduler_def wake_defs Let_def post_immediate_completion_def
  work_started_def run_enter_def enter_thread_def do_run_one_def wait_resume_def task_return_def reactor_run_def
  task_cleanup_def work_cleanup_def work_finished_def update_thread_def private_ops_def private_work_def
  new_thread_info_def leave_thread_def

end
