(* ===== verification/WorkCount.thy ===== *)
theory WorkCount
  imports EventLoop "HOL-Library.Multiset"
begin

section \<open>The event loop counts its work\<close>

text \<open>
  What every function of the scheduler and the reactor does to the pending operations and to
  the count of outstanding work, and the invariants of the event loop that follow: nothing
  is lost or done twice, and the count is zero only when nothing is left to do.
\<close>

subsection \<open>Operations that are pending\<close>

fun operation_ids :: "operation \<Rightarrow> nat multiset" where
  "operation_ids (Completion op) = {#op_id op#}"
| "operation_ids (Handler h) = {#h#}"
| "operation_ids _ = {#}"

definition op_ids :: "operation list \<Rightarrow> nat multiset" where
  "op_ids ops = sum_list (map operation_ids ops)"

lemma op_ids_simps [simp]:
  "op_ids [] = {#}" "op_ids (x # ops) = operation_ids x + op_ids ops" "op_ids (ops @ ops') = op_ids ops + op_ids ops'"
  by (simp_all add: op_ids_def)

lemma op_ids_completions [simp]: "op_ids (map Completion ops) = mset (map op_id ops)"
  by (induction ops) auto

lemma op_ids_aborted [simp]: "op_ids (aborted_ops ds) = mset (map op_id (ds_ops ds))"
proof -
  have "op_ids (map (\<lambda>op. Completion (op\<lparr>op_ec := operation_aborted\<rparr>)) ops) = mset (map op_id ops)" for ops
    by (induction ops) auto
  then show ?thesis by (simp add: aborted_ops_def)
qed

definition descriptor_ids :: "io_context \<Rightarrow> nat \<Rightarrow> nat multiset" where
  "descriptor_ids c d = mset (map op_id (ds_ops (descriptors c d)))"

definition pending :: "nat \<Rightarrow> io_context \<Rightarrow> nat multiset" where
  "pending n c = op_ids (sched_queue c) + (\<Sum>t<n. op_ids (private_ops c t)) +
     (\<Sum>d<descriptors_created c. descriptor_ids c d)"

text \<open>The count of work that is not for pending operations.\<close>

definition surplus :: "nat \<Rightarrow> io_context \<Rightarrow> int" where
  "surplus n c = outstanding_work c + (\<Sum>t<n. private_work c t) - int (size (pending n c))"

text \<open>Waking and stopping threads leave the accounts alone.\<close>

definition same_accounts :: "io_context \<Rightarrow> io_context \<Rightarrow> bool" where
  "same_accounts c c' \<longleftrightarrow> outstanding_work c' = outstanding_work c \<and> sched_queue c' = sched_queue c \<and>
     thread_infos c' = thread_infos c \<and> descriptors c' = descriptors c \<and>
     descriptors_created c' = descriptors_created c \<and> live_descriptors c' = live_descriptors c"

lemma wake_same:
  "same_accounts c (wake_one_thread_and_unlock c)" "same_accounts c (event_unlock_and_signal_one c)"
  "same_accounts c (sched_stop c)" "same_accounts c (sched_restart c)" "same_accounts c (event_clear c)"
  "same_accounts c (snd (event_wait_begin c))" "same_accounts c (snd (event_wait_resume c))"
  by (simp_all add: same_accounts_def wake_defs sched_restart_def Let_def)

lemma same_accountsD:
  assumes "same_accounts c c'"
  shows "pending n c' = pending n c" "surplus n c' = surplus n c" "private_work c' = private_work c"
    "private_ops c' = private_ops c" "thread_infos c' = thread_infos c" "descriptors c' = descriptors c"
    "descriptors_created c' = descriptors_created c" "sched_queue c' = sched_queue c"
    "outstanding_work c' = outstanding_work c" "live_descriptors c' = live_descriptors c"
proof -
  show eq: "private_work c' = private_work c" "private_ops c' = private_ops c"
    using assms by (auto simp: same_accounts_def private_work_def private_ops_def fun_eq_iff)
  show "pending n c' = pending n c"
    using assms by (simp add: same_accounts_def pending_def descriptor_ids_def eq)
  then show "surplus n c' = surplus n c" using assms by (simp add: same_accounts_def surplus_def eq)
qed (use assms in \<open>auto simp: same_accounts_def\<close>)

lemmas wake_accounts [simp] = wake_same [THEN same_accountsD(1)] wake_same [THEN same_accountsD(2)]
  wake_same [THEN same_accountsD(3)] wake_same [THEN same_accountsD(4)] wake_same [THEN same_accountsD(5)]
  wake_same [THEN same_accountsD(6)] wake_same [THEN same_accountsD(7)] wake_same [THEN same_accountsD(8)]
  wake_same [THEN same_accountsD(9)] wake_same [THEN same_accountsD(10)]

text \<open>A sum in which one term changes.\<close>

lemma sum_change:
  fixes f g :: "nat \<Rightarrow> 'a :: comm_monoid_add"
  assumes "t < n" and "\<And>i. i \<noteq> t \<Longrightarrow> g i = f i"
  shows "(\<Sum>i<n. g i) + f t = (\<Sum>i<n. f i) + g t"
proof -
  have "(\<Sum>i<n. g i) = g t + (\<Sum>i\<in>{..<n} - {t}. g i)" "(\<Sum>i<n. f i) = f t + (\<Sum>i\<in>{..<n} - {t}. f i)"
    using assms(1) by (simp_all add: sum.remove)
  moreover have "(\<Sum>i\<in>{..<n} - {t}. g i) = (\<Sum>i\<in>{..<n} - {t}. f i)"
    by (rule sum.cong) (use assms(2) in auto)
  ultimately show ?thesis by (simp add: ac_simps)
qed

subsection \<open>The accounts of each function\<close>

lemma pending_sched_queue:
  "pending n (c\<lparr>sched_queue := ops\<rparr>) + op_ids (sched_queue c) = pending n c + op_ids ops"
  by (simp add: pending_def private_ops_def descriptor_ids_def ac_simps)

lemma pending_append [simp]:
  "pending n (c\<lparr>sched_queue := sched_queue c @ ops\<rparr>) = pending n c + op_ids ops"
  using pending_sched_queue [of n "sched_queue c @ ops" c] by (simp add: ac_simps)

lemma work_started_accounts [simp]:
  "pending n (work_started c) = pending n c" "surplus n (work_started c) = surplus n c + 1"
  "thread_infos (work_started c) = thread_infos c" "descriptors (work_started c) = descriptors c"
  "descriptors_created (work_started c) = descriptors_created c" "sched_queue (work_started c) = sched_queue c"
  "live_descriptors (work_started c) = live_descriptors c" "one_thread (work_started c) = one_thread c"
  by (simp_all add: work_started_def pending_def surplus_def private_ops_def private_work_def descriptor_ids_def)

lemma surplus_append [simp]:
  "surplus n (c\<lparr>sched_queue := sched_queue c @ ops\<rparr>) = surplus n c - int (size (op_ids ops))"
  by (simp add: surplus_def private_work_def)

text \<open>A change of one thread's private queue and count, or of one descriptor.\<close>

lemma update_thread_accounts:
  assumes "t < n" and "thread_infos c t = Some ti"
  shows "pending n (update_thread t f c) + op_ids (private_op_queue ti) =
      pending n c + op_ids (private_op_queue (f ti))"
    "surplus n (update_thread t f c) + private_outstanding_work ti + int (size (pending n (update_thread t f c))) =
      surplus n c + private_outstanding_work (f ti) + int (size (pending n c))"
proof -
  have "(\<Sum>i<n. op_ids (private_ops (update_thread t f c) i)) + op_ids (private_ops c t) =
      (\<Sum>i<n. op_ids (private_ops c i)) + op_ids (private_ops (update_thread t f c) t)"
    by (rule sum_change [OF assms(1)]) (simp add: private_ops_def update_thread_def)
  then show "pending n (update_thread t f c) + op_ids (private_op_queue ti) =
      pending n c + op_ids (private_op_queue (f ti))"
    using assms(2) by (simp add: pending_def update_thread_def private_ops_def descriptor_ids_def ac_simps)
  have "(\<Sum>i<n. private_work (update_thread t f c) i) + private_work c t =
      (\<Sum>i<n. private_work c i) + private_work (update_thread t f c) t"
    by (rule sum_change [OF assms(1)]) (simp add: private_work_def update_thread_def)
  then show "surplus n (update_thread t f c) + private_outstanding_work ti + int (size (pending n (update_thread t f c))) =
      surplus n c + private_outstanding_work (f ti) + int (size (pending n c))"
    using assms(2) by (simp add: surplus_def) (simp add: update_thread_def private_work_def)
qed

lemma update_descriptor_accounts:
  assumes "d < descriptors_created c"
  shows "pending n (update_descriptor d f c) + mset (map op_id (ds_ops (descriptors c d))) =
      pending n c + mset (map op_id (ds_ops (f (descriptors c d))))"
    "surplus n (update_descriptor d f c) + int (size (pending n (update_descriptor d f c))) =
      surplus n c + int (size (pending n c))"
proof -
  have "(\<Sum>i<descriptors_created c. descriptor_ids (update_descriptor d f c) i) + descriptor_ids c d =
      (\<Sum>i<descriptors_created c. descriptor_ids c i) + descriptor_ids (update_descriptor d f c) d"
    by (rule sum_change [OF assms]) (simp add: descriptor_ids_def update_descriptor_def)
  then show "pending n (update_descriptor d f c) + mset (map op_id (ds_ops (descriptors c d))) =
      pending n c + mset (map op_id (ds_ops (f (descriptors c d))))"
    by (simp add: pending_def update_descriptor_def private_ops_def descriptor_ids_def ac_simps)
  show "surplus n (update_descriptor d f c) + int (size (pending n (update_descriptor d f c))) =
      surplus n c + int (size (pending n c))"
    by (simp add: surplus_def) (simp add: update_descriptor_def private_work_def)
qed

text \<open>
  The effect of a call by thread \<open>t\<close>: what it adds to and removes from the pending operations,
  what it adds to the surplus; it touches only its own private queue, and keeps the
  private count below what is in it.
\<close>

definition thread_ok :: "thread_info \<Rightarrow> bool" where
  "thread_ok ti \<longleftrightarrow> 0 \<le> private_outstanding_work ti \<and>
     private_outstanding_work ti \<le> int (size (op_ids (private_op_queue ti)))"

definition queued_descriptors :: "operation list \<Rightarrow> nat set" where
  "queued_descriptors ops = {d. Descriptor_operation d \<in> set ops}"

lemma queued_descriptors_simps [simp]:
  "queued_descriptors [] = {}" "queued_descriptors (xs @ ys) = queued_descriptors xs \<union> queued_descriptors ys"
  "queued_descriptors (map Completion ops) = {}" "queued_descriptors (aborted_ops ds) = {}"
  "queued_descriptors (x # xs) = (case x of Descriptor_operation d \<Rightarrow> {d} | _ \<Rightarrow> {}) \<union> queued_descriptors xs"
  by (auto simp: queued_descriptors_def aborted_ops_def split: operation.splits)

definition pool_ok :: "io_context \<Rightarrow> bool" where
  "pool_ok c \<longleftrightarrow> (\<forall>d \<ge> descriptors_created c. ds_ops (descriptors c d) = []) \<and>
     set (live_descriptors c) \<union> set (free_descriptors c) \<subseteq> {..<descriptors_created c} \<and>
     queued_descriptors (sched_queue c) \<union> (\<Union>t. queued_descriptors (private_ops c t)) \<subseteq> {..<descriptors_created c}"

definition effect ::
    "nat \<Rightarrow> nat \<Rightarrow> nat multiset \<Rightarrow> nat multiset \<Rightarrow> int \<Rightarrow> io_context \<Rightarrow> io_context \<Rightarrow> bool" where
  "effect n t added removed k c c' \<longleftrightarrow>
     pending n c' + removed = pending n c + added \<and> surplus n c' = surplus n c + k \<and>
     (\<forall>t'. t' \<noteq> t \<longrightarrow> thread_infos c' t' = thread_infos c t') \<and>
     (case thread_infos c t of None \<Rightarrow> thread_infos c' t = None
      | Some ti \<Rightarrow> thread_ok ti \<longrightarrow> (\<exists>ti'. thread_infos c' t = Some ti' \<and> thread_ok ti')) \<and>
     (pool_ok c \<longrightarrow> pool_ok c') \<and> descriptors_created c \<le> descriptors_created c'"

lemma effect_trans:
  assumes "effect n t a1 r1 k1 c1 c2" and "effect n t a2 r2 k2 c2 c3"
  shows "effect n t (a1 + a2) (r1 + r2) (k1 + k2) c1 c3"
proof -
  have "pending n c3 + (r1 + r2) = pending n c1 + (a1 + a2)"
  proof -
    have "pending n c3 + (r1 + r2) = (pending n c3 + r2) + r1" by (simp add: ac_simps)
    also have "\<dots> = (pending n c2 + r1) + a2" using assms(2) by (simp add: effect_def ac_simps)
    finally show ?thesis using assms(1) by (simp add: effect_def ac_simps)
  qed
  with assms show ?thesis unfolding effect_def by (auto split: option.splits)
qed

lemma effect_same: "same_accounts c c' \<Longrightarrow> free_descriptors c' = free_descriptors c \<Longrightarrow> effect n t {#} {#} 0 c c'"
  by (auto simp: effect_def same_accountsD pool_ok_def split: option.splits)

lemma free_wake [simp]:
  "free_descriptors (wake_one_thread_and_unlock c) = free_descriptors c"
  "free_descriptors (sched_stop c) = free_descriptors c" "free_descriptors (sched_restart c) = free_descriptors c"
  by (simp_all add: wake_defs sched_restart_def Let_def)

lemmas effect_wake = effect_same [OF wake_same(1) free_wake(1)]
lemmas effect_stop = effect_same [OF wake_same(3) free_wake(2)]
lemmas effect_restart = effect_same [OF wake_same(4) free_wake(3)]

lemma effect_weaken: "effect n t a r k c c' \<Longrightarrow> a = a' \<Longrightarrow> r = r' \<Longrightarrow> k = k' \<Longrightarrow> effect n t a' r' k' c c'"
  by simp

lemma pool_ok_frame:
  assumes "descriptors c' = descriptors c" "descriptors_created c' = descriptors_created c"
    "live_descriptors c' = live_descriptors c" "free_descriptors c' = free_descriptors c"
    "sched_queue c' = sched_queue c" "private_ops c' = private_ops c"
  shows "pool_ok c' = pool_ok c"
  using assms by (simp add: pool_ok_def)

lemma effect_work_started: "effect n t {#} {#} 1 c (work_started c)"
proof -
  have "pool_ok (work_started c) = pool_ok c"
    by (rule pool_ok_frame) (simp_all add: work_started_def private_ops_def fun_eq_iff)
  then show ?thesis by (auto simp: effect_def split: option.splits)
qed

lemma effect_append: "queued_descriptors ops = {} \<Longrightarrow> effect n t (op_ids ops) {#} (- int (size (op_ids ops))) c (c\<lparr>sched_queue := sched_queue c @ ops\<rparr>)"
  by (auto simp: effect_def pool_ok_def private_ops_def split: option.splits)

lemma effect_update_thread:
  assumes "t < n" and "thread_infos c t = Some ti"
    and "op_ids (private_op_queue (f ti)) = op_ids (private_op_queue ti) + a"
    and "private_outstanding_work (f ti) = private_outstanding_work ti + k"
    and "thread_ok ti \<Longrightarrow> thread_ok (f ti)"
    and "queued_descriptors (private_op_queue (f ti)) \<subseteq> queued_descriptors (private_op_queue ti)"
  shows "effect n t a {#} (k - int (size a)) c (update_thread t f c)"
proof -
  have p: "pending n (update_thread t f c) = pending n c + a"
    using update_thread_accounts(1) [OF assms(1,2), of f] assms(3) by (simp add: ac_simps)
  moreover have "surplus n (update_thread t f c) = surplus n c + (k - int (size a))"
    using update_thread_accounts(2) [OF assms(1,2), of f] p assms(4) by simp
  moreover have "pool_ok (update_thread t f c)" if "pool_ok c"
  proof -
    have "queued_descriptors (private_ops (update_thread t f c) t') \<subseteq> queued_descriptors (private_ops c t')" for t'
      using assms(2,6) by (simp add: update_thread_def private_ops_def)
    then show ?thesis using that by (fastforce simp: pool_ok_def update_thread_def)
  qed
  ultimately show ?thesis using assms(2,5) by (auto simp: effect_def update_thread_def)
qed

lemma post_immediate_effect:
  assumes "t < n" and "operation_ids op = {#i#}"
  shows "effect n t {#i#} {#} 0 c (post_immediate_completion t op is_cont c)"
proof (cases "(one_thread c \<or> is_cont) \<and> thread_infos c t \<noteq> None")
  case True
  then obtain ti where ti: "thread_infos c t = Some ti" by auto
  have "queued_descriptors [op] = {}" using assms(2) by (cases op) auto
  then show ?thesis using True effect_update_thread [OF assms(1) ti, where a = "{#i#}" and k = 1] assms(2)
    by (simp add: post_immediate_completion_def thread_ok_def)
next
  case False
  have "queued_descriptors [op] = {}" using assms(2) by (cases op) auto
  then have "effect n t ({#} + {#i#}) ({#} + {#}) (1 + (-1)) c ((work_started c)\<lparr>sched_queue := sched_queue (work_started c) @ [op]\<rparr>)"
    by (intro effect_trans [OF effect_work_started])
      (use effect_append [where n = n and t = t and ops = "[op]" and c = "work_started c"] assms(2) in simp)
  from effect_trans [OF this effect_wake] False show ?thesis
    by (auto simp: post_immediate_completion_def Let_def)
qed

lemma post_deferred_effect:
  assumes "t < n" and "queued_descriptors ops = {}"
  shows "effect n t (op_ids ops) {#} (- int (size (op_ids ops))) c (post_deferred_completions t ops c)"
proof (cases "ops = [] \<or> one_thread c \<and> thread_infos c t \<noteq> None")
  case True
  then consider "ops = []" | ti where "ops \<noteq> []" "one_thread c" "thread_infos c t = Some ti" by auto
  then show ?thesis
  proof cases
    case 1
    then show ?thesis using effect_same [of c c n t]
      by (simp add: post_deferred_completions_def same_accounts_def)
  next
    case 2
    then show ?thesis using effect_update_thread [OF assms(1) 2(3), where a = "op_ids ops" and k = 0] assms(2)
      by (simp add: post_deferred_completions_def thread_ok_def)
  qed
next
  case False
  from effect_trans [OF effect_append [OF assms(2)] effect_wake] False show ?thesis
    by (auto simp: post_deferred_completions_def)
qed


abbreviation ids_of :: "descriptor_state \<Rightarrow> nat multiset" where
  "ids_of ds \<equiv> image_mset op_id (mset (ds_ops ds))"

lemma effect_update_descriptor:
  assumes "d < descriptors_created c" and "descriptors c d = ds"
  shows "effect n t (ids_of (f ds)) (ids_of ds) (int (size (ids_of ds)) - int (size (ids_of (f ds))))
    c (update_descriptor d f c)"
proof -
  note a = update_descriptor_accounts [OF assms(1), of n f, unfolded mset_map]
  have "size (pending n (update_descriptor d f c)) + size (ids_of ds) = size (pending n c) + size (ids_of (f ds))"
    using arg_cong [OF a(1), of size] assms(2) by (simp only: size_union)
  then have "surplus n (update_descriptor d f c) =
      surplus n c + (int (size (ids_of ds)) - int (size (ids_of (f ds))))"
    using a(2) by linarith
  then show ?thesis using a(1) assms
    by (auto simp: effect_def) (auto simp: update_descriptor_def pool_ok_def private_ops_def split: option.splits)
qed

text \<open>The same operations added and removed cancel out.\<close>

lemma effect_net: "effect n t (a + x) (r + x) k c c' \<Longrightarrow> effect n t a r k c c'"
  by (auto simp: effect_def ac_simps)

text \<open>Changes of a descriptor that leave its queues alone.\<close>

inductive flags_step :: "nat \<Rightarrow> io_context \<Rightarrow> io_context \<Rightarrow> bool" for d c where
  flags_refl [intro]: "flags_step d c c"
| flags_update [intro]: "flags_step d c c1 \<Longrightarrow> (\<And>ds. op_queue (f ds) = op_queue ds) \<Longrightarrow>
    flags_step d c (update_descriptor d f c1)"

lemma update_descriptor_simps [simp]:
  "outstanding_work (update_descriptor d f c) = outstanding_work c"
  "thread_infos (update_descriptor d f c) = thread_infos c" "one_thread (update_descriptor d f c) = one_thread c"
  "descriptors_created (update_descriptor d f c) = descriptors_created c"
  "sched_queue (update_descriptor d f c) = sched_queue c"
  "live_descriptors (update_descriptor d f c) = live_descriptors c"
  "free_descriptors (update_descriptor d f c) = free_descriptors c"
  "descriptors (update_descriptor d f c) d' = (if d' = d then f (descriptors c d) else descriptors c d')"
  by (simp_all add: update_descriptor_def)

lemma effect_descriptor_flags:
  assumes "d < descriptors_created c" and "\<And>ds. op_queue (f ds) = op_queue ds"
  shows "effect n t {#} {#} 0 c (update_descriptor d f c)"
proof -
  have "ds_ops (f ds) = ds_ops ds" for ds by (simp add: ds_ops_def assms(2))
  with effect_update_descriptor [OF assms(1) refl, of n t f] show ?thesis
    using effect_net [where a = "{#}" and r = "{#}"] by simp
qed

lemma effect_refl: "effect n t {#} {#} 0 c c"
  by (rule effect_same) (simp_all add: same_accounts_def)

lemma flags_step_simps:
  assumes "flags_step d c c'"
  shows "outstanding_work c' = outstanding_work c \<and> thread_infos c' = thread_infos c \<and>
    descriptors_created c' = descriptors_created c \<and> sched_queue c' = sched_queue c"
  using assms by induction auto

lemma flags_effect: "flags_step d c c' \<Longrightarrow> d < descriptors_created c \<Longrightarrow> effect n t {#} {#} 0 c c'"
proof (induction rule: flags_step.induct)
  case (flags_update c1 f)
  then have "d < descriptors_created c1" using flags_step_simps by simp
  from effect_trans [OF flags_update.IH [OF flags_update.prems] effect_descriptor_flags [OF this]]
  show ?case using flags_update by simp
qed (rule effect_refl)

lemma cancel_effect:
  assumes "t < n" and "\<And>d. data = Some d \<Longrightarrow> d < descriptors_created c"
  shows "effect n t {#} {#} 0 c (cancel_ops t data c)"
proof (cases data)
  case None
  then show ?thesis using effect_same [of c c n t] by (simp add: cancel_ops_def same_accounts_def)
next
  case (Some d)
  have e: "ids_of (ds\<lparr>op_queue := no_ops\<rparr>) = {#}" for ds by (simp add: ds_ops_def no_ops_def)
  note effect_trans [OF effect_update_descriptor [OF assms(2) [OF Some] refl, of n t "\<lambda>ds. ds\<lparr>op_queue := no_ops\<rparr>"]
      post_deferred_effect [OF assms(1), of "aborted_ops (descriptors c d)"]]
  then show ?thesis using Some e by (simp add: cancel_ops_def effect_net [where a = "{#}" and r = "{#}"] Let_def)
qed


lemma ids_push_op [simp]:
  "ids_of (push_op ty op ds) = ids_of ds + {#op_id op#}" "length (ds_ops (push_op ty op ds)) = Suc (length (ds_ops ds))"
  by (cases ty; simp add: push_op_def ds_ops_def)+

lemma enqueue_effect:
  assumes "d < descriptors_created c"
  shows "effect n t {#op_id op#} {#} 0 c (work_started (update_descriptor d (push_op ty op) c))"
proof (rule effect_net [where x = "ids_of (descriptors c d)"])
  note e = effect_trans [OF effect_update_descriptor [OF assms refl, of n t "push_op ty op"] effect_work_started]
  show "effect n t ({#op_id op#} + ids_of (descriptors c d)) ({#} + ids_of (descriptors c d)) 0 c
      (work_started (update_descriptor d (push_op ty op) c))"
    by (rule effect_weaken [OF e]) simp_all
qed

text \<open>An operation that is started is posted, or put into the queue of its descriptor.\<close>

definition accepted ::
    "nat \<Rightarrow> op_type \<Rightarrow> nat \<Rightarrow> reactor_op \<Rightarrow> bool \<Rightarrow> io_context \<Rightarrow> io_context \<Rightarrow> bool" where
  "accepted t ty d op is_cont c c' \<longleftrightarrow> (\<exists>op' c1. op_id op' = op_id op \<and> flags_step d c c1 \<and>
     (c' = post_immediate_completion t (Completion op') is_cont c1 \<or>
      c' = work_started (update_descriptor d (push_op ty op') c1)))"

lemma accepted_post: "op_id op' = op_id op \<Longrightarrow> flags_step d c c1 \<Longrightarrow>
    accepted t ty d op is_cont c (post_immediate_completion t (Completion op') is_cont c1)"
  and accepted_enqueue: "op_id op' = op_id op \<Longrightarrow> flags_step d c c1 \<Longrightarrow>
    accepted t ty d op is_cont c (work_started (update_descriptor d (push_op ty op') c1))"
  by (auto simp: accepted_def)

lemmas accepted_intros = accepted_post accepted_enqueue flags_refl flags_update [OF flags_refl]

lemma start_op_accepted:
  assumes "start_op t ty fd (Some d) op is_cont spec c w = Some (c', w')"
  shows "accepted t ty d op is_cont c c'"
proof -
  let ?ds = "descriptors c d"
  note s = assms [unfolded start_op_def, simplified]
  show ?thesis
  proof (cases "ds_shutdown ?ds \<or> op_queue ?ds ty \<noteq> []")
    case True
    with s show ?thesis by (auto simp: Let_def split: if_splits intro!: accepted_intros)
  next
    case queue: False
    show ?thesis
    proof (cases "spec \<and> (ty \<noteq> Read_op \<or> op_queue ?ds Except_op = [])")
      case True
      obtain status op1 w1 where p:
          "(if try_speculative ?ds ty then perform op w else Some ((Op_not_done, op), w)) = Some ((status, op1), w1)"
        using s queue True by (auto simp: Let_def split: bind_split_asm)
      then have "op_id op1 = op_id op" by (auto split: if_splits dest: perform_id)
      with s queue True p show ?thesis
        by (simp add: Let_def split: if_splits bind_split_asm)
          (auto intro!: accepted_intros split: if_splits)
    next
      case False
      with s queue show ?thesis
        by (simp add: Let_def split: if_splits bind_split_asm) (auto intro!: accepted_intros)
    qed
  qed
qed

lemma accepted_effect:
  assumes "accepted t ty d op is_cont c c'" and "t < n" and "d < descriptors_created c"
  shows "effect n t {#op_id op#} {#} 0 c c'"
proof -
  obtain op' c1 where o: "op_id op' = op_id op" and f: "flags_step d c c1"
    and c': "c' = post_immediate_completion t (Completion op') is_cont c1 \<or>
      c' = work_started (update_descriptor d (push_op ty op') c1)"
    using assms(1) by (auto simp: accepted_def)
  have d: "d < descriptors_created c1" using flags_step_simps [OF f] assms(3) by simp
  have "effect n t {#op_id op#} {#} 0 c1 c'"
    using c'
  proof
    assume "c' = post_immediate_completion t (Completion op') is_cont c1"
    then show ?thesis by (simp add: post_immediate_effect [OF assms(2)] o)
  next
    assume "c' = work_started (update_descriptor d (push_op ty op') c1)"
    then show ?thesis using enqueue_effect [OF d, of n t op' ty] by (simp add: o)
  qed
  from effect_trans [OF flags_effect [OF f assms(3)] this] show ?thesis by simp
qed


lemma allocate_effect:
  assumes "pool_ok c" and "allocate_descriptor_state c = (d, c')"
  shows "effect n t {#} {#} 0 c c'" "d < descriptors_created c'"
proof -
  have "descriptors c' = descriptors c" "outstanding_work c' = outstanding_work c" "sched_queue c' = sched_queue c"
    and infos: "thread_infos c' = thread_infos c"
    and created: "descriptors_created c' = descriptors_created c \<or>
      descriptors_created c' = Suc (descriptors_created c)"
    and d: "d < descriptors_created c'" and pool: "pool_ok c'"
    using assms by (fastforce simp: allocate_descriptor_state_def pool_ok_def private_ops_def split: list.splits)+
  moreover have "descriptor_ids c (descriptors_created c) = {#}"
    using assms(1) by (simp add: descriptor_ids_def pool_ok_def)
  ultimately have p: "pending n c' = pending n c"
    by (auto simp: pending_def private_ops_def descriptor_ids_def)
  then have "surplus n c' = surplus n c"
    using infos \<open>outstanding_work c' = outstanding_work c\<close> by (simp add: surplus_def private_work_def)
  with p infos pool created show "effect n t {#} {#} 0 c c'" by (auto simp: effect_def split: option.splits)
  show "d < descriptors_created c'" by (rule d)
qed

lemma register_flags:
  assumes "register_descriptor fd c w = Some ((err, d), c', w')" and "allocate_descriptor_state c = (d', c1)"
  shows "d' = d \<and> flags_step d c1 c'"
  using assms by (auto simp: register_descriptor_def Let_def init_descriptor_def split: bind_split_asm if_splits
      intro!: flags_update flags_refl)

lemma register_effect:
  assumes "register_descriptor fd c w = Some ((err, d), c', w')" and "pool_ok c"
  shows "effect n t {#} {#} 0 c c'"
proof -
  obtain d' c1 where a: "allocate_descriptor_state c = (d', c1)" by fastforce
  note f = register_flags [OF assms(1) a]
  from effect_trans [OF allocate_effect(1) [OF assms(2) a] flags_effect] f allocate_effect(2) [OF assms(2) a]
  show ?thesis by fastforce
qed

lemma free_effect: "d < descriptors_created c \<Longrightarrow> effect n t {#} {#} 0 c (free_descriptor_state d c)"
  by (auto simp: effect_def free_descriptor_state_def pending_def surplus_def private_ops_def private_work_def
      descriptor_ids_def pool_ok_def split: option.splits dest: notin_set_remove1)

lemma abort_effect:
  assumes "t < n" and "d < descriptors_created c" and "\<And>ds. op_queue (f ds) = no_ops"
  shows "effect n t {#} {#} 0 c
    (post_deferred_completions t (aborted_ops (descriptors c d)) (update_descriptor d f c))"
proof (rule effect_net)
  have "ds_ops (f ds) = []" for ds using assms(3) by (simp add: ds_ops_def no_ops_def)
  then show "effect n t ({#} + ids_of (descriptors c d)) ({#} + ids_of (descriptors c d)) 0 c
    (post_deferred_completions t (aborted_ops (descriptors c d)) (update_descriptor d f c))"
    by (intro effect_weaken [OF effect_trans [OF effect_update_descriptor [OF assms(2) refl]
            post_deferred_effect [OF assms(1)]]]) simp_all
qed

lemma cleanup_cases:
  "snd (cleanup_descriptor_data data c) = (case data of None \<Rightarrow> c | Some d \<Rightarrow> free_descriptor_state d c)"
  by (simp add: cleanup_descriptor_data_def split: option.splits)

lemma effect_created: "effect n t a r k c c' \<Longrightarrow> pool_ok c \<Longrightarrow> pool_ok c'"
  by (simp add: effect_def)

lemma post_deferred_created [simp]:
  "descriptors_created (post_deferred_completions t ops c) = descriptors_created c"
  by (simp add: post_deferred_completions_def update_thread_def)

lemma deregister_effect:
  assumes "deregister_descriptor t fd (Some d) closing c w = Some (data, c', w')"
    and "t < n" and "d < descriptors_created c"
  shows "effect n t {#} {#} 0 c (snd (cleanup_descriptor_data data c'))"
proof (cases "ds_shutdown (descriptors c d)")
  case True
  then show ?thesis using assms(1) by (simp add: deregister_descriptor_def cleanup_cases effect_refl)
next
  case False
  let ?f = "\<lambda>ds. ds\<lparr>op_queue := no_ops, ds_descriptor := -1, ds_shutdown := True\<rparr>"
  have r: "data = Some d" "c' = post_deferred_completions t (aborted_ops (descriptors c d)) (update_descriptor d ?f c)"
    using assms(1) False by (auto simp: deregister_descriptor_def Let_def split: bind_split_asm if_splits)
  have e: "effect n t {#} {#} 0 c c'" unfolding r(2) by (rule abort_effect [OF assms(2,3)]) simp
  have "d < descriptors_created c'" using assms(3) by (simp add: r(2))
  from effect_trans [OF e free_effect [OF this]] show ?thesis by (simp add: cleanup_cases r(1))
qed

text \<open>Performing operations: those that finish leave their queue, the others stay.\<close>

lemma perform_queue_ids:
  "perform_queue ops w = Some ((fin, rest, ex), w') \<Longrightarrow> map op_id fin @ map op_id rest = map op_id ops"
  by (induction ops arbitrary: w fin rest ex w')
    (auto split: bind_split_asm op_status.splits dest!: perform_id)

lemma perform_type_ids:
  assumes "perform_type ty events ds w = Some ((fin, ds'), w')"
  shows "image_mset op_id (mset fin) + ids_of ds' = ids_of ds"
proof -
  have "mset (map op_id xs) = mset (map op_id ys) + mset (map op_id zs)" if "map op_id ys @ map op_id zs = map op_id xs"
    for xs ys zs :: "reactor_op list" using that by (metis mset_append)
  from this [OF perform_queue_ids] show ?thesis
    using assms by (cases ty) (auto simp: perform_type_def ds_ops_def ac_simps split: if_splits bind_split_asm)
qed

lemma perform_types_ids:
  assumes "perform_types events ds w = Some ((fin, ds'), w')"
  shows "image_mset op_id (mset fin) + ids_of ds' = ids_of ds"
  using assms
  by (auto simp: perform_types_def ac_simps split: bind_split_asm dest!: perform_type_ids)

lemma perform_io_effect:
  assumes "perform_io t d events c w = Some (Some op, c', w')" and "t < n" and "d < descriptors_created c"
  shows "effect n t {#} {#op_id op#} 1 c c'"
proof -
  obtain ops ds w1 where p: "perform_types events (descriptors c d) w = Some ((op # ops, ds), w1)"
    and c': "c' = post_deferred_completions t (map Completion ops) (update_descriptor d (\<lambda>_. ds) c)"
    using assms(1) by (auto simp: perform_io_def Let_def split: bind_split_asm list.splits)
  have ids: "ids_of (descriptors c d) = {#op_id op#} + (image_mset op_id (mset ops) + ids_of ds)"
    using perform_types_ids [OF p] by simp
  have s: "size (ids_of (descriptors c d)) = 1 + (length ops + size (ids_of ds))" unfolding ids by simp
  show ?thesis unfolding c'
  proof (rule effect_net [where x = "image_mset op_id (mset ops) + ids_of ds"])
    note e = effect_trans [OF effect_update_descriptor [OF assms(3) refl, of n t "\<lambda>_. ds"]
        post_deferred_effect [OF assms(2), of "map Completion ops"]]
    show "effect n t ({#} + (image_mset op_id (mset ops) + ids_of ds))
        ({#op_id op#} + (image_mset op_id (mset ops) + ids_of ds)) 1 c
        (post_deferred_completions t (map Completion ops) (update_descriptor d (\<lambda>_. ds) c))"
      by (rule effect_weaken [OF e]) (use ids s in \<open>simp_all add: ac_simps\<close>)
  qed
qed

text \<open>Without a finished operation the thread makes up for the work it is going to count as finished.\<close>

lemma perform_io_none:
  assumes "perform_io t d events c w = Some (None, c', w')" and "t < n" and "d < descriptors_created c"
    and "thread_infos c t = Some new_thread_info"
  shows "pending n c' = pending n c" "surplus n c' = surplus n c + 1" "pool_ok c \<Longrightarrow> pool_ok c'"
    "thread_infos c' = (thread_infos c)(t := Some \<lparr>private_op_queue = [], private_outstanding_work = 1\<rparr>)"
proof -
  obtain ds w1 where p: "perform_types events (descriptors c d) w = Some (([], ds), w1)"
    and c': "c' = compensating_work_started t (update_descriptor d (\<lambda>_. ds) c)"
    using assms(1) by (auto simp: perform_io_def Let_def split: bind_split_asm list.splits)
  let ?c = "update_descriptor d (\<lambda>_. ds) c"
  have "effect n t {#} {#} 0 c ?c"
  proof (rule effect_net [where x = "ids_of ds"])
    have i: "ids_of (descriptors c d) = ids_of ds" using perform_types_ids [OF p] by simp
    show "effect n t ({#} + ids_of ds) ({#} + ids_of ds) 0 c ?c"
      by (rule effect_weaken [OF effect_update_descriptor [OF assms(3) refl]])
        (simp_all add: i del: size_image_mset)
  qed
  then have c: "pending n ?c = pending n c" "surplus n ?c = surplus n c" "pool_ok c \<Longrightarrow> pool_ok ?c"
    by (simp_all add: effect_def)
  have ti: "thread_infos ?c t = Some new_thread_info" using assms(4) by simp
  note a = update_thread_accounts [OF assms(2) ti,
      of "\<lambda>ti. ti\<lparr>private_outstanding_work := private_outstanding_work ti + 1\<rparr>",
      folded compensating_work_started_def]
  show "pending n c' = pending n c" using a(1) c by (simp add: c' new_thread_info_def compensating_work_started_def)
  then show "surplus n c' = surplus n c + 1"
    using a(2) c by (simp add: c' new_thread_info_def compensating_work_started_def)
  show "thread_infos c' = (thread_infos c)(t := Some \<lparr>private_op_queue = [], private_outstanding_work = 1\<rparr>)"
    using assms(4) by (simp add: c' compensating_work_started_def update_thread_def new_thread_info_def)
  show "pool_ok c \<Longrightarrow> pool_ok c'"
  proof -
    have "private_ops c' = private_ops ?c"
      using ti by (auto simp: c' compensating_work_started_def update_thread_def private_ops_def fun_eq_iff)
    then have "pool_ok c' = pool_ok ?c"
      by (intro pool_ok_frame) (simp_all add: c' compensating_work_started_def update_thread_def)
    then show "pool_ok c \<Longrightarrow> pool_ok c'" using c(3) by simp
  qed
qed

text \<open>The task only puts descriptors into the queue.\<close>

lemma reactor_run_step:
  assumes "reactor_run evs (ops, c) = (ops', c')"
    and "\<forall>d e. (Descriptor_events d, e) \<in> set evs \<longrightarrow> d < descriptors_created c"
  shows "op_ids ops' = op_ids ops \<and> effect n t {#} {#} 0 c c' \<and> thread_infos c' = thread_infos c \<and>
    sched_queue c' = sched_queue c"
  using assms unfolding reactor_run_def
proof (induction evs arbitrary: ops c)
  case Nil
  then show ?case by (simp add: effect_refl)
next
  case (Cons ev evs)
  obtain ops1 c1 where d: "dispatch_event ev (ops, c) = (ops1, c1)" by fastforce
  obtain src e where ev: "ev = (src, e)" by fastforce
  have one: "op_ids ops1 = op_ids ops \<and> effect n t {#} {#} 0 c c1 \<and> thread_infos c1 = thread_infos c \<and>
      sched_queue c1 = sched_queue c \<and> descriptors_created c1 = descriptors_created c"
    using d Cons.prems(2)
    by (cases src) (auto simp: ev effect_refl split: if_splits intro!: effect_descriptor_flags)
  have "op_ids ops' = op_ids ops1 \<and> effect n t {#} {#} 0 c1 c' \<and> thread_infos c' = thread_infos c1 \<and>
      sched_queue c' = sched_queue c1"
    by (rule Cons.IH) (use Cons.prems d one in auto)
  with one effect_trans [of n t "{#}" "{#}" 0 c c1 "{#}" "{#}" 0 c'] show ?case by auto
qed

lemma update_thread_same: "thread_infos c t = Some ti \<Longrightarrow> f ti = ti \<Longrightarrow> update_thread t f c = c"
  by (simp add: update_thread_def fun_upd_idem)

subsection \<open>The invariants\<close>

definition due :: "phase \<Rightarrow> int" where
  "due p = (case p of Executing _ \<Rightarrow> 1 | _ \<Rightarrow> 0)"

definition running :: "phase \<Rightarrow> nat multiset" where
  "running p = (case p of Executing (Some h) \<Rightarrow> {#h#} | _ \<Rightarrow> {#})"

definition phase_fits :: "io_context \<Rightarrow> nat \<Rightarrow> phase \<Rightarrow> bool" where
  "phase_fits c t p \<longleftrightarrow> (case p of
     Outside \<Rightarrow> thread_infos c t = None
   | Performing d _ \<Rightarrow> thread_infos c t = Some new_thread_info \<and> d < descriptors_created c
   | Executing None \<Rightarrow> thread_infos c t = Some \<lparr>private_op_queue = [], private_outstanding_work = 1\<rparr>
   | Executing (Some _) \<Rightarrow> (\<exists>ti. thread_infos c t = Some ti \<and> thread_ok ti)
   | _ \<Rightarrow> thread_infos c t = Some new_thread_info)"

definition loop_inv :: "nat \<Rightarrow> loop_state \<Rightarrow> bool" where
  "loop_inv n s \<longleftrightarrow> pool_ok (ctx s) \<and> (\<forall>t<n. phase_fits (ctx s) t (phases s t)) \<and>
     surplus n (ctx s) = int (guards s) + (\<Sum>t<n. due (phases s t)) \<and>
     mset (started s) = mset (completed s) + pending n (ctx s) + (\<Sum>t<n. running (phases s t))"

lemma phase_fits_other:
  "phase_fits c t p \<Longrightarrow> thread_infos c' t = thread_infos c t \<Longrightarrow>
     descriptors_created c \<le> descriptors_created c' \<Longrightarrow> phase_fits c' t p"
  by (auto simp: phase_fits_def split: phase.splits option.splits)

text \<open>What has to be checked of a step of one thread.\<close>

lemma loop_inv_step:
  assumes inv: "loop_inv n s" and t: "t < n"
    and pend: "pending n (ctx s') + removed = pending n (ctx s) + added"
    and surp: "surplus n (ctx s') = surplus n (ctx s) + k"
    and others: "\<And>t'. t' \<noteq> t \<Longrightarrow> thread_infos (ctx s') t' = thread_infos (ctx s) t'"
    and created: "descriptors_created (ctx s) \<le> descriptors_created (ctx s')" and pool: "pool_ok (ctx s')"
    and phases: "phases s' = (phases s)(t := p)" and ok: "phase_fits (ctx s') t p"
    and lists: "started s' = started s @ xs" "completed s' = completed s @ ys"
    and guards: "int (guards s') + due p = int (guards s) + k + due (phases s t)"
    and ids: "mset xs + removed + running (phases s t) = mset ys + added + running p"
  shows "loop_inv n s'"
proof -
  let ?R = "\<Sum>t<n. running (phases s t)" and ?R' = "\<Sum>t<n. running (phases s' t)"
  have due: "(\<Sum>t<n. due (phases s' t)) + due (phases s t) = (\<Sum>t<n. due (phases s t)) + due p"
    using sum_change [OF t, of "\<lambda>t. due (phases s' t)" "\<lambda>t. due (phases s t)"] phases by simp
  have run: "?R' + running (phases s t) = ?R + running p"
    using sum_change [OF t, of "\<lambda>t. running (phases s' t)" "\<lambda>t. running (phases s t)"] phases by simp
  have "surplus n (ctx s') = int (guards s') + (\<Sum>t<n. due (phases s' t))"
    using inv surp guards due by (simp add: loop_inv_def)
  moreover have "phase_fits (ctx s') t' (phases s' t')" if "t' < n" for t'
    using inv that ok phase_fits_other [OF _ others created] by (simp add: loop_inv_def phases)
  moreover have "mset (started s') = mset (completed s') + pending n (ctx s') + ?R'"
  proof -
    have "mset (started s') + (removed + running (phases s t)) =
        mset (completed s) + (pending n (ctx s) + added) + (?R + running p) + mset ys"
      using inv ids by (simp add: loop_inv_def lists ac_simps)
    also have "\<dots> = (mset (completed s') + pending n (ctx s') + ?R') + (removed + running (phases s t))"
      unfolding pend [symmetric] run [symmetric] by (simp add: lists ac_simps)
    finally show ?thesis by simp
  qed
  ultimately show ?thesis using pool by (simp add: loop_inv_def)
qed

text \<open>Calls with an effect, made by a thread that may call them.\<close>

lemma loop_inv_act:
  assumes inv: "loop_inv n s" and t: "t < n"
    and may: "phases s t = Outside \<or> (\<exists>h. phases s t = Executing (Some h))"
    and eff: "effect n t (mset xs) {#} k (ctx s) (ctx s')"
    and s': "phases s' = phases s" "started s' = started s @ xs" "completed s' = completed s"
    and guards: "int (guards s') = int (guards s) + k"
  shows "loop_inv n s'"
proof (rule loop_inv_step [OF inv t, where p = "phases s t" and removed = "{#}" and added = "mset xs" and ys = "[]"])
  have "phase_fits (ctx s) t (phases s t)" using inv t by (simp add: loop_inv_def)
  then show "phase_fits (ctx s') t (phases s t)"
    using may eff by (auto simp: phase_fits_def effect_def split: option.splits)
  show "pool_ok (ctx s')" using inv eff by (simp add: loop_inv_def effect_def)
qed (use eff s' guards in \<open>simp_all add: effect_def\<close>)

lemma effect_work_count: "effect n t {#} {#} k c (c\<lparr>outstanding_work := outstanding_work c + k\<rparr>)"
proof -
  have "pool_ok (c\<lparr>outstanding_work := outstanding_work c + k\<rparr>) = pool_ok c"
    by (rule pool_ok_frame) (simp_all add: private_ops_def fun_eq_iff)
  then show ?thesis
    by (auto simp: effect_def pending_def surplus_def private_ops_def private_work_def descriptor_ids_def
        split: option.splits)
qed

lemma effect_work_finished: "effect n t {#} {#} (-1) c (work_finished c)"
proof -
  have "effect n t {#} {#} (-1) c (c\<lparr>outstanding_work := outstanding_work c - 1\<rparr>)"
    using effect_work_count [of n t "-1" c] by simp
  note e = this effect_weaken [OF effect_trans [OF this effect_stop], of "{#}" "{#}" "-1"]
  show ?thesis unfolding work_finished_def Let_def
    by (split if_split, intro conjI impI) (use e in simp_all)
qed

lemma live_created: "loop_inv n s \<Longrightarrow> d \<in> set (live_descriptors (ctx s)) \<Longrightarrow> d < descriptors_created (ctx s)"
  by (auto simp: loop_inv_def pool_ok_def)

lemma start_op_effect:
  assumes "start_op t ty fd data op is_cont spec c w = Some (c', w')" and "t < n"
    and "\<And>d. data = Some d \<Longrightarrow> d < descriptors_created c"
  shows "effect n t {#op_id op#} {#} 0 c c'"
proof (cases data)
  case None
  then have "c' = post_immediate_completion t (Completion (op\<lparr>op_ec := bad_descriptor\<rparr>)) is_cont c"
    using assms(1) by (simp add: start_op_def)
  then show ?thesis by (simp add: post_immediate_effect [OF assms(2)])
next
  case (Some d)
  then show ?thesis using accepted_effect [OF start_op_accepted assms(2)] assms by blast
qed

lemma act_inv:
  assumes inv: "loop_inv n s" and t: "t < n"
    and may: "phases s t = Outside \<or> (\<exists>h. phases s t = Executing (Some h))"
    and ok: "action_ok a (ctx s)" and act: "act t a s = Some s'"
  shows "loop_inv n s'"
proof -
  note step = loop_inv_act [OF inv t may]
  show ?thesis
  proof (cases a)
    case (Start_op ty fd data op is_cont spec)
    then obtain c w where c: "start_op t ty fd data op is_cont spec (ctx s) (system s) = Some (c, w)"
      and s': "s' = s\<lparr>ctx := c, system := w, started := started s @ [op_id op]\<rparr>"
      using act by (auto split: bind_split_asm)
    have "effect n t {#op_id op#} {#} 0 (ctx s) c"
      by (rule start_op_effect [OF c t]) (use ok Start_op live_created [OF inv] in simp)
    then show ?thesis by (intro step [where k = 0 and xs = "[op_id op]"]) (simp_all add: s')
  next
    case (Post h is_cont)
    then show ?thesis using act
      by (intro step [where k = 0 and xs = "[h]"]) (auto simp: post_immediate_effect [OF t])
  next
    case (Dispatch h)
    have "effect n t {#h#} {#} 0 (ctx s) (do_dispatch (Handler h) (ctx s))"
      using effect_trans [OF effect_work_started [of n t "ctx s"] effect_trans [OF effect_append [of "[Handler h]"] effect_wake]]
      by (simp add: do_dispatch_def Let_def)
    then show ?thesis using act Dispatch by (intro step [where k = 0 and xs = "[h]"]) auto
  next
    case (Cancel data)
    then have "effect n t {#} {#} 0 (ctx s) (cancel_ops t data (ctx s))"
      using ok live_created [OF inv] by (intro cancel_effect [OF t]) auto
    then show ?thesis using act Cancel by (intro step [where k = 0 and xs = "[]"]) auto
  next
    case (Register fd)
    then obtain err d c w where c: "register_descriptor fd (ctx s) (system s) = Some ((err, d), c, w)"
      and s': "s' = s\<lparr>ctx := c, system := w\<rparr>" using act by (auto split: bind_split_asm)
    have "effect n t {#} {#} 0 (ctx s) c"
      by (rule register_effect [OF c]) (use inv in \<open>simp add: loop_inv_def\<close>)
    then show ?thesis by (intro step [where k = 0 and xs = "[]"]) (simp_all add: s')
  next
    case (Deregister fd d closing)
    then obtain data c w where c: "deregister_descriptor t fd (Some d) closing (ctx s) (system s) = Some (data, c, w)"
      and s': "s' = s\<lparr>ctx := snd (cleanup_descriptor_data data c), system := w\<rparr>"
      using act by (auto split: bind_split_asm)
    have "effect n t {#} {#} 0 (ctx s) (snd (cleanup_descriptor_data data c))"
      by (rule deregister_effect [OF c t]) (use ok Deregister live_created [OF inv] in simp)
    then show ?thesis by (intro step [where k = 0 and xs = "[]"]) (simp_all add: s')
  next
    case Guard_begin
    then show ?thesis using act effect_work_started [of n t "ctx s"]
      by (intro step [where k = 1 and xs = "[]"]) auto
  next
    case Guard_end
    then show ?thesis using act effect_work_finished [of n t "ctx s"]
      by (intro step [where k = "-1" and xs = "[]"]) (auto split: if_splits)
  next
    case Stop
    then show ?thesis using act effect_stop [of n t "ctx s"] by (intro step [where k = 0 and xs = "[]"]) auto
  next
    case Restart
    then show ?thesis using act effect_restart [of n t "ctx s"] by (intro step [where k = 0 and xs = "[]"]) auto
  qed
qed

lemma pool_queue:
  assumes "pool_ok c" and "descriptors c' = descriptors c" "descriptors_created c' = descriptors_created c"
    "live_descriptors c' = live_descriptors c" "free_descriptors c' = free_descriptors c"
    and "queued_descriptors (sched_queue c') \<subseteq> {..<descriptors_created c}"
    and "\<And>t. queued_descriptors (private_ops c' t) \<subseteq> {..<descriptors_created c}"
  shows "pool_ok c'"
  using assms by (auto simp: pool_ok_def)

lemma pool_wake: "same_accounts c c' \<Longrightarrow> free_descriptors c' = free_descriptors c \<Longrightarrow> pool_ok c' = pool_ok c"
  by (rule pool_ok_frame) (simp_all add: same_accountsD)

lemma free_signal [simp]:
  "free_descriptors (event_unlock_and_signal_one c) = free_descriptors c"
  "free_descriptors (event_clear c) = free_descriptors c"
  "free_descriptors (snd (event_wait_begin c)) = free_descriptors c"
  "free_descriptors (snd (event_wait_resume c)) = free_descriptors c"
  by (simp_all add: wake_defs Let_def)

lemmas wake_pool [simp] = wake_same(1) [THEN pool_wake] wake_same(2) [THEN pool_wake] wake_same(3) [THEN pool_wake]
  wake_same(5) [THEN pool_wake] wake_same(6) [THEN pool_wake] wake_same(7) [THEN pool_wake]

text \<open>Taking the first operation from the queue, with whatever waking follows.\<close>

lemma pop_accounts:
  assumes "sched_queue c = x # ops" and "same_accounts (c\<lparr>sched_queue := ops, task_interrupted := b\<rparr>) c'"
    and "free_descriptors c' = free_descriptors c"
  shows "pending n c' + operation_ids x = pending n c" "surplus n c' = surplus n c + int (size (operation_ids x))"
    "thread_infos c' = thread_infos c" "descriptors_created c' = descriptors_created c"
    "pool_ok c \<Longrightarrow> pool_ok c'" "pool_ok c \<Longrightarrow> x = Descriptor_operation d \<Longrightarrow> d < descriptors_created c"
proof -
  let ?c = "c\<lparr>sched_queue := ops, task_interrupted := b\<rparr>"
  have p: "pending n ?c + operation_ids x = pending n c"
    using assms(1) by (simp add: pending_def private_ops_def descriptor_ids_def ac_simps)
  then show "pending n c' + operation_ids x = pending n c" using same_accountsD(1) [OF assms(2)] by simp
  have "size (pending n ?c) + size (operation_ids x) = size (pending n c)"
    using arg_cong [OF p, of size] by simp
  then show "surplus n c' = surplus n c + int (size (operation_ids x))"
    using same_accountsD(2) [OF assms(2), of n] by (simp add: surplus_def private_work_def)
  show "thread_infos c' = thread_infos c" "descriptors_created c' = descriptors_created c"
    using same_accountsD [OF assms(2)] by simp_all
  show "pool_ok c'" if "pool_ok c"
  proof (rule pool_queue [OF that])
    show "queued_descriptors (sched_queue c') \<subseteq> {..<descriptors_created c}"
      using that assms(1) same_accountsD(8) [OF assms(2)] by (auto simp: pool_ok_def)
    show "queued_descriptors (private_ops c' t) \<subseteq> {..<descriptors_created c}" for t
    proof -
      have "private_ops c' = private_ops c"
        using same_accountsD(5) [OF assms(2)] by (simp add: private_ops_def fun_eq_iff)
      then show ?thesis using that by (simp add: pool_ok_def UN_subset_iff)
    qed
  qed (use same_accountsD [OF assms(2)] assms(3) in simp_all)
  show "pool_ok c \<Longrightarrow> x = Descriptor_operation d \<Longrightarrow> d < descriptors_created c"
    using assms(1) by (auto simp: pool_ok_def)
qed

text \<open>The results of one look at the queue.\<close>

lemma do_run_one_cases:
  assumes "do_run_one t c = (p, c')"
  obtains (stopped) "p = Outside" "c' = leave_thread t c"
  | (wait) "p = Looking \<or> p = Sleeping" "same_accounts c c'" "free_descriptors c' = free_descriptors c"
  | (pop) x ops b where "sched_queue c = x # ops"
      "same_accounts (c\<lparr>sched_queue := ops, task_interrupted := b\<rparr>) c'" "free_descriptors c' = free_descriptors c"
      "p = (case x of Task_operation \<Rightarrow> In_task (ops \<noteq> [])
            | Descriptor_operation d \<Rightarrow> Performing d (task_result (descriptors c d))
            | Completion op \<Rightarrow> Executing (Some (op_id op)) | Handler h \<Rightarrow> Executing (Some h))"
proof (cases "stopped c")
  case True
  then show thesis using assms stopped by (simp add: do_run_one_def)
next
  case False
  show thesis
  proof (cases "sched_queue c")
    case Nil
    then have "p = Looking \<or> p = Sleeping" "c' = snd (event_wait_begin (event_clear c))"
      using assms False by (auto simp: do_run_one_def Let_def case_prod_beta split: if_splits)
    moreover have "same_accounts c (snd (event_wait_begin (event_clear c)))"
      by (simp add: same_accounts_def wake_defs)
    ultimately show thesis using wait by simp
  next
    case (Cons x ops)
    let ?c = "c\<lparr>sched_queue := ops\<rparr>"
    let ?wake = "if ops \<noteq> [] \<and> \<not> one_thread c then wake_one_thread_and_unlock ?c else ?c"
    let ?t = "?c\<lparr>task_interrupted := (ops \<noteq> [])\<rparr>"
    have b: "same_accounts (c\<lparr>sched_queue := ops, task_interrupted := task_interrupted c\<rparr>) ?wake"
      "free_descriptors ?wake = free_descriptors c"
      using wake_same(1) [of ?c] by (auto simp: same_accounts_def)
    have t: "same_accounts ?t (if ops \<noteq> [] \<and> \<not> one_thread c then event_unlock_and_signal_one ?t else ?t)"
      "free_descriptors (if ops \<noteq> [] \<and> \<not> one_thread c then event_unlock_and_signal_one ?t else ?t) = free_descriptors c"
      using wake_same(2) [of ?t] by (auto simp: same_accounts_def)
    note r = assms [unfolded do_run_one_def Let_def, simplified Cons False, simplified]
    show thesis
    proof (cases "x = Task_operation")
      case True
      then show thesis using r by (intro pop [OF Cons, of "ops \<noteq> []"]) (use t in \<open>auto split: if_splits\<close>)
    next
      case False
      then have "c' = ?wake"
        "p = (case x of Task_operation \<Rightarrow> In_task (ops \<noteq> [])
            | Descriptor_operation d \<Rightarrow> Performing d (task_result (descriptors c d))
            | Completion op \<Rightarrow> Executing (Some (op_id op)) | Handler h \<Rightarrow> Executing (Some h))"
        using r by (auto split: operation.splits)
      then show thesis using b by (intro pop [OF Cons, of "task_interrupted c"]) simp_all
    qed
  qed
qed

lemma thread_ok_new [simp]: "thread_ok new_thread_info"
  by (simp add: thread_ok_def new_thread_info_def)

text \<open>A thread that enters or leaves the loop has nothing in its private queue.\<close>

lemma fresh_thread_accounts:
  assumes "c' = c\<lparr>thread_infos := (thread_infos c)(t := x)\<rparr>"
    and "thread_infos c t \<in> {None, Some new_thread_info}" and "x \<in> {None, Some new_thread_info}"
  shows "pending n c' = pending n c" "surplus n c' = surplus n c" "pool_ok c' = pool_ok c"
proof -
  have same: "private_ops c' = private_ops c" "private_work c' = private_work c"
    using assms by (auto simp: private_ops_def private_work_def new_thread_info_def fun_eq_iff split: option.splits)
  then show "pending n c' = pending n c" "surplus n c' = surplus n c"
    by (simp_all add: surplus_def pending_def) (simp_all add: assms(1) descriptor_ids_def)
  show "pool_ok c' = pool_ok c" by (rule pool_ok_frame) (use same in \<open>simp_all add: assms(1)\<close>)
qed

lemma thread_phase: "loop_inv n s \<Longrightarrow> t < n \<Longrightarrow> phase_fits (ctx s) t (phases s t)"
  by (simp add: loop_inv_def)

lemma look_inv:
  assumes inv: "loop_inv n s" and t: "t < n" and ph: "phases s t = Looking"
    and look: "do_run_one t (ctx s) = (p, c)"
  shows "loop_inv n (s\<lparr>ctx := c, phases := (phases s)(t := p)\<rparr>)" (is "loop_inv n ?s")
proof -
  have ti: "thread_infos (ctx s) t = Some new_thread_info"
    using thread_phase [OF inv t] ph by (simp add: phase_fits_def)
  have pool: "pool_ok (ctx s)" using inv by (simp add: loop_inv_def)
  note step = loop_inv_step [OF inv t, where s' = ?s and p = p and xs = "[]" and ys = "[]"]
  from look show ?thesis
  proof (cases rule: do_run_one_cases)
    case stopped
    note a = fresh_thread_accounts [OF stopped(2) [unfolded leave_thread_def]]
    then show ?thesis
      by (intro step [where k = 0 and added = "{#}" and removed = "{#}"])
        (use a pool ti ph in \<open>simp_all add: stopped leave_thread_def phase_fits_def due_def running_def\<close>)
  next
    case wait
    note a = same_accountsD [OF wait(2)]
    show ?thesis
      by (intro step [where k = 0 and added = "{#}" and removed = "{#}"])
        (use a wait pool_wake [OF wait(2,3)] pool ti ph in \<open>auto simp: phase_fits_def due_def running_def\<close>)
  next
    case (pop x ops b)
    note a = pop_accounts [OF pop(1-3)]
    show ?thesis
      by (intro step [where k = "int (size (operation_ids x))" and added = "{#}" and removed = "operation_ids x"])
        (use a pop(4) pool ti ph in \<open>auto simp: phase_fits_def due_def running_def split: operation.splits\<close>)
  qed
qed

lemma resume_inv:
  assumes inv: "loop_inv n s" and t: "t < n" and ph: "phases s t = Sleeping"
    and resume: "wait_resume (ctx s) = (p, c)"
  shows "loop_inv n (s\<lparr>ctx := c, phases := (phases s)(t := p)\<rparr>)" (is "loop_inv n ?s")
proof -
  have c: "c = snd (event_wait_resume (ctx s))" "p = Looking \<or> p = Sleeping"
    using resume by (auto simp: wait_resume_def Let_def case_prod_beta split: if_splits)
  have ti: "thread_infos (ctx s) t = Some new_thread_info"
    using thread_phase [OF inv t] ph by (simp add: phase_fits_def)
  have pool: "pool_ok (ctx s)" using inv by (simp add: loop_inv_def)
  show ?thesis
    by (rule loop_inv_step [OF inv t, where p = p and xs = "[]" and ys = "[]" and k = 0 and added = "{#}" and removed = "{#}"])
      (use c pool ti ph in \<open>auto simp: phase_fits_def due_def running_def\<close>)
qed

lemma enter_inv:
  assumes inv: "loop_inv n s" and t: "t < n" and ph: "phases s t = Outside"
    and enter: "run_enter t (ctx s) = (p, c)"
  shows "loop_inv n (s\<lparr>ctx := c, phases := (phases s)(t := p), only_one := once\<rparr>)" (is "loop_inv n ?s")
proof -
  have ti: "thread_infos (ctx s) t = None"
    using thread_phase [OF inv t] ph by (simp add: phase_fits_def)
  have pool: "pool_ok (ctx s)" using inv by (simp add: loop_inv_def)
  note step = loop_inv_step [OF inv t, where s' = ?s and p = p and xs = "[]" and ys = "[]"]
  show ?thesis
  proof (cases "outstanding_work (ctx s) = 0")
    case True
    then show ?thesis
      by (intro step [where k = 0 and added = "{#}" and removed = "{#}"])
        (use enter pool ti ph in \<open>auto simp: run_enter_def phase_fits_def due_def running_def\<close>)
  next
    case False
    then have c: "c = enter_thread t (ctx s)" "p = Looking" using enter by (auto simp: run_enter_def)
    note a = fresh_thread_accounts [OF c(1) [unfolded enter_thread_def]]
    then show ?thesis
      by (intro step [where k = 0 and added = "{#}" and removed = "{#}"])
        (use a pool ti ph in \<open>simp_all add: c enter_thread_def phase_fits_def due_def running_def\<close>)
  qed
qed

lemma perform_inv:
  assumes inv: "loop_inv n s" and t: "t < n" and ph: "phases s t = Performing d events"
    and io: "perform_io t d events (ctx s) (system s) = Some (op, c, w)"
  shows "loop_inv n (s\<lparr>ctx := c, system := w, phases := (phases s)(t := Executing (map_option op_id op))\<rparr>)"
    (is "loop_inv n ?s")
proof -
  have ti: "thread_infos (ctx s) t = Some new_thread_info" and d: "d < descriptors_created (ctx s)"
    using thread_phase [OF inv t] ph by (simp_all add: phase_fits_def)
  have pool: "pool_ok (ctx s)" using inv by (simp add: loop_inv_def)
  note step = loop_inv_step [OF inv t, where s' = ?s and xs = "[]" and ys = "[]" and k = 1 and added = "{#}"
      and p = "Executing (map_option op_id op)"]
  show ?thesis
  proof (cases op)
    case None
    note a = perform_io_none [OF io [unfolded None] t d ti]
    have "descriptors_created c = descriptors_created (ctx s)"
      using io None by (auto simp: perform_io_def Let_def compensating_work_started_def update_thread_def
          split: bind_split_asm list.splits)
    then show ?thesis
      by (intro step [where removed = "{#}"])
        (use a pool ph None in \<open>simp_all add: phase_fits_def due_def running_def\<close>)
  next
    case (Some op')
    note a = perform_io_effect [OF io [unfolded Some] t d]
    show ?thesis
      by (intro step [where removed = "{#op_id op'#}"])
        (use a pool ph ti Some in \<open>auto simp: effect_def phase_fits_def due_def running_def\<close>)
  qed
qed

lemma reactor_run_queued:
  assumes "reactor_run evs (ops, c) = (ops', c')"
    and "\<forall>d e. (Descriptor_events d, e) \<in> set evs \<longrightarrow> d < m" and "queued_descriptors ops \<subseteq> {..<m}"
  shows "queued_descriptors ops' \<subseteq> {..<m}"
  using assms unfolding reactor_run_def
proof (induction evs arbitrary: ops c)
  case (Cons ev evs)
  obtain ops1 c1 where d: "dispatch_event ev (ops, c) = (ops1, c1)" by fastforce
  obtain src e where ev: "ev = (src, e)" by fastforce
  have "queued_descriptors ops1 \<subseteq> {..<m}"
    using d Cons.prems(2,3) by (cases src) (auto simp: ev split: if_splits)
  then show ?case using Cons.prems(1,2) d by (intro Cons.IH [of ops1 c1]) auto
qed simp

text \<open>The task puts the descriptors with events behind the queue, and itself behind them.\<close>

lemma task_return_eq:
  assumes "thread_infos c t = Some new_thread_info"
    and "reactor_run evs ([], if \<exists>e. (Interrupter, e) \<in> set evs then c\<lparr>interrupt_pending := False\<rparr> else c) = (ops, c1)"
    and "thread_infos c1 = thread_infos c"
  shows "task_return t evs c =
    c1\<lparr>task_interrupted := True, sched_queue := sched_queue c1 @ ops @ [Task_operation]\<rparr>"
proof -
  have "private_ops (if \<exists>e. (Interrupter, e) \<in> set evs then c\<lparr>interrupt_pending := False\<rparr> else c) t = []"
    using assms(1) by (simp add: private_ops_def new_thread_info_def)
  then have "task_return t evs c = task_cleanup t (update_thread t (\<lambda>ti. ti\<lparr>private_op_queue := ops\<rparr>) c1)"
    using assms(2) by (simp only: task_return_def Let_def split)
  also have "\<dots> = c1\<lparr>task_interrupted := True, sched_queue := sched_queue c1 @ ops @ [Task_operation],
      thread_infos := (thread_infos c)(t := Some new_thread_info)\<rparr>"
    using assms(1,3) by (simp add: task_cleanup_def Let_def update_thread_def private_ops_def private_work_def
        new_thread_info_def)
  also have "\<dots> = c1\<lparr>task_interrupted := True, sched_queue := sched_queue c1 @ ops @ [Task_operation]\<rparr>"
    using assms(1,3) by (simp add: fun_upd_idem)
  finally show ?thesis .
qed

lemma task_inv:
  assumes inv: "loop_inv n s" and t: "t < n" and ph: "phases s t = In_task b"
    and evs: "\<forall>d e. (Descriptor_events d, e) \<in> set evs \<longrightarrow> d < descriptors_created (ctx s)"
  shows "loop_inv n (s\<lparr>ctx := task_return t evs (ctx s), phases := (phases s)(t := Looking)\<rparr>)" (is "loop_inv n ?s")
proof -
  have ti: "thread_infos (ctx s) t = Some new_thread_info"
    using thread_phase [OF inv t] ph by (simp add: phase_fits_def)
  have pool: "pool_ok (ctx s)" using inv by (simp add: loop_inv_def)
  let ?c = "if \<exists>e. (Interrupter, e) \<in> set evs then ctx s\<lparr>interrupt_pending := False\<rparr> else ctx s"
  obtain ops c1 where run: "reactor_run evs ([], ?c) = (ops, c1)" by fastforce
  have same: "same_accounts (ctx s) ?c" "free_descriptors ?c = free_descriptors (ctx s)"
    by (simp_all add: same_accounts_def)
  have created: "descriptors_created ?c = descriptors_created (ctx s)" by simp
  have e: "op_ids ops = {#}" "effect n t {#} {#} 0 ?c c1" "thread_infos c1 = thread_infos (ctx s)"
    using reactor_run_step [OF run, of n t] evs by auto
  have eff: "effect n t {#} {#} 0 (ctx s) c1" using effect_trans [OF effect_same [OF same] e(2)] by simp
  have q: "queued_descriptors ops \<subseteq> {..<descriptors_created (ctx s)}"
    using reactor_run_queued [OF run evs] by simp
  let ?c' = "c1\<lparr>task_interrupted := True, sched_queue := sched_queue c1 @ ops @ [Task_operation]\<rparr>"
  have priv: "private_ops ?c' = private_ops c1" by (simp add: private_ops_def fun_eq_iff)
  have p: "pending n ?c' = pending n c1" "surplus n ?c' = surplus n c1"
    by (simp_all add: surplus_def pending_def priv e(1)) (simp_all add: private_work_def descriptor_ids_def)
  have "pool_ok c1" using eff pool by (simp add: effect_def)
  then have "pool_ok ?c'"
    by (rule pool_queue) (use \<open>pool_ok c1\<close> q eff in \<open>auto simp: pool_ok_def effect_def priv UN_subset_iff\<close>)
  moreover have "task_return t evs (ctx s) = ?c'" by (rule task_return_eq [OF ti run e(3)])
  ultimately show ?thesis
    by (intro loop_inv_step [OF inv t, where p = Looking and xs = "[]" and ys = "[]" and k = 0 and added = "{#}" and removed = "{#}"])
      (use p eff e(3) ti ph in \<open>simp_all add: effect_def phase_fits_def due_def running_def\<close>)
qed

text \<open>The end of a handler: its work is finished, and what it posted goes to the common queue.\<close>

lemma work_cleanup_accounts:
  assumes t: "t < n" and ti: "thread_infos c t = Some ti" and p: "0 \<le> private_outstanding_work ti"
  shows "pending n (work_cleanup t c) = pending n c" "surplus n (work_cleanup t c) = surplus n c - 1"
    "thread_infos (work_cleanup t c) = (thread_infos c)(t := Some new_thread_info)"
    "descriptors_created (work_cleanup t c) = descriptors_created c" "pool_ok c \<Longrightarrow> pool_ok (work_cleanup t c)"
proof -
  define k where "k = private_outstanding_work ti"
  define c1 where "c1 = (if 1 < private_work c t
       then c\<lparr>outstanding_work := outstanding_work c + (private_work c t - 1)\<rparr>
       else if private_work c t < 1 then work_finished c else c)"
  have k: "private_work c t = k" by (simp add: private_work_def ti k_def)
  have c1: "effect n t {#} {#} (k - 1) c c1" "thread_infos c1 = thread_infos c" "sched_queue c1 = sched_queue c"
    "descriptors_created c1 = descriptors_created c"
  proof -
    show "effect n t {#} {#} (k - 1) c c1"
      using p effect_work_count [of n t "k - 1" c] effect_work_finished [of n t c] effect_refl [of n t c]
      by (cases "k = 0"; cases "k = 1") (simp_all add: c1_def k k_def)
  qed (simp_all add: c1_def work_finished_def Let_def)
  define c2 where "c2 = update_thread t (\<lambda>ti. ti\<lparr>private_outstanding_work := 0\<rparr>) c1"
  have ti1: "thread_infos c1 t = Some ti" using c1(2) ti by simp
  have c2: "pending n c2 = pending n c" "surplus n c2 = surplus n c - 1"
    "thread_infos c2 t = Some (ti\<lparr>private_outstanding_work := 0\<rparr>)" "private_ops c2 = private_ops c"
  proof -
    note a = update_thread_accounts [OF t ti1, of "\<lambda>ti. ti\<lparr>private_outstanding_work := 0\<rparr>", folded c2_def]
    show pend: "pending n c2 = pending n c" using a(1) c1(1) by (simp add: effect_def)
    then show "surplus n c2 = surplus n c - 1" using a(2) c1(1) by (simp add: effect_def k_def)
    show "thread_infos c2 t = Some (ti\<lparr>private_outstanding_work := 0\<rparr>)" "private_ops c2 = private_ops c"
      using ti c1(2) by (auto simp: c2_def update_thread_def private_ops_def fun_eq_iff)
  qed
  have pool2: "pool_ok c \<Longrightarrow> pool_ok c2"
  proof -
    assume "pool_ok c"
    then have "pool_ok c1" using c1(1) by (simp add: effect_def)
    moreover have "pool_ok c2 = pool_ok c1"
    proof (rule pool_ok_frame)
      have "private_ops c1 = private_ops c" by (simp add: private_ops_def c1(2) fun_eq_iff)
      then show "private_ops c2 = private_ops c1" using c2(4) by simp
    qed (simp_all add: c2_def update_thread_def)
    ultimately show "pool_ok c2" by simp
  qed
  define c3 where "c3 = c2\<lparr>sched_queue := sched_queue c2 @ private_ops c2 t\<rparr>"
  have wc: "work_cleanup t c = update_thread t (\<lambda>ti. ti\<lparr>private_op_queue := []\<rparr>) c3"
  proof (cases "private_ops c2 t = []")
    case True
    then have "update_thread t (\<lambda>ti. ti\<lparr>private_op_queue := []\<rparr>) c2 = c2"
      by (intro update_thread_same [OF c2(3)]) (use c2(3) in \<open>simp add: private_ops_def\<close>)
    then show ?thesis using True by (simp add: work_cleanup_def Let_def c3_def flip: c1_def c2_def)
  next
    case False
    then show ?thesis by (simp add: work_cleanup_def Let_def c3_def flip: c1_def c2_def)
  qed
  have ti3: "thread_infos c3 t = Some (ti\<lparr>private_outstanding_work := 0\<rparr>)" by (simp add: c3_def c2)
  note a = update_thread_accounts [OF t ti3, of "\<lambda>ti. ti\<lparr>private_op_queue := []\<rparr>", folded wc]
  have ops: "private_ops c2 t = private_op_queue ti" using c2(3) by (simp add: private_ops_def)
  show pend: "pending n (work_cleanup t c) = pending n c"
    using a(1) c2(1) by (simp add: c3_def ops)
  show "surplus n (work_cleanup t c) = surplus n c - 1"
    using a(2) pend c2(1,2) by (simp add: c3_def ops)
  show "thread_infos (work_cleanup t c) = (thread_infos c)(t := Some new_thread_info)"
    using ti3 c1(2) by (auto simp: wc update_thread_def new_thread_info_def fun_eq_iff c3_def c2_def)
  show "descriptors_created (work_cleanup t c) = descriptors_created c"
    by (simp add: wc update_thread_def c3_def c2_def c1(4))
  show "pool_ok (work_cleanup t c)" if "pool_ok c"
  proof (rule pool_queue [OF pool2 [OF that]])
    have q: "queued_descriptors (private_ops c2 t') \<subseteq> {..<descriptors_created c2}" for t'
      using pool2 [OF that] by (simp add: pool_ok_def UN_subset_iff)
    show "queued_descriptors (sched_queue (work_cleanup t c)) \<subseteq> {..<descriptors_created c2}"
      using pool2 [OF that] q [of t] by (simp add: wc update_thread_def c3_def pool_ok_def)
    have "private_ops (work_cleanup t c) t' = (if t' = t then [] else private_ops c2 t')" for t'
      using ti3 by (simp add: wc update_thread_def c3_def private_ops_def)
    then show "queued_descriptors (private_ops (work_cleanup t c) t') \<subseteq> {..<descriptors_created c2}" for t'
      using q by simp
  qed (simp_all add: wc update_thread_def c3_def)
qed

lemma finish_inv:
  assumes inv: "loop_inv n s" and t: "t < n" and ph: "phases s t = Executing h"
    and c: "c = work_cleanup t (ctx s)"
  shows "loop_inv n (s\<lparr>ctx := if only_one s t then leave_thread t c else c,
       phases := (phases s)(t := if only_one s t then Outside else Looking),
       completed := completed s @ (case h of None \<Rightarrow> [] | Some i \<Rightarrow> [i])\<rparr>)" (is "loop_inv n ?s")
proof -
  obtain ti where ti: "thread_infos (ctx s) t = Some ti" "0 \<le> private_outstanding_work ti"
    using thread_phase [OF inv t] ph by (auto simp: phase_fits_def thread_ok_def split: option.splits)
  have pool: "pool_ok (ctx s)" using inv by (simp add: loop_inv_def)
  note a = work_cleanup_accounts [OF t ti, folded c]
  have new: "thread_infos c t = Some new_thread_info" using a(3) by simp
  note l = fresh_thread_accounts [OF refl, where c = c and t = t and x = None, folded leave_thread_def]
  have ctx: "pending n (ctx ?s) = pending n (ctx s)" "surplus n (ctx ?s) = surplus n (ctx s) - 1" "pool_ok (ctx ?s)"
    using a l new pool by simp_all
  show ?thesis
    by (rule loop_inv_step [OF inv t, where p = "if only_one s t then Outside else Looking" and xs = "[]"
          and ys = "case h of None \<Rightarrow> [] | Some i \<Rightarrow> [i]" and k = "-1" and added = "{#}" and removed = "{#}"])
      (use ctx a new ph in \<open>auto simp: leave_thread_def phase_fits_def due_def running_def split: option.splits\<close>)
qed

lemma loop_step_inv: "loop_inv n s \<Longrightarrow> loop_step n ones s s' \<Longrightarrow> loop_inv n s'"
  by (erule loop_step.cases) (auto simp: act_inv enter_inv look_inv resume_inv task_inv perform_inv finish_inv)

lemma loop_init_inv: "loop_init one s \<Longrightarrow> loop_inv n s"
proof -
  assume init: "loop_init one s"
  let ?c = "init_task (new_scheduler one)"
  have c: "thread_infos ?c = (\<lambda>_. None)" "sched_queue ?c = [Task_operation]" "outstanding_work ?c = 0"
    "descriptors_created ?c = 0" "live_descriptors ?c = []" "free_descriptors ?c = []"
    "descriptors ?c = descriptors (new_scheduler one)"
    by (simp_all add: init_task_def new_scheduler_def wake_defs Let_def)
  then have p: "pending n ?c = {#}" "surplus n ?c = 0"
    by (simp_all add: pending_def surplus_def private_ops_def private_work_def)
  have "ds_ops (descriptors (new_scheduler one) d) = []" for d by (simp add: new_scheduler_def ds_ops_def)
  then have "pool_ok ?c" by (simp add: pool_ok_def c private_ops_def)
  with init p c show ?thesis by (simp add: loop_inv_def loop_init_def phase_fits_def due_def running_def)
qed

interpretation event_loop: invariant_system "loop_init one" "loop_step n ones" "loop_inv n" for one n ones
  by unfold_locales (auto intro: loop_init_inv loop_step_inv)

lemma size_sum: "size (\<Sum>i<(n::nat). f i) = (\<Sum>i<n. size (f i))" for f :: "nat \<Rightarrow> 'a multiset"
  by (induction n) auto

text \<open>
  Each thread's private count is covered by its private queue and the work it is about to
  finish; strictly, if it is in a handler. So a count of zero leaves nothing pending.
\<close>

lemma no_work_no_pending:
  assumes inv: "loop_inv n s" and zero: "outstanding_work (ctx s) = 0"
  shows "pending n (ctx s) = {#} \<and> guards s = 0 \<and> (\<forall>t<n. running (phases s t) = {#})"
proof -
  let ?c = "ctx s"
  define p where "p t = private_work ?c t" for t
  define q where "q t = int (size (op_ids (private_ops ?c t)))" for t
  define d where "d t = due (phases s t)" for t
  have le: "p t \<le> q t + d t" and lt: "running (phases s t) \<noteq> {#} \<Longrightarrow> p t < q t + d t"
    and q0: "running (phases s t) = {#} \<Longrightarrow> op_ids (private_ops ?c t) = {#}" if "t < n" for t
    using thread_phase [OF inv that]
    by (auto simp: phase_fits_def p_def q_def d_def private_work_def private_ops_def thread_ok_def due_def running_def
        new_thread_info_def split: phase.splits option.splits)
  define rest where "rest = op_ids (sched_queue ?c) + (\<Sum>d<descriptors_created ?c. descriptor_ids ?c d)"
  have pend: "pending n ?c = (\<Sum>t<n. op_ids (private_ops ?c t)) + rest"
    by (simp add: pending_def rest_def ac_simps)
  have "(\<Sum>t<n. p t) = int (size rest) + (\<Sum>t<n. q t) + int (guards s) + (\<Sum>t<n. d t)"
    using inv zero by (simp add: loop_inv_def surplus_def pend size_sum p_def q_def d_def of_nat_sum)
  moreover have "(\<Sum>t<n. p t) \<le> (\<Sum>t<n. q t + d t)" by (rule sum_mono) (use le in simp)
  moreover have "(\<Sum>t<n. q t + d t) = (\<Sum>t<n. q t) + (\<Sum>t<n. d t)" by (rule sum.distrib)
  ultimately have z: "size rest = 0" "guards s = 0" and eq: "(\<Sum>t<n. p t) = (\<Sum>t<n. q t + d t)"
    by linarith+
  have run: "running (phases s t) = {#}" if "t < n" for t
  proof (rule ccontr)
    assume "running (phases s t) \<noteq> {#}"
    then have "(\<Sum>t<n. p t) < (\<Sum>t<n. q t + d t)"
      by (intro sum_strict_mono_ex1) (use le lt that in auto)
    with eq show False by simp
  qed
  then have "(\<Sum>t<n. op_ids (private_ops ?c t)) = {#}" using q0 by (simp add: sum.neutral)
  with z run show ?thesis by (simp add: pend)
qed

text \<open>A thread posts a handler, runs the loop, and the loop stops.\<close>

lemma demo_loop_run:
  "\<exists>s. reach (loop_init False) (loop_step 1 False) s \<and> outstanding_work (ctx s) = 0 \<and>
     stopped (ctx s) \<and> started s = [7] \<and> completed s = [7]"
proof -
  have "\<exists>s. move_threads 1 False [(0, Act (Post 7 False)), (0, Enter False), (0, Look), (0, Task []), (0, Look),
      (0, Finish)] demo_loop = Some s \<and> outstanding_work (ctx s) = 0 \<and> stopped (ctx s) \<and>
      started s = [7] \<and> completed s = [7]"
    by (simp add: loop_evals)
  then show ?thesis using demo_loop_moves by blast
qed

text \<open>
  C35. In every reachable state of the event loop, with any number of threads and whatever is
  started, cancelled and closed meanwhile, every operation that was started is in exactly one
  place: completed, waiting in one queue, or in its running handler. The count of
  outstanding work, at which the loop stops itself, is zero only when every operation has been
  completed and no guard is held.
\<close>

theorem event_loop_completes_everything:
  assumes "reach (loop_init one) (loop_step n ones) s"
  shows "mset (started s) = mset (completed s) + pending n (ctx s) + (\<Sum>t<n. running (phases s t)) \<and>
    (outstanding_work (ctx s) = 0 \<longrightarrow> guards s = 0 \<and> mset (started s) = mset (completed s))"
proof -
  note inv = event_loop.inv_reach [OF assms]
  then have "mset (started s) = mset (completed s) + pending n (ctx s) + (\<Sum>t<n. running (phases s t))"
    by (simp add: loop_inv_def)
  then show ?thesis using no_work_no_pending [OF inv] by (simp add: sum.neutral)
qed

lemma event_loop_completes_everything_witness:
  "\<exists>s :: loop_state. outstanding_work (ctx s) = 0 \<and> completed s = [7] \<and> mset (started s) = mset (completed s)"
proof -
  obtain s where s: "reach (loop_init False) (loop_step 1 False) s" "outstanding_work (ctx s) = 0" "completed s = [7]"
    using demo_loop_run by blast
  then show ?thesis using event_loop_completes_everything [OF s(1)] by blast
qed

end
