(* ===== verification/Wakeups.thy ===== *)
theory Wakeups
  imports WorkCount
begin

section \<open>No wake-up is lost\<close>

text \<open>
  Threads of the event loop sleep in the condition variable or in \<open>epoll_wait\<close>. Whenever there
  is something in the queue and a thread sleeps, some thread is going to look at the
  queue: a thread in \<open>run\<close> that is about to, one in the reactor that will not block, or one
  that is being woken. This needs threads that call \<open>run\<close>; the last theorem shows that
  \<open>run_one\<close> breaks it.
\<close>

definition idle :: "io_context \<Rightarrow> phase \<Rightarrow> bool" where
  "idle c p \<longleftrightarrow> p = Sleeping \<or> p = In_task False \<and> \<not> interrupt_pending c"

definition awake :: "io_context \<Rightarrow> phase \<Rightarrow> bool" where
  "awake c p \<longleftrightarrow> p = Looking \<or> p = In_task True \<or> p = In_task False \<and> interrupt_pending c \<or>
     p = Sleeping \<and> event_set c \<and> 0 < notified c"

definition alert :: "nat \<Rightarrow> io_context \<Rightarrow> (nat \<Rightarrow> phase) \<Rightarrow> bool" where
  "alert n c ph \<longleftrightarrow> (\<exists>t<n. idle c (ph t)) \<longrightarrow> (\<exists>t<n. awake c (ph t))"

definition in_task :: "phase \<Rightarrow> bool" where
  "in_task p \<longleftrightarrow> (\<exists>b. p = In_task b)"

text \<open>
  The bookkeeping it rests on: the waiting threads are counted; the task is in one place; a
  thread that blocks in the task is interrupted when the flag says so; and when the
  loop is stopped, everybody has been told.
\<close>

definition core :: "nat \<Rightarrow> io_context \<Rightarrow> (nat \<Rightarrow> phase) \<Rightarrow> bool" where
  "core n c ph \<longleftrightarrow>
     waiters c = card {t. t < n \<and> ph t = Sleeping} \<and> notified c \<le> waiters c \<and> task_present c \<and>
     count_list (sched_queue c) Task_operation + card {t. t < n \<and> in_task (ph t)} \<le> 1 \<and>
     (\<forall>t<n. ph t = In_task False \<longrightarrow> task_interrupted c \<longrightarrow> interrupt_pending c) \<and>
     (stopped c \<longrightarrow> event_set c \<and> notified c = waiters c \<and>
       (\<forall>t<n. ph t = In_task False \<longrightarrow> interrupt_pending c))"

lemma card_pos: "t < (n::nat) \<Longrightarrow> P t \<Longrightarrow> 0 < card {t. t < n \<and> P t}"
  by (subst card_gt_0_iff) auto

lemma core_waiting: "core n c ph \<Longrightarrow> t < n \<Longrightarrow> ph t = Sleeping \<Longrightarrow> 0 < waiters c"
  using card_pos [of t n "\<lambda>t. ph t = Sleeping"] by (simp add: core_def)

lemma core_wake:
  assumes "core n c ph"
  shows "core n (wake_one_thread_and_unlock c) ph" "alert n (wake_one_thread_and_unlock c) ph"
proof -
  show "core n (wake_one_thread_and_unlock c) ph" using assms by (auto simp: core_def wake_defs Let_def)
  show "alert n (wake_one_thread_and_unlock c) ph"
  proof (cases "0 < waiters c")
    case True
    then have "0 < card {t. t < n \<and> ph t = Sleeping}" using assms by (simp add: core_def)
    then obtain t where "t < n" "ph t = Sleeping" by (auto simp: card_gt_0_iff)
    then show ?thesis using True by (auto simp: alert_def awake_def wake_defs Let_def)
  next
    case False
    then have "\<not> idle (wake_one_thread_and_unlock c) (ph t)" if "t < n" for t
      using assms core_waiting [OF assms that] that
      by (auto simp: idle_def core_def wake_defs Let_def split: if_splits)
    then show ?thesis by (auto simp: alert_def)
  qed
qed

lemma core_stop:
  assumes "core n c ph"
  shows "core n (sched_stop c) ph" "alert n (sched_stop c) ph"
proof -
  show core: "core n (sched_stop c) ph" using assms by (auto simp: core_def wake_defs Let_def)
  have "awake (sched_stop c) (ph t)" if "t < n" "idle (sched_stop c) (ph t)" for t
    using that core core_waiting [OF core that(1)] by (auto simp: idle_def awake_def core_def wake_defs Let_def split: if_splits)
  then show "alert n (sched_stop c) ph" by (auto simp: alert_def)
qed

subsection \<open>What calls change of this\<close>

definition same_view :: "io_context \<Rightarrow> io_context \<Rightarrow> bool" where
  "same_view c c' \<longleftrightarrow> task_present c' = task_present c \<and>
     task_interrupted c' = task_interrupted c \<and> sched_queue c' = sched_queue c \<and> stopped c' = stopped c \<and>
     event_set c' = event_set c \<and> waiters c' = waiters c \<and> notified c' = notified c \<and>
     interrupt_pending c' = interrupt_pending c"

text \<open>A call does nothing visible, or appends operations and wakes a thread, or stops or restarts.\<close>

definition call_view :: "io_context \<Rightarrow> io_context \<Rightarrow> bool" where
  "call_view c c' \<longleftrightarrow> one_thread c' = one_thread c \<and>
     (same_view c c' \<or>
      (\<exists>ops. Task_operation \<notin> set ops \<and> same_view (wake_one_thread_and_unlock (c\<lparr>sched_queue := sched_queue c @ ops\<rparr>)) c') \<or>
      same_view (sched_stop c) c' \<or> same_view (sched_restart c) c')"

definition private_ok :: "io_context \<Rightarrow> bool" where
  "private_ok c \<longleftrightarrow> (\<forall>t. Task_operation \<notin> set (private_ops c t))"

lemma same_view_refl [simp]: "same_view c c"
  by (simp add: same_view_def)

lemma core_same: "same_view c c' \<Longrightarrow> core n c' ph = core n c ph"
  and alert_same: "same_view c c' \<Longrightarrow> alert n c' ph = alert n c ph"
  by (simp_all add: same_view_def core_def alert_def idle_def awake_def)

lemma count_list_0 [simp]: "x \<notin> set xs \<Longrightarrow> count_list xs x = 0"
  by (induction xs) auto

lemma count_list_append [simp]: "count_list (xs @ ys) x = count_list xs x + count_list ys x"
  by (induction xs) auto

lemma call_core:
  assumes "call_view c c'" and "core n c ph" and "sched_queue c \<noteq> [] \<longrightarrow> alert n c ph"
  shows "core n c' ph \<and> (sched_queue c' \<noteq> [] \<longrightarrow> alert n c' ph)"
proof -
  have "core n (c\<lparr>sched_queue := sched_queue c @ ops\<rparr>) ph" if "Task_operation \<notin> set ops" for ops
    using assms(2) that by (auto simp: core_def)
  note push = core_wake [OF this]
  have restart: "core n (sched_restart c) ph" "alert n (sched_restart c) ph = alert n c ph"
    using assms(2) by (auto simp: core_def sched_restart_def alert_def idle_def awake_def)
  from assms(1) consider "same_view c c'"
    | ops where "Task_operation \<notin> set ops" "same_view (wake_one_thread_and_unlock (c\<lparr>sched_queue := sched_queue c @ ops\<rparr>)) c'"
    | "same_view (sched_stop c) c'" | "same_view (sched_restart c) c'"
    by (auto simp: call_view_def)
  then show ?thesis
  proof cases
    case 1
    then have "sched_queue c' = sched_queue c" by (simp add: same_view_def)
    with 1 show ?thesis using assms(2,3) by (simp add: core_same alert_same)
  next
    case 2
    then show ?thesis using push by (simp add: core_same [OF 2(2)] alert_same [OF 2(2)])
  next
    case 3
    then show ?thesis using core_stop [OF assms(2)] by (simp add: core_same [OF 3] alert_same [OF 3])
  next
    case 4
    then have "sched_queue c' = sched_queue c" by (simp add: same_view_def sched_restart_def)
    with 4 show ?thesis using restart assms(3) by (simp add: core_same [OF 4] alert_same [OF 4])
  qed
qed


text \<open>The view of a waking or stopping call depends on the view alone.\<close>

lemma same_view_wake:
  "same_view c d \<Longrightarrow> same_view (wake_one_thread_and_unlock c) (wake_one_thread_and_unlock d)"
  "same_view c d \<Longrightarrow> same_view (sched_stop c) (sched_stop d)"
  "same_view c d \<Longrightarrow> same_view (sched_restart c) (sched_restart d)"
  "same_view c d \<Longrightarrow> same_view (c\<lparr>sched_queue := sched_queue c @ ops\<rparr>) (d\<lparr>sched_queue := sched_queue d @ ops\<rparr>)"
  by (auto simp: same_view_def wake_defs sched_restart_def Let_def)

lemma same_view_trans: "same_view c d \<Longrightarrow> same_view d e \<Longrightarrow> same_view c e"
  by (simp add: same_view_def)

lemma call_view_same: "same_view c d \<Longrightarrow> one_thread d = one_thread c \<Longrightarrow> call_view c d"
  by (simp add: call_view_def)

lemma call_view_trans:
  assumes "same_view c d" and "one_thread d = one_thread c" and "call_view d e"
  shows "call_view c e"
proof -
  note t = same_view_trans [OF same_view_wake(1) [OF same_view_wake(4) [OF assms(1)]]]
    same_view_trans [OF same_view_wake(2) [OF assms(1)]] same_view_trans [OF same_view_wake(3) [OF assms(1)]]
    same_view_trans [OF assms(1)]
  show ?thesis using assms(2,3) t unfolding call_view_def by metis
qed

lemma one_thread_wake [simp]:
  "one_thread (wake_one_thread_and_unlock c) = one_thread c" "one_thread (sched_stop c) = one_thread c"
  "one_thread (sched_restart c) = one_thread c" "one_thread (event_unlock_and_signal_one c) = one_thread c"
  by (simp_all add: wake_defs sched_restart_def Let_def)

lemma call_view_push:
  "Task_operation \<notin> set ops \<Longrightarrow> call_view c (wake_one_thread_and_unlock (c\<lparr>sched_queue := sched_queue c @ ops\<rparr>))"
  unfolding call_view_def by auto

lemma call_view_stop: "call_view c (sched_stop c)" "call_view c (sched_restart c)"
  by (simp_all add: call_view_def)

lemma view_updates [simp]:
  "same_view c (update_thread t f c)" "same_view c (update_descriptor d g c)" "same_view c (work_started c)"
  "same_view c (c\<lparr>outstanding_work := k\<rparr>)" "same_view c (leave_thread t c)" "same_view c (enter_thread t c)"
  "one_thread (update_thread t f c) = one_thread c" "one_thread (update_descriptor d g c) = one_thread c"
  "one_thread (work_started c) = one_thread c" "one_thread (leave_thread t c) = one_thread c"
  "one_thread (enter_thread t c) = one_thread c"
  by (simp_all add: same_view_def update_thread_def update_descriptor_def work_started_def leave_thread_def
      enter_thread_def)

text \<open>The private queues never hold the task.\<close>

lemma private_simps [simp]:
  "private_ops (wake_one_thread_and_unlock c) = private_ops c" "private_ops (sched_stop c) = private_ops c"
  "private_ops (sched_restart c) = private_ops c" "private_ops (work_started c) = private_ops c"
  "private_ops (update_descriptor d g c) = private_ops c" "private_ops (c\<lparr>sched_queue := ops\<rparr>) = private_ops c"
  "private_ops (c\<lparr>outstanding_work := k\<rparr>) = private_ops c"
  by (auto simp: private_ops_def fun_eq_iff wake_defs sched_restart_def work_started_def update_descriptor_def Let_def)

lemma private_ok_update:
  "private_ok c \<Longrightarrow> (\<And>ti. thread_infos c t = Some ti \<Longrightarrow> Task_operation \<notin> set (private_op_queue (f ti))) \<Longrightarrow>
     private_ok (update_thread t f c)"
  by (cases "thread_infos c t") (auto simp: private_ok_def private_ops_def update_thread_def)

lemma private_okD: "private_ok c \<Longrightarrow> thread_infos c t = Some ti \<Longrightarrow> Task_operation \<notin> set (private_op_queue ti)"
  by (metis option.simps(5) private_ok_def private_ops_def)

definition quiet :: "io_context \<Rightarrow> io_context \<Rightarrow> bool" where
  "quiet c c' \<longleftrightarrow> call_view c c' \<and> (private_ok c \<longrightarrow> private_ok c')"

lemma quiet_trans: "same_view c d \<Longrightarrow> one_thread d = one_thread c \<Longrightarrow> (private_ok c \<Longrightarrow> private_ok d) \<Longrightarrow>
    quiet d e \<Longrightarrow> quiet c e"
  using call_view_trans by (auto simp: quiet_def)

lemma post_immediate_quiet: "op \<noteq> Task_operation \<Longrightarrow> quiet c (post_immediate_completion t op is_cont c)"
proof (cases "(one_thread c \<or> is_cont) \<and> thread_infos c t \<noteq> None")
  case True
  assume "op \<noteq> Task_operation"
  with True show ?thesis
    by (auto simp: quiet_def post_immediate_completion_def intro!: call_view_same private_ok_update dest: private_okD)
next
  case False
  assume "op \<noteq> Task_operation"
  then have "call_view (work_started c)
      (wake_one_thread_and_unlock (work_started c\<lparr>sched_queue := sched_queue (work_started c) @ [op]\<rparr>))"
    by (intro call_view_push) simp
  from call_view_trans [OF view_updates(3,9) this] False show ?thesis
    by (auto simp: quiet_def post_immediate_completion_def Let_def private_ok_def)
qed

lemma post_deferred_quiet:
  assumes "Task_operation \<notin> set ops"
  shows "quiet c (post_deferred_completions t ops c)"
proof (cases "ops \<noteq> [] \<and> one_thread c \<and> thread_infos c t \<noteq> None")
  case True
  with assms show ?thesis
    by (auto simp: quiet_def post_deferred_completions_def intro!: call_view_same private_ok_update dest: private_okD)
next
  case False
  with call_view_push [OF assms, of c] show ?thesis
    by (auto simp: quiet_def post_deferred_completions_def private_ok_def call_view_same)
qed

lemma quiet_same: "same_view c d \<Longrightarrow> one_thread d = one_thread c \<Longrightarrow> thread_infos d = thread_infos c \<Longrightarrow> quiet c d"
  by (simp add: quiet_def call_view_same private_ok_def private_ops_def)

lemma quiet_flags:
  assumes "same_view c d" and "one_thread d = one_thread c" and "thread_infos d = thread_infos c" and "quiet d e"
  shows "quiet c e"
  using quiet_trans [OF assms(1,2) _ assms(4)] assms(3) by (simp add: private_ok_def private_ops_def)

lemma no_task_aborted [simp]: "Task_operation \<notin> set (aborted_ops ds)" "Task_operation \<notin> Completion ` A"
  by (auto simp: aborted_ops_def)

lemma view_descriptor [simp]: "thread_infos (update_descriptor d g c) = thread_infos c" "thread_infos (work_started c) = thread_infos c"
  by (simp_all add: update_descriptor_def work_started_def)

lemma cancel_quiet: "quiet c (cancel_ops t data c)"
  by (auto simp: cancel_ops_def Let_def quiet_same intro!: quiet_flags [OF _ _ _ post_deferred_quiet] split: option.splits)

lemma start_op_quiet: "start_op t ty fd data op is_cont spec c w = Some (c', w') \<Longrightarrow> quiet c c'"
proof (cases data)
  case None
  assume "start_op t ty fd data op is_cont spec c w = Some (c', w')"
  with None show ?thesis by (auto simp: start_op_def intro: post_immediate_quiet)
next
  case (Some d)
  assume start: "start_op t ty fd data op is_cont spec c w = Some (c', w')"
  then obtain op' c1 where f: "flags_step d c c1"
    and c': "c' = post_immediate_completion t (Completion op') is_cont c1 \<or>
      c' = work_started (update_descriptor d (push_op ty op') c1)"
    using start_op_accepted Some unfolding accepted_def by blast
  from f have v: "same_view c c1 \<and> one_thread c1 = one_thread c \<and> thread_infos c1 = thread_infos c"
    by induction (auto intro: same_view_trans)
  have "quiet c1 c'"
    using c' post_immediate_quiet [of "Completion op'" c1]
      quiet_same [of c1 "work_started (update_descriptor d (push_op ty op') c1)"]
      same_view_trans [OF view_updates(2) view_updates(3)] by auto
  then show ?thesis using v quiet_flags by blast
qed

lemma register_quiet: "register_descriptor fd c w = Some (r, c', w') \<Longrightarrow> quiet c c'"
  by (rule quiet_same; auto simp: register_descriptor_def allocate_descriptor_state_def Let_def same_view_def
      update_descriptor_def split: bind_split_asm if_splits list.splits)

lemma free_quiet: "quiet c e \<Longrightarrow> quiet c (free_descriptor_state d e)"
  by (auto simp: quiet_def call_view_def same_view_def free_descriptor_state_def private_ok_def private_ops_def)

lemma deregister_quiet:
  assumes "deregister_descriptor t fd (Some d) closing c w = Some (data, c', w')"
  shows "quiet c (snd (cleanup_descriptor_data data c'))"
proof -
  have "quiet c (post_deferred_completions t (aborted_ops (descriptors c d)) (update_descriptor d f c))" for f
    by (rule quiet_flags [OF _ _ _ post_deferred_quiet]) simp_all
  then have "quiet c c'"
    using assms by (auto simp: deregister_descriptor_def Let_def quiet_same split: bind_split_asm if_splits)
  then show ?thesis by (auto simp: cleanup_descriptor_data_def free_quiet split: option.splits)
qed

lemma work_finished_quiet: "quiet c (work_finished c)"
proof -
  let ?c = "c\<lparr>outstanding_work := outstanding_work c - 1\<rparr>"
  have same: "quiet c ?c" by (rule quiet_same) simp_all
  have "quiet ?c (sched_stop ?c)" by (simp only: quiet_def call_view_stop private_ok_def private_simps) simp
  then have "quiet c (sched_stop ?c)" by (rule quiet_flags [rotated 3]) simp_all
  with same show ?thesis unfolding work_finished_def Let_def by (simp only: split: if_split) blast
qed

lemma act_quiet: "act t a s = Some s' \<Longrightarrow> quiet (ctx s) (ctx s') \<and> phases s' = phases s \<and> only_one s' = only_one s"
proof (cases a)
  case (Dispatch h)
  assume "act t a s = Some s'"
  moreover have "call_view (work_started c) (wake_one_thread_and_unlock
      (work_started c\<lparr>sched_queue := sched_queue (work_started c) @ [Handler h]\<rparr>))" for c
    by (intro call_view_push) simp
  from call_view_trans [OF view_updates(3,9) this] have "quiet c (do_dispatch (Handler h) c)" for c
    by (simp add: quiet_def do_dispatch_def Let_def private_ok_def)
  ultimately show ?thesis using Dispatch by auto
qed (auto simp: post_immediate_quiet cancel_quiet quiet_same work_finished_quiet call_view_stop quiet_def [of _ "sched_stop _"]
    quiet_def [of _ "sched_restart _"] private_ok_def dest: start_op_quiet register_quiet deregister_quiet
    split: bind_split_asm if_splits)

lemma perform_io_quiet: "perform_io t d events c w = Some (op, c', w') \<Longrightarrow> quiet c c'"
proof -
  assume io: "perform_io t d events c w = Some (op, c', w')"
  have "quiet c (compensating_work_started t (update_descriptor d f c))" for f
  proof -
    let ?g = "\<lambda>ti. ti\<lparr>private_outstanding_work := private_outstanding_work ti + 1\<rparr>"
    have "private_ok (update_thread t ?g (update_descriptor d f c))" if "private_ok c"
      by (rule private_ok_update) (use that private_okD [OF that] in \<open>simp_all add: private_ok_def\<close>)
    moreover have "call_view c (update_thread t ?g (update_descriptor d f c))"
      by (rule call_view_same [OF same_view_trans [OF view_updates(2) view_updates(1)]]) simp
    ultimately show ?thesis by (simp add: quiet_def compensating_work_started_def)
  qed
  moreover have "quiet c (post_deferred_completions t (map Completion ops) (update_descriptor d f c))" for f ops
    by (rule quiet_flags [OF _ _ _ post_deferred_quiet]) simp_all
  ultimately show ?thesis using io by (auto simp: perform_io_def Let_def split: bind_split_asm list.splits)
qed


subsection \<open>The invariant\<close>

definition wake_inv :: "nat \<Rightarrow> loop_state \<Rightarrow> bool" where
  "wake_inv n s \<longleftrightarrow> core n (ctx s) (phases s) \<and> (sched_queue (ctx s) \<noteq> [] \<longrightarrow> alert n (ctx s) (phases s)) \<and>
     private_ok (ctx s) \<and> (\<forall>t. \<not> only_one s t) \<and>
     (one_thread (ctx s) \<longrightarrow> (\<forall>t<n. \<forall>t'<n. phases s t \<noteq> Outside \<longrightarrow> phases s t' \<noteq> Outside \<longrightarrow> t = t'))"

definition neutral :: "phase \<Rightarrow> bool" where
  "neutral p \<longleftrightarrow> p \<noteq> Sleeping \<and> \<not> in_task p"

lemma neutral_simps [simp]:
  "neutral Outside" "neutral Looking" "neutral (Performing d e)" "neutral (Executing h)"
  "\<not> neutral Sleeping" "\<not> neutral (In_task b)"
  by (simp_all add: neutral_def in_task_def)

text \<open>The threads in a phase, when one thread changes its own.\<close>

lemma phase_set:
  assumes "t < n"
  shows "{t'. t' < n \<and> P ((ph(t := p)) t')} =
    (if P p then insert t {t'. t' < n \<and> P (ph t')} else {t'. t' < n \<and> P (ph t')} - {t})"
  using assms by auto

lemma core_neutral: "t < n \<Longrightarrow> neutral (ph t) \<Longrightarrow> neutral p \<Longrightarrow> core n c (ph(t := p)) = core n c ph"
proof -
  assume n: "neutral (ph t)" "neutral p"
  then have same: "(ph(t := p)) t' = Sleeping \<longleftrightarrow> ph t' = Sleeping" "in_task ((ph(t := p)) t') \<longleftrightarrow> in_task (ph t')"
    "(ph(t := p)) t' = In_task False \<longleftrightarrow> ph t' = In_task False" for t'
    by (auto simp: neutral_def in_task_def)
  show ?thesis unfolding core_def same ..
qed

lemma alert_phase: "\<not> awake c (ph t) \<Longrightarrow> \<not> idle c p \<Longrightarrow> alert n c ph \<Longrightarrow> alert n c (ph(t := p))"
  unfolding alert_def by (metis fun_upd_apply)

lemma alert_awake: "t < n \<Longrightarrow> awake c (ph t) \<Longrightarrow> alert n c ph"
  by (auto simp: alert_def)

text \<open>A stopped loop has told everybody.\<close>

lemma stopped_alert: "core n c ph \<Longrightarrow> stopped c \<Longrightarrow> alert n c ph"
proof -
  assume c: "core n c ph" "stopped c"
  have "awake c (ph t)" if "t < n" "idle c (ph t)" for t
    using c core_waiting [OF c(1) that(1)] that by (auto simp: core_def idle_def awake_def)
  then show ?thesis by (auto simp: alert_def)
qed

text \<open>While a thread is in the task, no other is and the task is not in the queue.\<close>

lemma in_task_once:
  assumes "core n c ph" and "t < n" and "in_task (ph t)"
  shows "count_list (sched_queue c) Task_operation = 0" "t' < n \<Longrightarrow> t' \<noteq> t \<Longrightarrow> \<not> in_task (ph t')"
proof -
  have one: "0 < card {t. t < n \<and> in_task (ph t)}"
    by (rule card_pos [OF assms(2), of "\<lambda>t. in_task (ph t)", OF assms(3)])
  have "count_list (sched_queue c) Task_operation + card {t. t < n \<and> in_task (ph t)} \<le> 1"
    using assms(1) unfolding core_def by blast
  with one have z: "count_list (sched_queue c) Task_operation = 0" "card {t. t < n \<and> in_task (ph t)} = 1"
    by linarith+
  show "count_list (sched_queue c) Task_operation = 0" by (rule z(1))
  obtain x where x: "{t. t < n \<and> in_task (ph t)} = {x}" by (rule card_1_singletonE [OF z(2)])
  have "t \<in> {t. t < n \<and> in_task (ph t)}" using assms(2,3) by blast
  then have "x = t" unfolding x by simp
  then show "t' < n \<Longrightarrow> t' \<noteq> t \<Longrightarrow> \<not> in_task (ph t')" using x by blast
qed

lemma wake_inv_act:
  assumes inv: "wake_inv n s" and q: "quiet (ctx s) (ctx s')" and s': "phases s' = phases s" "only_one s' = only_one s"
  shows "wake_inv n s'"
proof -
  have "core n (ctx s') (phases s) \<and> (sched_queue (ctx s') \<noteq> [] \<longrightarrow> alert n (ctx s') (phases s))"
    using call_core [of "ctx s" "ctx s'" n "phases s"] q inv by (simp add: quiet_def wake_inv_def)
  then show ?thesis using inv q s' by (simp add: wake_inv_def quiet_def call_view_def)
qed

text \<open>A change of phase after a call.\<close>

lemma wake_inv_phase:
  assumes inv: "wake_inv n s" and t: "t < n" and out: "phases s t \<noteq> Outside"
    and core: "core n c ((phases s)(t := p))" and alert: "sched_queue c \<noteq> [] \<longrightarrow> alert n c ((phases s)(t := p))"
    and c: "one_thread c = one_thread (ctx s)" "private_ok c"
    and s': "ctx s' = c" "phases s' = (phases s)(t := p)" "only_one s' = only_one s"
  shows "wake_inv n s'"
  using assms by (auto simp: wake_inv_def)

lemma not_awake [simp]:
  "\<not> awake c Outside" "\<not> awake c (Performing d e)" "\<not> awake c (Executing h)"
  "\<not> idle c Outside" "\<not> idle c (Performing d e)" "\<not> idle c (Executing h)" "\<not> idle c Looking" "awake c Looking"
  "awake c (In_task True)" "\<not> idle c (In_task True)"
  by (auto simp: awake_def idle_def)

lemma wake_perform:
  assumes inv: "wake_inv n s" and t: "t < n" and ph: "phases s t = Performing d events"
    and io: "perform_io t d events (ctx s) (system s) = Some (op, c, w)"
  shows "wake_inv n (s\<lparr>ctx := c, system := w, phases := (phases s)(t := Executing (map_option op_id op))\<rparr>)"
proof -
  have q: "quiet (ctx s) c" by (rule perform_io_quiet [OF io])
  then have "core n c (phases s) \<and> (sched_queue c \<noteq> [] \<longrightarrow> alert n c (phases s))"
    using call_core [of "ctx s" c n "phases s"] inv by (simp add: quiet_def wake_inv_def)
  then show ?thesis using inv q ph
    by (intro wake_inv_phase [OF inv t, where c = c and p = "Executing (map_option op_id op)"])
      (auto simp: core_neutral [OF t] alert_phase quiet_def call_view_def wake_inv_def)
qed

lemma work_cleanup_shape:
  "\<exists>c1. quiet c c1 \<and> thread_infos c1 = thread_infos c \<and> same_view (c1\<lparr>sched_queue := sched_queue c1 @ private_ops c t\<rparr>) (work_cleanup t c) \<and>
     one_thread (work_cleanup t c) = one_thread c \<and> (private_ok c \<longrightarrow> private_ok (work_cleanup t c))"
proof -
  define c1 where "c1 = (if 1 < private_work c t
       then c\<lparr>outstanding_work := outstanding_work c + (private_work c t - 1)\<rparr>
       else if private_work c t < 1 then work_finished c else c)"
  define c2 where "c2 = update_thread t (\<lambda>ti. ti\<lparr>private_outstanding_work := 0\<rparr>) c1"
  have q: "quiet c c1" unfolding c1_def
    by (auto simp: work_finished_quiet intro: quiet_same)
  have ti: "thread_infos c1 = thread_infos c" by (simp add: c1_def work_finished_def Let_def)
  have one: "one_thread c1 = one_thread c" using q by (simp add: quiet_def call_view_def)
  have priv: "private_ops c2 t' = private_ops c t'" for t'
    by (cases "thread_infos c t") (simp_all add: c2_def private_ops_def update_thread_def ti)
  have wc: "work_cleanup t c = (if private_ops c2 t \<noteq> []
       then update_thread t (\<lambda>ti. ti\<lparr>private_op_queue := []\<rparr>) (c2\<lparr>sched_queue := sched_queue c2 @ private_ops c2 t\<rparr>)
       else c2)"
    by (simp add: work_cleanup_def Let_def flip: c1_def c2_def)
  have "same_view (c1\<lparr>sched_queue := sched_queue c1 @ private_ops c t\<rparr>) (work_cleanup t c)"
    by (auto simp: wc priv) (auto simp: c2_def same_view_def update_thread_def)
  moreover have "one_thread (work_cleanup t c) = one_thread c" by (simp add: wc one c2_def)
  moreover have "private_ok (work_cleanup t c)" if "private_ok c"
  proof -
    have ok: "private_ok c2" using that priv by (simp add: private_ok_def)
    then have "private_ok (c2\<lparr>sched_queue := q\<rparr>)" for q by (simp add: private_ok_def)
    then have "private_ok (update_thread t (\<lambda>ti. ti\<lparr>private_op_queue := []\<rparr>) (c2\<lparr>sched_queue := q\<rparr>))" for q
      by (intro private_ok_update) simp_all
    with ok show ?thesis by (simp add: wc)
  qed
  ultimately show ?thesis using q ti by blast
qed

lemma wake_finish:
  assumes inv: "wake_inv n s" and t: "t < n" and ph: "phases s t = Executing h"
    and c: "c = work_cleanup t (ctx s)"
  shows "wake_inv n (s\<lparr>ctx := if only_one s t then leave_thread t c else c,
       phases := (phases s)(t := if only_one s t then Outside else Looking),
       completed := completed s @ (case h of None \<Rightarrow> [] | Some i \<Rightarrow> [i])\<rparr>)"
proof -
  have run: "\<not> only_one s t" and priv: "private_ok (ctx s)" using inv by (simp_all add: wake_inv_def)
  obtain c1 where q: "quiet (ctx s) c1"
    and v: "same_view (c1\<lparr>sched_queue := sched_queue c1 @ private_ops (ctx s) t\<rparr>) c"
    and one: "one_thread c = one_thread (ctx s)" and ok: "private_ok c"
    using work_cleanup_shape [of "ctx s" t] priv c by blast
  have "core n c1 (phases s)" using call_core [of "ctx s" c1 n "phases s"] q inv by (simp add: quiet_def wake_inv_def)
  then have "core n (c1\<lparr>sched_queue := sched_queue c1 @ private_ops (ctx s) t\<rparr>) (phases s)"
    using priv by (simp add: core_def private_ok_def)
  then have "core n c ((phases s)(t := Looking))" using ph by (simp add: core_same [OF v] core_neutral [OF t])
  moreover have "alert n c ((phases s)(t := Looking))" by (rule alert_awake [OF t]) simp
  ultimately show ?thesis using run ph one ok
    by (intro wake_inv_phase [OF inv t, where c = c and p = Looking]) simp_all
qed


text \<open>The counts of waiting threads and of threads in the task when one thread changes phase.\<close>

lemma card_phase:
  assumes "t < n" and "P (ph t)" and "\<not> P p"
  shows "card {t'. t' < (n::nat) \<and> P ((ph(t := p)) t')} = card {t'. t' < n \<and> P (ph t')} - 1"
    "0 < card {t'. t' < n \<and> P (ph t')}"
proof -
  have eq: "{t'. t' < n \<and> P ((ph(t := p)) t')} = {t'. t' < n \<and> P (ph t')} - {t}" using assms by auto
  show "card {t'. t' < n \<and> P ((ph(t := p)) t')} = card {t'. t' < n \<and> P (ph t')} - 1"
    unfolding eq by (rule card_Diff_singleton) (use assms in simp)
  show "0 < card {t'. t' < n \<and> P (ph t')}" by (rule card_pos [OF assms(1)]) (rule assms(2))
qed

lemma card_phase_Suc:
  assumes "t < n" and "\<not> P (ph t)" and "P p"
  shows "card {t'. t' < (n::nat) \<and> P ((ph(t := p)) t')} = Suc (card {t'. t' < n \<and> P (ph t')})"
proof -
  have eq: "{t'. t' < n \<and> P ((ph(t := p)) t')} = insert t {t'. t' < n \<and> P (ph t')}" using assms by auto
  show ?thesis unfolding eq by (rule card_insert_disjoint) (use assms in simp_all)
qed

lemma card_phase_same:
  assumes "P (ph t) \<longleftrightarrow> P p"
  shows "card {t'. t' < (n::nat) \<and> P ((ph(t := p)) t')} = card {t'. t' < n \<and> P (ph t')}"
  by (rule arg_cong [where f = card]) (use assms in auto)

text \<open>Taking an operation that is not the task.\<close>

lemma core_pop: "core n c ph \<Longrightarrow> sched_queue c = x # ops \<Longrightarrow> x \<noteq> Task_operation \<Longrightarrow>
    core n (c\<lparr>sched_queue := ops\<rparr>) ph"
  by (simp add: core_def)

lemma core_take_task:
  assumes core: "core n c ph" and t: "t < n" and ph: "ph t = Looking" and q: "sched_queue c = Task_operation # ops"
    and run: "\<not> stopped c"
  shows "core n (c\<lparr>sched_queue := ops, task_interrupted := (ops \<noteq> [])\<rparr>) (ph(t := In_task (ops \<noteq> [])))"
proof -
  have "count_list (sched_queue c) Task_operation + card {t. t < n \<and> in_task (ph t)} \<le> 1"
    using core unfolding core_def by blast
  then have none: "card {t. t < n \<and> in_task (ph t)} = 0" "count_list ops Task_operation = 0" using q by simp_all
  then have "\<not> in_task (ph t')" if "t' < n" for t' using card_pos [OF that, of "\<lambda>t. in_task (ph t)"] by linarith
  then have others: "ph t' \<noteq> In_task b" if "t' < n" for t' b using that by (auto simp: in_task_def)
  have "card {t'. t' < n \<and> in_task ((ph(t := In_task (ops \<noteq> []))) t')} = 1"
    using card_phase_Suc [OF t, of in_task ph "In_task (ops \<noteq> [])"] none(1) ph by (simp add: in_task_def)
  moreover have "card {t'. t' < n \<and> (ph(t := In_task (ops \<noteq> []))) t' = Sleeping} = card {t'. t' < n \<and> ph t' = Sleeping}"
    by (rule card_phase_same) (simp add: ph)
  ultimately show ?thesis using core none(2) run others unfolding core_def by (auto simp: in_task_def)
qed

lemma core_signal: "core n c ph \<Longrightarrow> core n (event_unlock_and_signal_one c) ph"
  by (auto simp: core_def wake_defs Let_def)

lemma wake_look:
  assumes inv: "wake_inv n s" and t: "t < n" and ph: "phases s t = Looking"
    and look: "do_run_one t (ctx s) = (p, c)"
  shows "wake_inv n (s\<lparr>ctx := c, phases := (phases s)(t := p)\<rparr>)"
proof -
  let ?c = "ctx s"
  have core: "core n ?c (phases s)" and priv: "private_ok ?c" using inv by (simp_all add: wake_inv_def)
  note phase = wake_inv_phase [OF inv t, where c = c and p = p]
  show ?thesis
  proof (cases "stopped ?c")
    case True
    then have c: "p = Outside" "c = leave_thread t ?c" using look by (simp_all add: do_run_one_def)
    have v: "same_view ?c c" by (simp add: c)
    have "core n ?c ((phases s)(t := p))" using core ph by (simp add: c core_neutral [OF t])
    with stopped_alert [OF this True] show ?thesis using ph priv
      by (intro phase) (simp_all add: core_same [OF v] alert_same [OF v], simp_all add: c private_ok_def private_ops_def leave_thread_def)
  next
    case False
    show ?thesis
    proof (cases "sched_queue ?c")
      case Nil
      then have c: "p = Sleeping" "c = ?c\<lparr>event_set := False, waiters := waiters ?c + 1\<rparr>"
        using look False by (auto simp: do_run_one_def wake_defs Let_def)
      have "card {t'. t' < n \<and> ((phases s)(t := p)) t' = Sleeping} = Suc (card {t'. t' < n \<and> phases s t' = Sleeping})"
        by (rule card_phase_Suc [OF t]) (simp_all add: ph c)
      moreover have "card {t'. t' < n \<and> in_task (((phases s)(t := p)) t')} = card {t'. t' < n \<and> in_task (phases s t')}"
        by (rule card_phase_same) (simp add: ph c in_task_def)
      ultimately have "core n c ((phases s)(t := p))"
        using core False by (simp add: core_def c)
      then show ?thesis using ph priv Nil by (intro phase) (simp_all add: c private_ok_def private_ops_def)
    next
      case (Cons x ops)
      note r = look [unfolded do_run_one_def Let_def, simplified Cons False, simplified]
      show ?thesis
      proof (cases "x = Task_operation")
        case True
        let ?t = "?c\<lparr>sched_queue := ops, task_interrupted := (ops \<noteq> [])\<rparr>"
        have c: "p = In_task (ops \<noteq> [])" "c = (if ops \<noteq> [] \<and> \<not> one_thread ?c then event_unlock_and_signal_one ?t else ?t)"
          using r True by (auto split: if_splits)
        have "core n c ((phases s)(t := p))"
          using core_take_task [OF core t ph Cons [unfolded True] False]
            core_signal [OF core_take_task [OF core t ph Cons [unfolded True] False]] unfolding c by (simp only: split: if_split) blast
        moreover have "sched_queue c = ops" by (simp add: c wake_defs Let_def)
        moreover have "alert n c ((phases s)(t := p))" if "ops \<noteq> []"
          by (rule alert_awake [OF t]) (simp add: c(1) that)
        moreover have "private_ok c" using priv by (auto simp: c private_ok_def private_ops_def wake_defs Let_def)
        ultimately show ?thesis using ph by (intro phase) (simp_all add: c(2))
      next
        case other: False
        let ?w = "?c\<lparr>sched_queue := ops\<rparr>"
        have c: "c = (if ops \<noteq> [] \<and> \<not> one_thread ?c then wake_one_thread_and_unlock ?w else ?w)"
          and p: "(\<exists>i. p = Executing i) \<or> (\<exists>d e. p = Performing d e)"
          using r other by (auto split: operation.splits if_splits)
        have n: "neutral p" "\<not> idle c' p" for c' using p by auto
        have core': "core n ?w ((phases s)(t := p))"
          using core_pop [OF core Cons other] ph n by (simp add: core_neutral [OF t])
        have "alert n c ((phases s)(t := p))" if "ops \<noteq> []"
        proof (cases "one_thread ?c")
          case True
          then have "\<forall>t<n. \<forall>t'<n. phases s t \<noteq> Outside \<longrightarrow> phases s t' \<noteq> Outside \<longrightarrow> t = t'"
            using inv unfolding wake_inv_def by blast
          then have "phases s t' = Outside" if "t' < n" "t' \<noteq> t" for t'
            using t ph that(1) that(2) [symmetric] by (metis phase.distinct(1))
          then have "\<not> idle c (((phases s)(t := p)) t')" if "t' < n" for t' using that n by simp
          then show ?thesis unfolding alert_def by blast
        qed (use core_wake(2) [OF core'] that c in simp)
        moreover have "core n c ((phases s)(t := p))" unfolding c using core' core_wake(1) [OF core'] by simp
        moreover have "private_ok c" "one_thread c = one_thread ?c" using priv by (simp_all add: c private_ok_def)
        moreover have "sched_queue c = ops" by (simp add: c wake_defs Let_def)
        ultimately show ?thesis using ph by (intro phase) simp_all
      qed
    qed
  qed
qed


lemma wake_resume:
  assumes inv: "wake_inv n s" and t: "t < n" and ph: "phases s t = Sleeping"
    and resume: "wait_resume (ctx s) = (p, c)"
  shows "wake_inv n (s\<lparr>ctx := c, phases := (phases s)(t := p)\<rparr>)"
proof -
  let ?c = "ctx s"
  have core: "core n ?c (phases s)" and priv: "private_ok ?c" using inv by (simp_all add: wake_inv_def)
  have pos: "0 < waiters ?c" by (rule core_waiting [OF core t ph])
  note phase = wake_inv_phase [OF inv t, where c = c and p = p]
  show ?thesis
  proof (cases "event_set ?c")
    case True
    then have c: "p = Looking" "c = ?c\<lparr>waiters := waiters ?c - 1, notified := notified ?c - 1\<rparr>"
      using resume by (auto simp: wait_resume_def event_wait_resume_def event_wait_begin_def)
    have "card {t'. t' < n \<and> ((phases s)(t := p)) t' = Sleeping} = card {t'. t' < n \<and> phases s t' = Sleeping} - 1"
      by (rule card_phase(1) [OF t]) (simp_all add: ph c)
    moreover have "card {t'. t' < n \<and> in_task (((phases s)(t := p)) t')} = card {t'. t' < n \<and> in_task (phases s t')}"
      by (rule card_phase_same) (simp add: ph c in_task_def)
    ultimately have "core n c ((phases s)(t := p))"
      using core True by (auto simp: core_def c)
    moreover have "alert n c ((phases s)(t := p))" by (rule alert_awake [OF t]) (simp add: c)
    ultimately show ?thesis using ph priv by (intro phase) (simp_all add: c private_ok_def private_ops_def)
  next
    case False
    then have c: "p = Sleeping" "c = ?c\<lparr>notified := notified ?c - 1\<rparr>"
      using resume pos by (auto simp: wait_resume_def event_wait_resume_def event_wait_begin_def)
    have same: "(phases s)(t := p) = phases s" using ph c(1) by auto
    have "core n c (phases s)" using core False by (auto simp: core_def c)
    moreover have "alert n c (phases s) = alert n ?c (phases s)"
      using False by (simp add: alert_def idle_def awake_def c)
    ultimately show ?thesis using inv ph priv by (intro phase) (simp_all add: same, simp_all add: c private_ok_def private_ops_def wake_inv_def)
  qed
qed

lemma reactor_run_view:
  assumes "reactor_run evs (ops, c) = (ops', c')" and "Task_operation \<notin> set ops"
  shows "same_view c c' \<and> one_thread c' = one_thread c \<and> thread_infos c' = thread_infos c \<and> Task_operation \<notin> set ops'"
  using assms unfolding reactor_run_def
proof (induction evs arbitrary: ops c)
  case (Cons ev evs)
  obtain ops1 c1 where d: "dispatch_event ev (ops, c) = (ops1, c1)" by fastforce
  obtain src e where ev: "ev = (src, e)" by fastforce
  have one: "same_view c c1 \<and> one_thread c1 = one_thread c \<and> thread_infos c1 = thread_infos c \<and> Task_operation \<notin> set ops1"
    using d Cons.prems(2) by (cases src) (auto simp: ev split: if_splits)
  then have "same_view c1 c' \<and> one_thread c' = one_thread c1 \<and> thread_infos c' = thread_infos c1 \<and> Task_operation \<notin> set ops'"
    using Cons.prems(1) d by (intro Cons.IH) auto
  with one show ?case using same_view_trans by auto
qed simp

lemma wake_task:
  assumes inv: "wake_inv n s" and t: "t < n" and ph: "phases s t = In_task b" and new: "thread_infos (ctx s) t = Some new_thread_info"
  shows "wake_inv n (s\<lparr>ctx := task_return t evs (ctx s), phases := (phases s)(t := Looking)\<rparr>)"
proof -
  have core: "core n (ctx s) (phases s)" and priv: "private_ok (ctx s)" using inv by (simp_all add: wake_inv_def)
  let ?c = "if \<exists>e. (Interrupter, e) \<in> set evs then ctx s\<lparr>interrupt_pending := False\<rparr> else ctx s"
  obtain ops c1 where run: "reactor_run evs ([], ?c) = (ops, c1)" by fastforce
  have v: "same_view ?c c1" "one_thread c1 = one_thread (ctx s)" "thread_infos c1 = thread_infos (ctx s)"
    "Task_operation \<notin> set ops"
    using reactor_run_view [OF run] by auto
  have view: "task_present c1 = task_present (ctx s)" "sched_queue c1 = sched_queue (ctx s)" "stopped c1 = stopped (ctx s)"
    "event_set c1 = event_set (ctx s)" "waiters c1 = waiters (ctx s)" "notified c1 = notified (ctx s)"
    using v(1) by (auto simp: same_view_def)
  have "in_task (phases s t)" using ph by (simp add: in_task_def)
  note once = in_task_once [OF core t this]
  let ?c' = "c1\<lparr>task_interrupted := True, sched_queue := sched_queue c1 @ ops @ [Task_operation]\<rparr>"
  have ret: "task_return t evs (ctx s) = ?c'" by (rule task_return_eq [OF new run v(3)])
  have none: "((phases s)(t := Looking)) t' \<noteq> In_task b'" if "t' < n" for t' b'
    using once(2) [OF that] by (auto simp: in_task_def)
  then have "{t'. t' < n \<and> in_task (((phases s)(t := Looking)) t')} = {}" by (auto simp: in_task_def)
  moreover have "card {t'. t' < n \<and> ((phases s)(t := Looking)) t' = Sleeping} = card {t'. t' < n \<and> phases s t' = Sleeping}"
    by (rule card_phase_same) (simp add: ph)
  ultimately have "core n ?c' ((phases s)(t := Looking))"
    using core once(1) v(4) none by (simp add: core_def view)
  moreover have "alert n ?c' ((phases s)(t := Looking))" by (rule alert_awake [OF t]) simp
  ultimately show ?thesis unfolding ret using ph priv v(2,3)
    by (intro wake_inv_phase [OF inv t, where c = ?c' and p = Looking]) (simp_all add: private_ok_def private_ops_def)
qed

lemma wake_enter:
  assumes inv: "wake_inv n s" and t: "t < n" and ph: "phases s t = Outside"
    and enter: "run_enter t (ctx s) = (p, c)" and one: "one_thread (ctx s) \<longrightarrow> (\<forall>t' < n. phases s t' = Outside)"
    and once: "\<not> once"
  shows "wake_inv n (s\<lparr>ctx := c, phases := (phases s)(t := p), only_one := (only_one s)(t := once)\<rparr>)"
proof -
  have core: "core n (ctx s) (phases s)" and priv: "private_ok (ctx s)" using inv by (simp_all add: wake_inv_def)
  have n: "neutral p" using enter by (auto simp: run_enter_def split: if_splits)
  have v: "same_view (sched_stop (ctx s)) c \<and> p = Outside \<or> same_view (ctx s) c \<and> p = Looking"
    using enter by (auto simp: run_enter_def split: if_splits)
  then have core': "core n c ((phases s)(t := p))"
    using core core_stop(1) [OF core] ph n by (auto simp: core_neutral [OF t] core_same)
  have "alert n c ((phases s)(t := p))"
  proof (cases "p = Looking")
    case False
    then have "stopped c" using v by (auto simp: same_view_def wake_defs Let_def)
    then show ?thesis by (rule stopped_alert [OF core'])
  qed (simp add: alert_awake [OF t])
  moreover have "one_thread c = one_thread (ctx s)" "private_ok c"
    using enter priv by (auto simp: run_enter_def enter_thread_def private_ok_def private_ops_def new_thread_info_def wake_defs Let_def
        split: if_splits)
  moreover have "\<not> ((only_one s)(t := once)) t'" for t' using inv once by (simp add: wake_inv_def)
  moreover have "((phases s)(t := p)) t1 \<noteq> Outside \<Longrightarrow> ((phases s)(t := p)) t2 \<noteq> Outside \<Longrightarrow> t1 = t2"
    if "one_thread c" "t1 < n" "t2 < n" for t1 t2
    using that one calculation(2) by (auto split: if_splits)
  ultimately show ?thesis using core' by (auto simp: wake_inv_def)
qed

lemma wake_init: "loop_init one s \<Longrightarrow> wake_inv n s"
  by (auto simp: loop_init_def wake_inv_def core_def alert_def init_task_def new_scheduler_def wake_defs Let_def private_ok_def
      private_ops_def idle_def in_task_def)

lemma wake_step:
  assumes inv: "loop_inv n s" "wake_inv n s" and "loop_step n False s s'"
  shows "wake_inv n s'"
  using assms(3)
proof (cases rule: loop_step.cases)
  case (step_act t a)
  then show ?thesis using act_quiet [OF step_act(4)] wake_inv_act [OF inv(2)] by blast
next
  case (step_task t b evs)
  then have "thread_infos (ctx s) t = Some new_thread_info"
    using thread_phase [OF inv(1)] by (force simp: phase_fits_def)
  then show ?thesis using step_task wake_task [OF inv(2)] by simp
qed (auto simp: wake_enter [OF inv(2)] wake_look [OF inv(2)] wake_resume [OF inv(2)] wake_perform [OF inv(2)]
    wake_finish [OF inv(2)])

interpretation wakeful: invariant_system "loop_init one" "loop_step n False" "\<lambda>s. loop_inv n s \<and> wake_inv n s" for one n
  by unfold_locales (auto simp: loop_init_inv wake_init loop_step_inv wake_step)

text \<open>
  C36. No wake-up is lost. In every reachable state of the event loop whose threads call
  \<open>run\<close>: if the queue is not empty and some thread sleeps (in the condition variable, or in
  \<open>epoll_wait\<close> without an interrupt on its way), then another is going to look at the queue:
  it is about to take the mutex, or in the reactor without being able to block, or it
  is being woken with the event still set.
\<close>

theorem no_wakeup_is_lost:
  assumes "reach (loop_init one) (loop_step n False) s" and "sched_queue (ctx s) \<noteq> []"
    and "t < n" and "idle (ctx s) (phases s t)"
  shows "\<exists>t'<n. awake (ctx s) (phases s t')"
  using wakeful.inv_reach [OF assms(1)] assms(2-4) by (auto simp: wake_inv_def alert_def)

text \<open>A thread in \<open>epoll_wait\<close>, one in the condition variable, and a handler posted by a third.\<close>

lemma no_wakeup_is_lost_witness:
  "\<exists>s :: loop_state. sched_queue (ctx s) = [Handler 7] \<and> phases s 0 = In_task False \<and> \<not> interrupt_pending (ctx s) \<and>
     (\<exists>t'<3. awake (ctx s) (phases s t'))"
proof -
  have "\<exists>s. move_threads 3 False [(1, Act Guard_begin), (0, Enter False), (0, Look), (2, Enter False), (2, Look),
      (1, Act (Post 7 False))] demo_loop = Some s \<and> sched_queue (ctx s) = [Handler 7] \<and>
      phases s 0 = In_task False \<and> \<not> interrupt_pending (ctx s)"
    by (simp add: loop_evals)
  then obtain s where s: "reach (loop_init False) (loop_step 3 False) s" "sched_queue (ctx s) = [Handler 7]"
    "phases s 0 = In_task False" "\<not> interrupt_pending (ctx s)"
    using demo_loop_moves by blast
  have "\<exists>t'<3. awake (ctx s) (phases s t')"
    by (rule no_wakeup_is_lost [OF s(1), where t = 0]) (use s in \<open>simp_all add: idle_def\<close>)
  with s show ?thesis by blast
qed

text \<open>
  C37. With \<open>run_one\<close> a wake-up can be lost. A thread blocks in \<open>epoll_wait\<close> inside \<open>run\<close>; another
  calls \<open>run_one\<close>, whose handler posts a continuation. When the handler returns, the
  continuation moves from the private queue to the common one without waking anybody, and the
  thread leaves: the queue is not empty and everybody in the loop sleeps.
\<close>

theorem run_one_loses_wakeup:
  "\<exists>s. reach (loop_init False) (loop_step 2 True) s \<and> sched_queue (ctx s) = [Handler 8] \<and> \<not> stopped (ctx s) \<and>
     idle (ctx s) (phases s 1) \<and> \<not> (\<exists>t<2. awake (ctx s) (phases s t))"
proof -
  have "\<exists>s. move_threads 2 True [(1, Act Guard_begin), (1, Enter False), (1, Look), (0, Act (Post 7 False)),
      (0, Enter True), (0, Look), (1, Task [(Interrupter, 1)]), (1, Look), (0, Act (Post 8 True)), (0, Finish)]
      demo_loop = Some s \<and> sched_queue (ctx s) = [Handler 8] \<and> \<not> stopped (ctx s) \<and> \<not> interrupt_pending (ctx s) \<and>
      phases s 0 = Outside \<and> phases s 1 = In_task False"
    by (simp add: loop_evals)
  then obtain s where s: "reach (loop_init False) (loop_step 2 True) s" "sched_queue (ctx s) = [Handler 8]"
    "\<not> stopped (ctx s)" "\<not> interrupt_pending (ctx s)" "phases s 0 = Outside" "phases s 1 = In_task False"
    using demo_loop_moves by blast
  have "\<not> awake (ctx s) (phases s t)" if "t < 2" for t
  proof -
    from that have "t = 0 \<or> t = 1" by linarith
    then show ?thesis using s by (auto simp: awake_def)
  qed
  then show ?thesis using s by (intro exI [of _ s]) (auto simp: idle_def)
qed

end
