(* ===== verification/SocketService.thy ===== *)
theory SocketService
  imports EventLoop
begin

section \<open>Sockets (lib/asio, reactive_socket_service.hpp, basic_socket.hpp)\<close>

text \<open>
  The service behind the sockets of the program: what a socket object holds, its life from
  \<open>construct\<close> to \<open>destroy\<close>, the calls that block and those that start an operation of
  the reactor; then the classes on top, whose functions throw. A call takes the socket, the
  state of the \<open>io_context\<close> and the system; \<open>t\<close> is the calling thread.
\<close>

subsection \<open>The state of a socket\<close>

text \<open>Family, type and number of a protocol.\<close>

type_synonym protocol = "int \<times> int \<times> int"

definition SOCK_STREAM :: int where "SOCK_STREAM = 1"
definition SOCK_DGRAM :: int where "SOCK_DGRAM = 2"

record socket_impl =
  socket_fd :: int
  socket_state :: state_type
  reactor_data :: "nat option"
  socket_protocol :: protocol

definition is_open :: "socket_impl \<Rightarrow> bool" where
  "is_open impl \<longleftrightarrow> socket_fd impl \<noteq> invalid_socket"

text \<open>\<open>construct\<close> leaves the pointer to the descriptor as it is, in a new object uninitialised.\<close>

definition service_construct :: "socket_impl \<Rightarrow> socket_impl" where
  "service_construct impl = impl\<lparr>socket_fd := invalid_socket, socket_state := 0\<rparr>"

text \<open>The new object and the other afterwards; \<open>dflt\<close> is the protocol of a default endpoint.\<close>

definition base_move_construct :: "socket_impl \<Rightarrow> socket_impl \<Rightarrow> socket_impl \<times> socket_impl" where
  "base_move_construct impl other =
     (let impl = impl\<lparr>socket_fd := socket_fd other\<rparr>; other = other\<lparr>socket_fd := invalid_socket\<rparr>;
          impl = impl\<lparr>socket_state := socket_state other\<rparr>; other = other\<lparr>socket_state := 0\<rparr>;
          (target, source) = move_descriptor (reactor_data other)
      in (impl\<lparr>reactor_data := target\<rparr>, other\<lparr>reactor_data := source\<rparr>))"

definition service_move_construct ::
    "protocol \<Rightarrow> socket_impl \<Rightarrow> socket_impl \<Rightarrow> socket_impl \<times> socket_impl" where
  "service_move_construct dflt impl other =
     (let (impl, other) = base_move_construct impl other
      in (impl\<lparr>socket_protocol := socket_protocol other\<rparr>, other\<lparr>socket_protocol := dflt\<rparr>))"

subsection \<open>Opening and closing\<close>

definition service_destroy ::
    "nat \<Rightarrow> socket_impl \<Rightarrow> io_context \<Rightarrow> os \<Rightarrow> (socket_impl \<times> io_context \<times> os) option" where
  "service_destroy t impl c w =
     (if socket_fd impl \<noteq> invalid_socket then do {
        (data, c, w) \<leftarrow> deregister_descriptor t (socket_fd impl) (reactor_data impl)
          (\<not> has_bit (socket_state impl) possible_dup) c w;
        ((_, state, _), w) \<leftarrow> close_op (socket_fd impl) (socket_state impl) True w;
        let (data, c) = cleanup_descriptor_data data c;
        Some (impl\<lparr>socket_state := state, reactor_data := data\<rparr>, c, w) }
      else Some (impl, c, w))"

text \<open>The assigned socket is destroyed first.\<close>

definition service_move_assign ::
    "nat \<Rightarrow> protocol \<Rightarrow> socket_impl \<Rightarrow> socket_impl \<Rightarrow> io_context \<Rightarrow> os \<Rightarrow>
      ((socket_impl \<times> socket_impl) \<times> io_context \<times> os) option" where
  "service_move_assign t dflt impl other c w = do {
     (impl, c, w) \<leftarrow> service_destroy t impl c w;
     Some (service_move_construct dflt impl other, c, w) }"

definition service_close ::
    "nat \<Rightarrow> socket_impl \<Rightarrow> io_context \<Rightarrow> os \<Rightarrow> ((error_code \<times> socket_impl) \<times> io_context \<times> os) option" where
  "service_close t impl c w = do {
     ((ec, impl), c, w) \<leftarrow>
       (if is_open impl then do {
          (data, c, w) \<leftarrow> deregister_descriptor t (socket_fd impl) (reactor_data impl)
            (\<not> has_bit (socket_state impl) possible_dup) c w;
          ((_, state, ec), w) \<leftarrow> close_op (socket_fd impl) (socket_state impl) False w;
          let (data, c) = cleanup_descriptor_data data c;
          Some ((ec, impl\<lparr>socket_state := state, reactor_data := data\<rparr>), c, w) }
        else Some ((no_error, impl), c, w));
     Some ((ec, service_construct impl), c, w) }"

definition service_release ::
    "nat \<Rightarrow> socket_impl \<Rightarrow> io_context \<Rightarrow> os \<Rightarrow> ((error_code \<times> int \<times> socket_impl) \<times> io_context \<times> os) option" where
  "service_release t impl c w =
     (if \<not> is_open impl then Some ((bad_descriptor, invalid_socket, impl), c, w)
      else do {
        (data, c, w) \<leftarrow> deregister_descriptor t (socket_fd impl) (reactor_data impl) False c w;
        let (data, c) = cleanup_descriptor_data data c;
        let sock = socket_fd impl;
        Some ((no_error, sock, service_construct (impl\<lparr>reactor_data := data\<rparr>)), c, w) })"

definition service_cancel :: "nat \<Rightarrow> socket_impl \<Rightarrow> io_context \<Rightarrow> error_code \<times> io_context" where
  "service_cancel t impl c =
     (if \<not> is_open impl then (bad_descriptor, c) else (no_error, cancel_ops t (reactor_data impl) c))"

text \<open>The destructor of \<open>socket_holder\<close>.\<close>

definition holder_release :: "int \<Rightarrow> os \<Rightarrow> os option" where
  "holder_release s w =
     (if s \<noteq> invalid_socket then do { (_, w) \<leftarrow> close_op s 0 True w; Some w } else Some w)"

definition state_of_type :: "int \<Rightarrow> state_type" where
  "state_of_type ty =
     (if ty = SOCK_STREAM then stream_oriented else if ty = SOCK_DGRAM then datagram_oriented else 0)"

text \<open>The descriptor of a registration that failed stays in the socket object, which is not open.\<close>

definition do_open ::
    "socket_impl \<Rightarrow> int \<Rightarrow> int \<Rightarrow> int \<Rightarrow> io_context \<Rightarrow> os \<Rightarrow>
      ((error_code \<times> socket_impl) \<times> io_context \<times> os) option" where
  "do_open impl af ty number c w =
     (if is_open impl then Some ((already_open, impl), c, w)
      else do {
        ((sock, ec), w) \<leftarrow> socket_op af ty number w;
        if sock = invalid_socket then Some ((ec, impl), c, w)
        else do {
          ((err, d), c, w) \<leftarrow> register_descriptor sock c w;
          let impl = impl\<lparr>reactor_data := Some d\<rparr>;
          if err \<noteq> 0 then do {
            w \<leftarrow> holder_release sock w;
            Some ((system_error err, impl), c, w) }
          else Some ((no_error, impl\<lparr>socket_fd := sock, socket_state := state_of_type ty\<rparr>), c, w) } })"

definition do_assign ::
    "socket_impl \<Rightarrow> int \<Rightarrow> int \<Rightarrow> io_context \<Rightarrow> os \<Rightarrow>
      ((error_code \<times> socket_impl) \<times> io_context \<times> os) option" where
  "do_assign impl ty native_socket c w =
     (if is_open impl then Some ((already_open, impl), c, w)
      else do {
        ((err, d), c, w) \<leftarrow> register_descriptor native_socket c w;
        let impl = impl\<lparr>reactor_data := Some d\<rparr>;
        if err \<noteq> 0 then Some ((system_error err, impl), c, w)
        else Some ((no_error, impl\<lparr>socket_fd := native_socket,
          socket_state := state_of_type ty OR possible_dup\<rparr>), c, w) })"

definition service_open ::
    "socket_impl \<Rightarrow> protocol \<Rightarrow> io_context \<Rightarrow> os \<Rightarrow>
      ((error_code \<times> socket_impl) \<times> io_context \<times> os) option" where
  "service_open impl protocol c w = (case protocol of (af, ty, number) \<Rightarrow> do {
     ((ec, impl), c, w) \<leftarrow> do_open impl af ty number c w;
     Some ((ec, if fst ec = 0 then impl\<lparr>socket_protocol := protocol\<rparr> else impl), c, w) })"

definition service_assign ::
    "socket_impl \<Rightarrow> protocol \<Rightarrow> int \<Rightarrow> io_context \<Rightarrow> os \<Rightarrow>
      ((error_code \<times> socket_impl) \<times> io_context \<times> os) option" where
  "service_assign impl protocol native_socket c w = (case protocol of (_, ty, _) \<Rightarrow> do {
     ((ec, impl), c, w) \<leftarrow> do_assign impl ty native_socket c w;
     Some ((ec, if fst ec = 0 then impl\<lparr>socket_protocol := protocol\<rparr> else impl), c, w) })"

subsection \<open>Calls that block\<close>

definition service_bind :: "socket_impl \<Rightarrow> sockaddr \<Rightarrow> os \<Rightarrow> (error_code \<times> os) option" where
  "service_bind impl endpoint w = do {
     ((_, ec), w) \<leftarrow> bind_op (socket_fd impl) endpoint w;
     Some (ec, w) }"

definition service_listen :: "socket_impl \<Rightarrow> int \<Rightarrow> os \<Rightarrow> (error_code \<times> os) option" where
  "service_listen impl backlog w = do {
     ((_, ec), w) \<leftarrow> listen_op (socket_fd impl) backlog w;
     Some (ec, w) }"

definition service_shutdown :: "socket_impl \<Rightarrow> int \<Rightarrow> os \<Rightarrow> (error_code \<times> os) option" where
  "service_shutdown impl what w = do {
     ((_, ec), w) \<leftarrow> shutdown_op (socket_fd impl) what w;
     Some (ec, w) }"

text \<open>Options: level, name, value and size.\<close>

definition service_set_option ::
    "socket_impl \<Rightarrow> int \<Rightarrow> int \<Rightarrow> int \<Rightarrow> nat \<Rightarrow> os \<Rightarrow> ((error_code \<times> socket_impl) \<times> os) option" where
  "service_set_option impl level optname optval optlen w = do {
     ((_, state, ec), w) \<leftarrow> setsockopt_op (socket_fd impl) (socket_state impl) level optname optval optlen w;
     Some ((ec, impl\<lparr>socket_state := state\<rparr>), w) }"

definition service_get_option ::
    "socket_impl \<Rightarrow> int \<Rightarrow> int \<Rightarrow> nat \<Rightarrow> os \<Rightarrow> ((error_code \<times> (int \<times> nat) option) \<times> os) option" where
  "service_get_option impl level optname optlen w = do {
     ((_, ec, value), w) \<leftarrow> getsockopt_op (socket_fd impl) (socket_state impl) level optname optlen w;
     Some ((ec, value), w) }"

text \<open>\<open>None\<close> is the default endpoint.\<close>

definition local_endpoint :: "socket_impl \<Rightarrow> os \<Rightarrow> ((error_code \<times> sockaddr option) \<times> os) option" where
  "local_endpoint impl w = do {
     ((result, ec, addr), w) \<leftarrow> getsockname_op (socket_fd impl) w;
     Some ((ec, if result \<noteq> 0 then None else addr), w) }"

definition remote_endpoint :: "socket_impl \<Rightarrow> os \<Rightarrow> ((error_code \<times> sockaddr option) \<times> os) option" where
  "remote_endpoint impl w = do {
     ((result, ec, addr), w) \<leftarrow> getpeername_op (socket_fd impl) w;
     Some ((ec, if result \<noteq> 0 then None else addr), w) }"

definition at_mark :: "socket_impl \<Rightarrow> os \<Rightarrow> ((bool \<times> error_code) \<times> os) option" where
  "at_mark impl = sockatmark_op (socket_fd impl)"

definition service_available :: "socket_impl \<Rightarrow> os \<Rightarrow> ((int \<times> error_code) \<times> os) option" where
  "service_available impl = available_op (socket_fd impl)"

definition io_control ::
    "socket_impl \<Rightarrow> int \<Rightarrow> int \<Rightarrow> os \<Rightarrow> ((error_code \<times> int \<times> socket_impl) \<times> os) option" where
  "io_control impl cmd arg w = do {
     ((_, state, arg, ec), w) \<leftarrow> ioctl_op (socket_fd impl) (socket_state impl) cmd arg w;
     Some ((ec, arg, impl\<lparr>socket_state := state\<rparr>), w) }"

definition get_non_blocking :: "socket_impl \<Rightarrow> bool" where
  "get_non_blocking impl \<longleftrightarrow> has_bit (socket_state impl) user_set_non_blocking"

definition set_non_blocking :: "socket_impl \<Rightarrow> bool \<Rightarrow> os \<Rightarrow> ((error_code \<times> socket_impl) \<times> os) option" where
  "set_non_blocking impl mode w = do {
     ((_, state, ec), w) \<leftarrow> set_user_non_blocking (socket_fd impl) (socket_state impl) mode w;
     Some ((ec, impl\<lparr>socket_state := state\<rparr>), w) }"

definition get_native_non_blocking :: "socket_impl \<Rightarrow> bool" where
  "get_native_non_blocking impl \<longleftrightarrow> has_bit (socket_state impl) internal_non_blocking"

definition set_native_non_blocking :: "socket_impl \<Rightarrow> bool \<Rightarrow> os \<Rightarrow> ((error_code \<times> socket_impl) \<times> os) option" where
  "set_native_non_blocking impl mode w = do {
     ((_, state, ec), w) \<leftarrow> set_internal_non_blocking (socket_fd impl) (socket_state impl) mode w;
     Some ((ec, impl\<lparr>socket_state := state\<rparr>), w) }"

datatype wait_type = Wait_read | Wait_write | Wait_error | Wait_other

definition service_wait :: "socket_impl \<Rightarrow> wait_type \<Rightarrow> os \<Rightarrow> (error_code \<times> os) option" where
  "service_wait impl what w = do {
     ((_, ec), w) \<leftarrow> (case what of
        Wait_read \<Rightarrow> poll_read (socket_fd impl) (socket_state impl) (-1) w
      | Wait_write \<Rightarrow> poll_write (socket_fd impl) (socket_state impl) (-1) w
      | Wait_error \<Rightarrow> poll_error (socket_fd impl) (socket_state impl) (-1) w
      | Wait_other \<Rightarrow> Some ((0, invalid_argument), w));
     Some (ec, w) }"

definition service_send :: "socket_impl \<Rightarrow> string \<Rightarrow> int \<Rightarrow> os \<Rightarrow> ((int \<times> error_code) \<times> os) option" where
  "service_send impl buffers flags = sync_send (socket_fd impl) (socket_state impl) buffers flags (buffers = [])"

definition service_receive ::
    "socket_impl \<Rightarrow> nat \<Rightarrow> int \<Rightarrow> os \<Rightarrow> ((int \<times> error_code \<times> string) \<times> os) option" where
  "service_receive impl len flags = sync_recv (socket_fd impl) (socket_state impl) len flags (len = 0)"

definition service_send_to ::
    "socket_impl \<Rightarrow> string \<Rightarrow> sockaddr \<Rightarrow> int \<Rightarrow> os \<Rightarrow> ((int \<times> error_code) \<times> os) option" where
  "service_send_to impl buffers destination flags =
     sync_sendto (socket_fd impl) (socket_state impl) buffers flags destination"

text \<open>The endpoint takes the sender's address if there was no error.\<close>

definition service_receive_from ::
    "socket_impl \<Rightarrow> nat \<Rightarrow> sockaddr \<Rightarrow> int \<Rightarrow> os \<Rightarrow> ((int \<times> error_code \<times> string \<times> sockaddr) \<times> os) option" where
  "service_receive_from impl len endpoint flags w = do {
     ((bytes, ec, data, addr), w) \<leftarrow> sync_recvfrom (socket_fd impl) (socket_state impl) len flags w;
     Some ((bytes, ec, data, if fst ec = 0 then addr else endpoint), w) }"

definition receive_with_flags ::
    "socket_impl \<Rightarrow> nat \<Rightarrow> int \<Rightarrow> os \<Rightarrow> ((int \<times> error_code \<times> string \<times> int) \<times> os) option" where
  "receive_with_flags impl = sync_recvmsg (socket_fd impl) (socket_state impl)"

definition service_connect :: "socket_impl \<Rightarrow> sockaddr \<Rightarrow> os \<Rightarrow> (error_code \<times> os) option" where
  "service_connect impl = sync_connect (socket_fd impl)"

text \<open>The accepted connection becomes the peer's, or is closed.\<close>

definition service_accept ::
    "socket_impl \<Rightarrow> socket_impl \<Rightarrow> io_context \<Rightarrow> os \<Rightarrow>
      ((error_code \<times> socket_impl \<times> sockaddr option) \<times> io_context \<times> os) option" where
  "service_accept impl peer c w =
     (if is_open peer then Some ((already_open, peer, None), c, w)
      else do {
        ((new_socket, ec, addr), w) \<leftarrow> sync_accept (socket_fd impl) (socket_state impl) w;
        if new_socket \<noteq> invalid_socket then do {
          ((ec, peer), c, w) \<leftarrow> service_assign peer (socket_protocol impl) new_socket c w;
          w \<leftarrow> (if fst ec = 0 then Some w else holder_release new_socket w);
          Some ((ec, peer, addr), c, w) }
        else Some ((ec, peer, None), c, w) })"

subsection \<open>Calls that start an operation\<close>

definition service_start_op ::
    "nat \<Rightarrow> socket_impl \<Rightarrow> op_type \<Rightarrow> reactor_op \<Rightarrow> bool \<Rightarrow> bool \<Rightarrow> bool \<Rightarrow> io_context \<Rightarrow> os \<Rightarrow>
      (socket_impl \<times> io_context \<times> os) option" where
  "service_start_op t impl ty op is_continuation is_non_blocking noop c w =
     (if noop then Some (impl, post_immediate_completion t (Completion op) is_continuation c, w)
      else do {
        ((ok, state, ec), w) \<leftarrow>
          (if has_bit (socket_state impl) non_blocking then Some ((True, socket_state impl, op_ec op), w)
           else set_internal_non_blocking (socket_fd impl) (socket_state impl) True w);
        let impl = impl\<lparr>socket_state := state\<rparr>;
        let op = op\<lparr>op_ec := ec\<rparr>;
        if ok then do {
          (c, w) \<leftarrow> start_op t ty (socket_fd impl) (reactor_data impl) op is_continuation is_non_blocking c w;
          Some (impl, c, w) }
        else Some (impl, post_immediate_completion t (Completion op) is_continuation c, w) })"

definition start_accept_op ::
    "nat \<Rightarrow> socket_impl \<Rightarrow> reactor_op \<Rightarrow> bool \<Rightarrow> bool \<Rightarrow> io_context \<Rightarrow> os \<Rightarrow>
      (socket_impl \<times> io_context \<times> os) option" where
  "start_accept_op t impl op is_continuation peer_is_open c w =
     (if \<not> peer_is_open then service_start_op t impl Read_op op is_continuation True False c w
      else Some (impl, post_immediate_completion t (Completion (op\<lparr>op_ec := already_open\<rparr>)) is_continuation c, w))"

definition start_connect_op ::
    "nat \<Rightarrow> socket_impl \<Rightarrow> reactor_op \<Rightarrow> bool \<Rightarrow> sockaddr \<Rightarrow> io_context \<Rightarrow> os \<Rightarrow>
      (socket_impl \<times> io_context \<times> os) option" where
  "start_connect_op t impl op is_continuation addr c w = do {
     ((ok, state, ec), w) \<leftarrow>
       (if has_bit (socket_state impl) non_blocking then Some ((True, socket_state impl, op_ec op), w)
        else set_internal_non_blocking (socket_fd impl) (socket_state impl) True w);
     let impl = impl\<lparr>socket_state := state\<rparr>;
     let op = op\<lparr>op_ec := ec\<rparr>;
     let post = (\<lambda>op c. post_immediate_completion t (Completion op) is_continuation c);
     if ok then do {
       ((result, ec), w) \<leftarrow> connect_op (socket_fd impl) addr w;
       if result \<noteq> 0 \<and> (ec = in_progress \<or> ec = would_block) then do {
         (c, w) \<leftarrow> start_op t connect_op_type (socket_fd impl) (reactor_data impl) (op\<lparr>op_ec := no_error\<rparr>)
           is_continuation False c w;
         Some (impl, c, w) }
       else Some (impl, post (op\<lparr>op_ec := ec\<rparr>) c, w) }
     else Some (impl, post op c, w) }"

definition message_out_of_band :: int where "message_out_of_band = 1"

definition new_reactor_op :: "nat \<Rightarrow> io \<Rightarrow> reactor_op" where
  "new_reactor_op i io = \<lparr>op_id = i, op_io = io, op_ec = no_error, op_bytes = 0, op_data = [], op_addr = [],
     op_flags = 0, op_socket = invalid_socket\<rparr>"

text \<open>Out-of-band data comes with the exceptional events.\<close>

definition receive_type :: "int \<Rightarrow> op_type" where
  "receive_type flags = (if flags AND message_out_of_band \<noteq> 0 then Except_op else Read_op)"

definition async_send ::
    "nat \<Rightarrow> nat \<Rightarrow> socket_impl \<Rightarrow> string \<Rightarrow> int \<Rightarrow> bool \<Rightarrow> io_context \<Rightarrow> os \<Rightarrow>
      (socket_impl \<times> io_context \<times> os) option" where
  "async_send t i impl buffers flags is_continuation =
     service_start_op t impl Write_op
       (new_reactor_op i (Send_io (socket_fd impl) buffers flags (socket_state impl))) is_continuation True
       (has_bit (socket_state impl) stream_oriented \<and> buffers = [])"

definition async_send_to ::
    "nat \<Rightarrow> nat \<Rightarrow> socket_impl \<Rightarrow> string \<Rightarrow> sockaddr \<Rightarrow> int \<Rightarrow> bool \<Rightarrow> io_context \<Rightarrow> os \<Rightarrow>
      (socket_impl \<times> io_context \<times> os) option" where
  "async_send_to t i impl buffers destination flags is_continuation =
     service_start_op t impl Write_op
       (new_reactor_op i (Sendto_io (socket_fd impl) buffers flags destination)) is_continuation True False"

definition async_receive ::
    "nat \<Rightarrow> nat \<Rightarrow> socket_impl \<Rightarrow> nat \<Rightarrow> int \<Rightarrow> bool \<Rightarrow> io_context \<Rightarrow> os \<Rightarrow>
      (socket_impl \<times> io_context \<times> os) option" where
  "async_receive t i impl len flags is_continuation =
     service_start_op t impl (receive_type flags)
       (new_reactor_op i (Recv_io (socket_fd impl) len flags (socket_state impl))) is_continuation
       (flags AND message_out_of_band = 0) (has_bit (socket_state impl) stream_oriented \<and> len = 0)"

definition async_receive_from ::
    "nat \<Rightarrow> nat \<Rightarrow> socket_impl \<Rightarrow> nat \<Rightarrow> int \<Rightarrow> bool \<Rightarrow> io_context \<Rightarrow> os \<Rightarrow>
      (socket_impl \<times> io_context \<times> os) option" where
  "async_receive_from t i impl len flags is_continuation =
     service_start_op t impl (receive_type flags)
       (new_reactor_op i (Recvfrom_io (socket_fd impl) len flags)) is_continuation True False"

definition async_receive_with_flags ::
    "nat \<Rightarrow> nat \<Rightarrow> socket_impl \<Rightarrow> nat \<Rightarrow> int \<Rightarrow> bool \<Rightarrow> io_context \<Rightarrow> os \<Rightarrow>
      (socket_impl \<times> io_context \<times> os) option" where
  "async_receive_with_flags t i impl len in_flags is_continuation =
     service_start_op t impl (receive_type in_flags)
       (new_reactor_op i (Recvmsg_io (socket_fd impl) len in_flags)) is_continuation
       (in_flags AND message_out_of_band = 0) False"

text \<open>Without buffers, and \<open>async_wait\<close>: only wait until the socket is ready.\<close>

definition async_null_buffers ::
    "nat \<Rightarrow> nat \<Rightarrow> socket_impl \<Rightarrow> op_type \<Rightarrow> bool \<Rightarrow> io_context \<Rightarrow> os \<Rightarrow>
      (socket_impl \<times> io_context \<times> os) option" where
  "async_null_buffers t i impl ty is_continuation =
     service_start_op t impl ty (new_reactor_op i Wait_io) is_continuation False False"

definition async_wait ::
    "nat \<Rightarrow> nat \<Rightarrow> socket_impl \<Rightarrow> wait_type \<Rightarrow> bool \<Rightarrow> io_context \<Rightarrow> os \<Rightarrow>
      (socket_impl \<times> io_context \<times> os) option" where
  "async_wait t i impl what is_continuation c w =
     (let op = new_reactor_op i Wait_io;
          start = (\<lambda>ty. service_start_op t impl ty op is_continuation False False c w)
      in case what of
           Wait_read \<Rightarrow> start Read_op
         | Wait_write \<Rightarrow> start Write_op
         | Wait_error \<Rightarrow> start Except_op
         | Wait_other \<Rightarrow> Some (impl,
             post_immediate_completion t (Completion (op\<lparr>op_ec := invalid_argument\<rparr>)) is_continuation c, w))"

definition async_accept ::
    "nat \<Rightarrow> nat \<Rightarrow> socket_impl \<Rightarrow> bool \<Rightarrow> bool \<Rightarrow> io_context \<Rightarrow> os \<Rightarrow>
      (socket_impl \<times> io_context \<times> os) option" where
  "async_accept t i impl peer_is_open is_continuation =
     start_accept_op t impl (new_reactor_op i (Accept_io (socket_fd impl) (socket_state impl))) is_continuation
       peer_is_open"

definition async_connect ::
    "nat \<Rightarrow> nat \<Rightarrow> socket_impl \<Rightarrow> sockaddr \<Rightarrow> bool \<Rightarrow> io_context \<Rightarrow> os \<Rightarrow>
      (socket_impl \<times> io_context \<times> os) option" where
  "async_connect t i impl peer_endpoint is_continuation =
     start_connect_op t impl (new_reactor_op i (Connect_io (socket_fd impl))) is_continuation peer_endpoint"

subsection \<open>The functions that throw (basic_socket.hpp, basic_datagram_socket.hpp)\<close>

text \<open>An exception is the error code and the place, the name of the function.\<close>

type_synonym 'a thrown = "error_code \<times> string + 'a"

definition throw_error :: "error_code \<Rightarrow> string \<Rightarrow> 'a \<Rightarrow> 'a thrown" where
  "throw_error ec location x = (if fst ec \<noteq> 0 then Inl (ec, location) else Inr x)"

text \<open>The constructor with an endpoint; when it throws, the member \<open>impl_\<close> is destroyed.\<close>

definition bound_socket ::
    "nat \<Rightarrow> socket_impl \<Rightarrow> protocol \<Rightarrow> sockaddr \<Rightarrow> io_context \<Rightarrow> os \<Rightarrow>
      ((socket_impl thrown) \<times> io_context \<times> os) option" where
  "bound_socket t impl protocol endpoint c w = do {
     ((ec, impl), c, w) \<leftarrow> service_open (service_construct impl) protocol c w;
     if fst ec \<noteq> 0 then do {
       (_, c, w) \<leftarrow> service_destroy t impl c w;
       Some (throw_error ec ''open'' impl, c, w) }
     else do {
       (ec, w) \<leftarrow> service_bind impl endpoint w;
       if fst ec \<noteq> 0 then do {
         (_, c, w) \<leftarrow> service_destroy t impl c w;
         Some (throw_error ec ''bind'' impl, c, w) }
       else Some (Inr impl, c, w) } }"

definition basic_open ::
    "socket_impl \<Rightarrow> protocol \<Rightarrow> io_context \<Rightarrow> os \<Rightarrow> ((unit thrown \<times> socket_impl) \<times> io_context \<times> os) option"
where
  "basic_open impl protocol c w = do {
     ((ec, impl), c, w) \<leftarrow> service_open impl protocol c w;
     Some ((throw_error ec ''open'' (), impl), c, w) }"

definition basic_close ::
    "nat \<Rightarrow> socket_impl \<Rightarrow> io_context \<Rightarrow> os \<Rightarrow> ((unit thrown \<times> socket_impl) \<times> io_context \<times> os) option"
where
  "basic_close t impl c w = do {
     ((ec, impl), c, w) \<leftarrow> service_close t impl c w;
     Some ((throw_error ec ''close'' (), impl), c, w) }"

definition basic_release ::
    "nat \<Rightarrow> socket_impl \<Rightarrow> io_context \<Rightarrow> os \<Rightarrow> ((int thrown \<times> socket_impl) \<times> io_context \<times> os) option"
where
  "basic_release t impl c w = do {
     ((ec, s, impl), c, w) \<leftarrow> service_release t impl c w;
     Some ((throw_error ec ''release'' s, impl), c, w) }"

definition basic_cancel :: "nat \<Rightarrow> socket_impl \<Rightarrow> io_context \<Rightarrow> unit thrown \<times> io_context" where
  "basic_cancel t impl c = (let (ec, c) = service_cancel t impl c in (throw_error ec ''cancel'' (), c))"

definition basic_connect ::
    "socket_impl \<Rightarrow> protocol \<Rightarrow> sockaddr \<Rightarrow> io_context \<Rightarrow> os \<Rightarrow>
      ((unit thrown \<times> socket_impl) \<times> io_context \<times> os) option" where
  "basic_connect impl protocol peer_endpoint c w = do {
     ((ec, impl), c, w) \<leftarrow>
       (if \<not> is_open impl then service_open impl protocol c w else Some ((no_error, impl), c, w));
     if fst ec \<noteq> 0 then Some ((throw_error ec ''connect'' (), impl), c, w)
     else do {
       (ec, w) \<leftarrow> service_connect impl peer_endpoint w;
       Some ((throw_error ec ''connect'' (), impl), c, w) } }"

definition basic_set_option ::
    "socket_impl \<Rightarrow> int \<Rightarrow> int \<Rightarrow> int \<Rightarrow> nat \<Rightarrow> os \<Rightarrow> ((unit thrown \<times> socket_impl) \<times> os) option" where
  "basic_set_option impl level optname optval optlen w = do {
     ((ec, impl), w) \<leftarrow> service_set_option impl level optname optval optlen w;
     Some ((throw_error ec ''set_option'' (), impl), w) }"

definition basic_send_to :: "socket_impl \<Rightarrow> string \<Rightarrow> sockaddr \<Rightarrow> os \<Rightarrow> (int thrown \<times> os) option" where
  "basic_send_to impl buffers destination w = do {
     ((s, ec), w) \<leftarrow> service_send_to impl buffers destination 0 w;
     Some (throw_error ec ''send_to'' s, w) }"

definition basic_receive_from ::
    "socket_impl \<Rightarrow> nat \<Rightarrow> sockaddr \<Rightarrow> os \<Rightarrow> ((int \<times> string \<times> sockaddr) thrown \<times> os) option" where
  "basic_receive_from impl len endpoint w = do {
     ((s, ec, data, endpoint), w) \<leftarrow> service_receive_from impl len endpoint 0 w;
     Some (throw_error ec ''receive_from'' (s, data, endpoint), w) }"

text \<open>\<open>ClientReceiver::stop\<close>.\<close>

definition receiver_stop :: "nat \<Rightarrow> socket_impl \<Rightarrow> io_context \<Rightarrow> unit thrown \<times> io_context" where
  "receiver_stop t impl c = basic_cancel t impl (sched_stop c)"

end
