(* ===== verification/SocketTrace.thy ===== *)
theory SocketTrace
  imports SocketService "HOL-Library.Multiset"
begin

section \<open>What the calls on a socket do to the system and the reactor\<close>

text \<open>
  The calls of the system that a function makes, with their answers: what they open and close,
  and which registrations fail. Then the effect of a function on one socket: on its
  descriptor in the reactor's pool, on the descriptors of other sockets, and on the system.
\<close>

subsection \<open>The calls made to the system, with their answers\<close>

type_synonym sys_trace = "(syscall \<times> answer) list"

definition ran :: "sys_trace \<Rightarrow> os \<Rightarrow> os \<Rightarrow> bool" where
  "ran tr w w' \<longleftrightarrow> answers w = map snd tr @ answers w' \<and> syscalls w' = syscalls w @ map fst tr"

lemma ran_refl [simp, intro]: "ran [] w w"
  by (simp add: ran_def)

lemma ran_trans: "ran tr w w1 \<Longrightarrow> ran tr' w1 w' \<Longrightarrow> ran (tr @ tr') w w'"
  by (simp add: ran_def)

lemma ran_sys: "sys c w = Some (a, w') \<Longrightarrow> ran [(c, a)] w w'"
  by (auto simp: sys_def ran_def split: list.splits)

text \<open>What an answered call opens and closes, and whether it is a registration that failed.\<close>

definition opened_by :: "syscall \<times> answer \<Rightarrow> int list" where
  "opened_by = (\<lambda>(c, a). case c of
     Sys_socket _ _ _ \<Rightarrow> if returned a \<noteq> invalid_socket then [returned a] else []
   | Sys_accept _ \<Rightarrow> if returned a \<noteq> invalid_socket then [returned a] else []
   | _ \<Rightarrow> [])"

definition closed_by :: "syscall \<times> answer \<Rightarrow> int list" where
  "closed_by = (\<lambda>(c, a). case c of Sys_close s \<Rightarrow> [s] | _ \<Rightarrow> [])"

definition failed_by :: "syscall \<times> answer \<Rightarrow> unit list" where
  "failed_by = (\<lambda>(c, a). case c of
     Sys_epoll_ctl cmd _ _ \<Rightarrow>
       if cmd = EPOLL_CTL_ADD \<and> returned a \<noteq> 0 \<and> errno a \<noteq> EPERM \<and> errno a \<noteq> 0 then [()] else []
   | _ \<Rightarrow> [])"

text \<open>A \<open>close\<close> that says it would block has not closed.\<close>

definition settled :: "syscall \<times> answer \<Rightarrow> bool" where
  "settled = (\<lambda>(c, a). case c of Sys_close _ \<Rightarrow> returned a = 0 \<or> errno a \<noteq> 11 | _ \<Rightarrow> True)"

definition opened_in :: "sys_trace \<Rightarrow> int multiset" where
  "opened_in tr = mset (concat (map opened_by tr))"

definition closed_in :: "sys_trace \<Rightarrow> int multiset" where
  "closed_in tr = mset (concat (map closed_by tr))"

definition failed_in :: "sys_trace \<Rightarrow> nat" where
  "failed_in tr = length (concat (map failed_by tr))"

lemma trace_accounts [simp]:
  "opened_in [] = {#}" "closed_in [] = {#}" "failed_in [] = 0"
  "opened_in (tr @ tr') = opened_in tr + opened_in tr'" "closed_in (tr @ tr') = closed_in tr + closed_in tr'"
  "failed_in (tr @ tr') = failed_in tr + failed_in tr'"
  "opened_in (x # tr) = mset (opened_by x) + opened_in tr" "closed_in (x # tr) = mset (closed_by x) + closed_in tr"
  "failed_in (x # tr) = length (failed_by x) + failed_in tr"
  by (simp_all add: opened_in_def closed_in_def failed_in_def)

lemmas entry_defs = opened_by_def closed_by_def failed_by_def settled_def

subsection \<open>Calls that neither open nor close\<close>

fun plain_call :: "syscall \<Rightarrow> bool" where
  "plain_call (Sys_socket _ _ _) \<longleftrightarrow> False"
| "plain_call (Sys_accept _) \<longleftrightarrow> False"
| "plain_call (Sys_close _) \<longleftrightarrow> False"
| "plain_call (Sys_epoll_ctl cmd _ _) \<longleftrightarrow> cmd \<noteq> EPOLL_CTL_ADD"
| "plain_call _ \<longleftrightarrow> True"

lemma plain_entry:
  "plain_call c \<Longrightarrow> opened_by (c, a) = [] \<and> closed_by (c, a) = [] \<and> failed_by (c, a) = [] \<and> settled (c, a)"
  by (cases c) (auto simp: entry_defs)

definition plain_to :: "os \<Rightarrow> os \<Rightarrow> bool" where
  "plain_to w w' \<longleftrightarrow> (\<exists>tr. ran tr w w' \<and> opened_in tr = {#} \<and> closed_in tr = {#} \<and> failed_in tr = 0 \<and> list_all settled tr)"

named_theorems plain_intros "functions that neither open nor close"

lemma plain_refl [simp, intro]: "plain_to w w"
  unfolding plain_to_def by (rule exI [of _ "[]"]) simp

lemma plain_trans [trans]: "plain_to w w1 \<Longrightarrow> plain_to w1 w' \<Longrightarrow> plain_to w w'"
  unfolding plain_to_def
proof (elim exE conjE)
  fix tr tr'
  assume "ran tr w w1" "ran tr' w1 w'"
  then have "ran (tr @ tr') w w'" by (rule ran_trans)
  moreover assume "opened_in tr = {#}" "closed_in tr = {#}" "failed_in tr = 0" "list_all settled tr"
    "opened_in tr' = {#}" "closed_in tr' = {#}" "failed_in tr' = 0" "list_all settled tr'"
  ultimately show "\<exists>tr. ran tr w w' \<and> opened_in tr = {#} \<and> closed_in tr = {#} \<and> failed_in tr = 0 \<and> list_all settled tr"
    by (intro exI [of _ "tr @ tr'"]) simp
qed

lemma plain_sys: "sys c w = Some (a, w') \<Longrightarrow> plain_call c \<Longrightarrow> plain_to w w'"
  unfolding plain_to_def by (rule exI [of _ "[(c, a)]"]) (simp add: ran_sys plain_entry)

lemma plain_call_once: "call_once s c ok w = Some (r, w') \<Longrightarrow> plain_call c \<Longrightarrow> plain_to w w'"
  by (auto simp: call_once_def Let_def error_wrapper_def split: if_splits bind_split_asm intro: plain_sys)

lemma plain_calls:
  "bind_op s addr w = Some (r1, w') \<Longrightarrow> plain_to w w'"
  "connect_op s addr w = Some (r2, w') \<Longrightarrow> plain_to w w'"
  "getsockopt_op s state level optname optlen w = Some (r3, w') \<Longrightarrow> plain_to w w'"
  "setsockopt_op s state level optname optval n w = Some (r4, w') \<Longrightarrow> plain_to w w'"
  "set_internal_non_blocking s state b w = Some (r5, w') \<Longrightarrow> plain_to w w'"
  "set_user_non_blocking s state b w = Some (r6, w') \<Longrightarrow> plain_to w w'"
  "poll_op ev s state msec w = Some (r7, w') \<Longrightarrow> plain_to w w'"
  "poll_connect s msec w = Some (r8, w') \<Longrightarrow> plain_to w w'"
  by (auto simp: bind_op_def connect_op_def getsockopt_op_def setsockopt_op_def set_internal_non_blocking_def
      set_user_non_blocking_def poll_op_def poll_connect_def Let_def error_wrapper_def
      split: if_splits bind_split_asm intro: plain_sys plain_call_once)

lemma plain_transfers:
  "recv_op s len flags w = Some (r1, w') \<Longrightarrow> plain_to w w'"
  "recvfrom_op s len flags w = Some (r2, w') \<Longrightarrow> plain_to w w'"
  "recvmsg_op s len flags w = Some (r3, w') \<Longrightarrow> plain_to w w'"
  "send_op s data flags w = Some (r4, w') \<Longrightarrow> plain_to w w'"
  "sendto_op s data flags addr w = Some (r5, w') \<Longrightarrow> plain_to w w'"
  by (auto simp: recv_op_def recvfrom_op_def recvmsg_op_def send_op_def sendto_op_def Let_def error_wrapper_def
      split: if_splits bind_split_asm intro: plain_sys)

text \<open>The loops that wait.\<close>

context retry_loop
begin

lemma spurious_plain:
  assumes "spurious w w'" and "\<And>w a w1. attempt w = Some (a, w1) \<Longrightarrow> decide a = None \<Longrightarrow> plain_to w w1"
    and "\<And>w p w1. wait w = Some (p, w1) \<Longrightarrow> plain_to w w1"
  shows "plain_to w w'"
  using assms(1)
proof (induction rule: spurious.induct)
  case (round w a w1 ready ec w2 w')
  then show ?case using assms(2) [OF round(1,2)] assms(3) [OF round(3)] plain_trans by blast
qed simp

lemma plain_loop:
  assumes "loop w = Some (r, w')" and attempt: "\<And>w a w1. attempt w = Some (a, w1) \<Longrightarrow> plain_to w w1"
    and wait: "\<And>w p w1. wait w = Some (p, w1) \<Longrightarrow> plain_to w w1"
  shows "plain_to w w'"
proof -
  obtain w0 a w1 where "spurious w w0" and a: "attempt w0 = Some (a, w1)"
    and w': "w' = w1 \<or> (\<exists>p. wait w1 = Some (p, w'))"
    using outcome [OF assms(1)] by blast
  then have "plain_to w w0" using spurious_plain assms(2,3) by blast
  moreover have "plain_to w0 w1" "plain_to w1 w'" using attempt [OF a] w' wait by auto
  ultimately show ?thesis using plain_trans by blast
qed

end

lemma plain_polls:
  "poll_read s state msec w = Some (r, w') \<Longrightarrow> plain_to w w'"
  "poll_write s state msec w = Some (r, w') \<Longrightarrow> plain_to w w'"
  by (auto simp: poll_read_def poll_write_def dest: plain_calls)

lemma plain_loops:
  "recv_loop s state len flags w = Some (r1, w') \<Longrightarrow> plain_to w w'"
  "recvfrom_loop s state len flags w = Some (r2, w') \<Longrightarrow> plain_to w w'"
  "recvmsg_loop s state len flags w = Some (r3, w') \<Longrightarrow> plain_to w w'"
  "send_loop s state data flags w = Some (r4, w') \<Longrightarrow> plain_to w w'"
  "sendto_loop s state data flags addr w = Some (r5, w') \<Longrightarrow> plain_to w w'"
  by (erule recv.plain_loop recvfrom.plain_loop recvmsg.plain_loop send.plain_loop sendto.plain_loop,
      (erule plain_transfers plain_polls)+)+

lemma plain_syncs:
  "sync_recvfrom s state len flags w = Some (r1, w') \<Longrightarrow> plain_to w w'"
  "sync_sendto s state data flags addr w = Some (r2, w') \<Longrightarrow> plain_to w w'"
  "sync_connect s addr w = Some (r3, w') \<Longrightarrow> plain_to w w'"
  subgoal by (auto simp: sync_recvfrom_def split: if_splits dest: plain_loops)
  subgoal by (auto simp: sync_sendto_def split: if_splits dest: plain_loops)
  subgoal by (auto simp: sync_connect_def split: if_splits bind_split_asm dest!: plain_calls) (metis plain_trans)+
  done

text \<open>The attempts of the reactor.\<close>

lemma plain_attempts:
  "non_blocking_recv s len flags is_stream n w = Some y1 \<Longrightarrow> plain_to w (snd y1)"
  "non_blocking_recvfrom s len flags n w = Some y2 \<Longrightarrow> plain_to w (snd y2)"
  "non_blocking_recvmsg s len flags n w = Some y3 \<Longrightarrow> plain_to w (snd y3)"
  "non_blocking_send s data flags n w = Some y4 \<Longrightarrow> plain_to w (snd y4)"
  "non_blocking_sendto s data flags addr n w = Some y5 \<Longrightarrow> plain_to w (snd y5)"
  subgoal
    by (erule non_blocking_recv.raw_induct [where P = "\<lambda>_ _ _ _ _ w y. plain_to w (snd y)", rotated])
      (auto split: if_splits bind_split_asm dest!: plain_transfers intro: plain_trans)
  subgoal
    by (erule non_blocking_recvfrom.raw_induct [where P = "\<lambda>_ _ _ _ w y. plain_to w (snd y)", rotated])
      (auto split: if_splits bind_split_asm dest!: plain_transfers intro: plain_trans)
  subgoal
    by (erule non_blocking_recvmsg.raw_induct [where P = "\<lambda>_ _ _ _ w y. plain_to w (snd y)", rotated])
      (auto split: if_splits bind_split_asm dest!: plain_transfers intro: plain_trans)
  subgoal
    by (erule non_blocking_send.raw_induct [where P = "\<lambda>_ _ _ _ w y. plain_to w (snd y)", rotated])
      (auto split: if_splits bind_split_asm dest!: plain_transfers intro: plain_trans)
  subgoal
    by (erule non_blocking_sendto.raw_induct [where P = "\<lambda>_ _ _ _ _ w y. plain_to w (snd y)", rotated])
      (auto split: if_splits bind_split_asm dest!: plain_transfers intro: plain_trans)
  done

fun accepts :: "io \<Rightarrow> bool" where
  "accepts (Accept_io _ _) \<longleftrightarrow> True"
| "accepts _ \<longleftrightarrow> False"

lemma plain_perform: "perform op w = Some ((status, op'), w') \<Longrightarrow> \<not> accepts (op_io op) \<Longrightarrow> plain_to w w'"
  by (cases "op_io op")
    (fastforce simp: perform_defs non_blocking_connect_def split: if_splits bind_split_asm
      dest!: plain_attempts plain_calls plain_sys intro: plain_trans)+

subsection \<open>The pool of descriptors\<close>

definition descriptor_core :: "io_context \<Rightarrow> nat \<Rightarrow> int \<times> bool" where
  "descriptor_core c d = (ds_descriptor (descriptors c d), ds_shutdown (descriptors c d))"

definition pool_wf :: "io_context \<Rightarrow> bool" where
  "pool_wf c \<longleftrightarrow> distinct (live_descriptors c @ free_descriptors c) \<and>
     set (live_descriptors c @ free_descriptors c) \<subseteq> {..<descriptors_created c}"

definition same_pool :: "io_context \<Rightarrow> io_context \<Rightarrow> bool" where
  "same_pool c c' \<longleftrightarrow> live_descriptors c' = live_descriptors c \<and> free_descriptors c' = free_descriptors c \<and>
     descriptors_created c' = descriptors_created c \<and> descriptor_core c' = descriptor_core c"

lemma same_pool_refl [simp, intro]: "same_pool c c"
  by (simp add: same_pool_def)

lemma same_pool_trans [trans]: "same_pool c c1 \<Longrightarrow> same_pool c1 c' \<Longrightarrow> same_pool c c'"
  by (simp add: same_pool_def)

lemma same_pool_wf: "same_pool c c' \<Longrightarrow> pool_wf c \<Longrightarrow> pool_wf c'"
  by (simp add: same_pool_def pool_wf_def)

lemma same_pool_fields:
  "live_descriptors c' = live_descriptors c \<Longrightarrow> free_descriptors c' = free_descriptors c \<Longrightarrow>
     descriptors_created c' = descriptors_created c \<Longrightarrow> descriptors c' = descriptors c \<Longrightarrow> same_pool c c'"
  by (simp add: same_pool_def descriptor_core_def fun_eq_iff)

lemma same_pool_scheduler:
  "same_pool c (post_immediate_completion t op b c)" "same_pool c (post_deferred_completions t ops c)"
  "same_pool c (work_started c)" "same_pool c (sched_stop c)"
  by (rule same_pool_fields; simp add: post_immediate_completion_def post_deferred_completions_def wake_defs
      work_started_def update_thread_def Let_def)+

lemma same_pool_update:
  "ds_descriptor (f (descriptors c d)) = ds_descriptor (descriptors c d) \<Longrightarrow>
     ds_shutdown (f (descriptors c d)) = ds_shutdown (descriptors c d) \<Longrightarrow> same_pool c (update_descriptor d f c)"
  by (simp add: same_pool_def update_descriptor_def descriptor_core_def fun_eq_iff)

lemma same_pool_cancel: "same_pool c (cancel_ops t data c)"
proof (cases data)
  case (Some d)
  have "same_pool c (update_descriptor d (\<lambda>ds. ds\<lparr>op_queue := no_ops\<rparr>) c)" by (rule same_pool_update) simp_all
  then show ?thesis using Some same_pool_scheduler(2) same_pool_trans by (fastforce simp: cancel_ops_def Let_def)
qed (simp add: cancel_ops_def)

lemma plain_epoll: "epoll_ctl cmd fd ev w = Some (r, w') \<Longrightarrow> cmd \<noteq> EPOLL_CTL_ADD \<Longrightarrow> plain_to w w'"
  by (auto simp: epoll_ctl_def split: bind_split_asm intro: plain_sys)

lemma EPOLL_CTL_distinct [simp]: "EPOLL_CTL_MOD \<noteq> EPOLL_CTL_ADD" "EPOLL_CTL_DEL \<noteq> EPOLL_CTL_ADD"
  by (simp_all add: EPOLL_CTL_MOD_def EPOLL_CTL_ADD_def EPOLL_CTL_DEL_def)

text \<open>Starting an operation changes a descriptor, but not whose it is.\<close>

lemma start_op_plain:
  assumes "start_op t ty fd data op is_cont spec c w = Some (c', w')" and "\<not> accepts (op_io op)"
  shows "same_pool c c' \<and> plain_to w w'"
proof -
  have post: "same_pool c (post_immediate_completion t x is_cont c1)" if "same_pool c c1" for x c1
    using that same_pool_scheduler(1) same_pool_trans by blast
  have enq: "same_pool c (work_started (update_descriptor d (push_op ty op) c1))" if "same_pool c c1" for d op ty c1
    using that same_pool_scheduler(3) same_pool_trans same_pool_update [of "push_op ty op" c1 d]
    by (auto simp: push_op_def)
  have upd: "same_pool c (update_descriptor d f c)"
    if "\<And>ds. ds_descriptor (f ds) = ds_descriptor ds" "\<And>ds. ds_shutdown (f ds) = ds_shutdown ds" for d f
    using that by (intro same_pool_update) auto
  note rules = post enq upd
  show ?thesis
    using assms
    by (auto simp: start_op_def Let_def split: option.split_asm if_split_asm bind_split_asm
        intro!: rules dest!: plain_perform plain_epoll) (metis plain_trans)+
qed

lemma pool_wf_descriptors [simp]: "pool_wf (c\<lparr>descriptors := ds\<rparr>) = pool_wf c"
  by (simp add: pool_wf_def)

text \<open>A new descriptor for a socket, and what remains of a registration that failed.\<close>

lemma allocate_wf:
  assumes "allocate_descriptor_state c = (d, c')" and "pool_wf c"
  shows "pool_wf c' \<and> live_descriptors c' = d # live_descriptors c \<and> d \<notin> set (live_descriptors c) \<and>
    descriptors c' = descriptors c"
  using assms by (auto simp: allocate_descriptor_state_def pool_wf_def split: list.split_asm)

lemma register_wf:
  assumes "register_descriptor fd c w = Some ((err, d), c', w')" and "pool_wf c"
  shows "pool_wf c' \<and> live_descriptors c' = d # live_descriptors c \<and> d \<notin> set (live_descriptors c) \<and>
    descriptor_core c' d = (fd, False) \<and> (\<forall>d'. d' \<noteq> d \<longrightarrow> descriptor_core c' d' = descriptor_core c d') \<and>
    (\<exists>tr. ran tr w w' \<and> opened_in tr = {#} \<and> closed_in tr = {#} \<and> list_all settled tr \<and>
      failed_in tr = (if err = 0 then 0 else 1))"
proof -
  obtain c1 where alloc: "allocate_descriptor_state c = (d, c1)"
    using assms(1) by (auto simp: register_descriptor_def Let_def split: prod.splits if_splits bind_split_asm)
  note a = allocate_wf [OF alloc assms(2)]
  obtain a where a': "sys (Sys_epoll_ctl EPOLL_CTL_ADD fd initial_events) w = Some (a, w')"
    and err: "err = (if returned a \<noteq> 0 \<and> errno a \<noteq> EPERM then errno a else 0)"
    using assms(1) by (auto simp: register_descriptor_def Let_def epoll_ctl_def alloc split: if_splits bind_split_asm)
  have "\<exists>tr. ran tr w w' \<and> opened_in tr = {#} \<and> closed_in tr = {#} \<and> list_all settled tr \<and>
      failed_in tr = (if err = 0 then 0 else 1)"
    using ran_sys [OF a'] err
    by (intro exI [of _ "[(Sys_epoll_ctl EPOLL_CTL_ADD fd initial_events, a)]"]) (auto simp: entry_defs)
  moreover have "pool_wf c' \<and> live_descriptors c' = d # live_descriptors c \<and>
      descriptor_core c' d = (fd, False) \<and> (\<forall>d'. d' \<noteq> d \<longrightarrow> descriptor_core c' d' = descriptor_core c d')"
    using assms(1) a
    by (auto simp: register_descriptor_def Let_def alloc update_descriptor_def init_descriptor_def
        descriptor_core_def split: if_splits bind_split_asm)
  ultimately show ?thesis using a by blast
qed

lemma free_wf:
  assumes "pool_wf c" and "d \<in> set (live_descriptors c)"
  shows "pool_wf (free_descriptor_state d c) \<and>
    mset (live_descriptors (free_descriptor_state d c)) = mset (live_descriptors c) - {#d#} \<and>
    descriptors (free_descriptor_state d c) = descriptors c"
  using assms by (auto simp: pool_wf_def free_descriptor_state_def dest: notin_set_remove1)

lemma retire_wf:
  assumes "deregister_descriptor t fd (Some d) closing c w = Some (data, c1, w')"
    and "cleanup_descriptor_data data c1 = (data', c')"
    and "pool_wf c" and "d \<in> set (live_descriptors c)" and "snd (descriptor_core c d) = False"
  shows "pool_wf c' \<and> mset (live_descriptors c') = mset (live_descriptors c) - {#d#} \<and>
    (\<forall>d'. d' \<noteq> d \<longrightarrow> descriptor_core c' d' = descriptor_core c d') \<and> plain_to w w'"
proof -
  let ?c = "update_descriptor d (\<lambda>ds. ds\<lparr>op_queue := no_ops, ds_descriptor := -1, ds_shutdown := True\<rparr>) c"
  have r: "data = Some d" "c1 = post_deferred_completions t (aborted_ops (descriptors c d)) ?c" "plain_to w w'"
    using assms(1,5) by (auto simp: deregister_descriptor_def descriptor_core_def Let_def
        split: if_splits bind_split_asm dest: plain_epoll)
  have same: "same_pool ?c c1" unfolding r(2) by (rule same_pool_scheduler)
  have "pool_wf ?c" "live_descriptors ?c = live_descriptors c"
    using assms(3) by (simp_all add: pool_wf_def update_descriptor_def)
  then have c1: "pool_wf c1" "live_descriptors c1 = live_descriptors c"
    using same_pool_wf [OF same] same by (simp_all add: same_pool_def)
  have core: "descriptor_core c1 d' = descriptor_core c d'" if "d' \<noteq> d" for d'
    using same that by (simp add: same_pool_def) (simp add: descriptor_core_def update_descriptor_def)
  have c': "c' = free_descriptor_state d c1" using assms(2) by (simp add: r(1) cleanup_descriptor_data_def)
  note free = free_wf [OF c1(1), of d, unfolded c1(2), OF assms(4), folded c']
  then have "descriptor_core c' d' = descriptor_core c1 d'" for d' by (simp add: descriptor_core_def)
  then show ?thesis using free core r(3) by auto
qed

subsection \<open>What a call does to one socket\<close>

definition socket_fds :: "socket_impl \<Rightarrow> int list" where
  "socket_fds x = (if is_open x then [socket_fd x] else [])"

definition socket_data :: "socket_impl \<Rightarrow> nat list" where
  "socket_data x = (if is_open x then [the (reactor_data x)] else [])"

text \<open>An open socket has a live descriptor, which is its own.\<close>

definition socket_ok :: "io_context \<Rightarrow> socket_impl \<Rightarrow> bool" where
  "socket_ok c x \<longleftrightarrow> (is_open x \<longrightarrow> (\<exists>d. reactor_data x = Some d \<and> descriptor_core c d = (socket_fd x, False)))"

text \<open>
  The descriptors of other sockets (\<open>R\<close>) are left alone; what is opened and closed at the
  system adds up with what the program gave and took.
\<close>

definition keeps_others :: "nat multiset \<Rightarrow> io_context \<Rightarrow> nat multiset \<Rightarrow> io_context \<Rightarrow> bool" where
  "keeps_others D c D' c' \<longleftrightarrow> (\<forall>R. D + R \<subseteq># mset (live_descriptors c) \<longrightarrow>
     D' + R \<subseteq># mset (live_descriptors c') \<and> (\<forall>d \<in># R. descriptor_core c' d = descriptor_core c d))"

definition balanced :: "sys_trace \<Rightarrow> int multiset \<Rightarrow> int multiset \<Rightarrow> int multiset \<Rightarrow> int multiset \<Rightarrow> bool" where
  "balanced tr given taken F F' \<longleftrightarrow>
     (list_all settled tr \<longrightarrow> opened_in tr + given + F = closed_in tr + taken + F')"

definition slot_step ::
    "socket_impl \<Rightarrow> io_context \<Rightarrow> os \<Rightarrow> int multiset \<Rightarrow> int multiset \<Rightarrow> socket_impl \<Rightarrow> io_context \<Rightarrow> os \<Rightarrow> bool" where
  "slot_step x c w given taken x' c' w' \<longleftrightarrow> pool_wf c' \<and> socket_ok c' x' \<and>
     keeps_others (mset (socket_data x)) c (mset (socket_data x')) c' \<and>
     (\<exists>tr. ran tr w w' \<and> balanced tr given taken (mset (socket_fds x)) (mset (socket_fds x')) \<and>
       length (live_descriptors c') + length (socket_data x) =
       length (live_descriptors c) + length (socket_data x') + failed_in tr)"

lemma slot_stepI:
  assumes "pool_wf c'" and "socket_ok c' x'" and "keeps_others (mset (socket_data x)) c (mset (socket_data x')) c'"
    and "ran tr w w'" and "balanced tr given taken (mset (socket_fds x)) (mset (socket_fds x'))"
    and "length (live_descriptors c') + length (socket_data x) =
       length (live_descriptors c) + length (socket_data x') + failed_in tr"
  shows "slot_step x c w given taken x' c' w'"
  using assms unfolding slot_step_def by blast

lemma slot_plain:
  assumes "plain_to w w'" and "same_pool c c'" and "pool_wf c" and "socket_ok c x"
    and "socket_fd x' = socket_fd x" and "reactor_data x' = reactor_data x"
  shows "slot_step x c w {#} {#} x' c' w'"
proof -
  obtain tr where "ran tr w w'" "opened_in tr = {#}" "closed_in tr = {#}" "failed_in tr = 0"
    using assms(1) unfolding plain_to_def by blast
  moreover have "socket_data x' = socket_data x" "socket_fds x' = socket_fds x" "socket_ok c' x'"
    using assms(2,4-6) by (auto simp: socket_data_def socket_fds_def is_open_def socket_ok_def same_pool_def)
  ultimately show ?thesis
    using assms(2,3) same_pool_wf by (intro slot_stepI) (auto simp: keeps_others_def balanced_def same_pool_def)
qed

text \<open>Calls of the system before and after a step.\<close>

lemma slot_before:
  assumes "ran tr w w1" and "closed_in tr = {#}" and "failed_in tr = 0" and "slot_step x c w1 given taken x' c' w'"
    and "opened_in tr + g = given"
  shows "slot_step x c w g taken x' c' w'"
proof -
  obtain tr' where tr': "ran tr' w1 w'" "balanced tr' given taken (mset (socket_fds x)) (mset (socket_fds x'))"
    "length (live_descriptors c') + length (socket_data x) =
       length (live_descriptors c) + length (socket_data x') + failed_in tr'"
    using assms(4) unfolding slot_step_def by blast
  then have "balanced (tr @ tr') g taken (mset (socket_fds x)) (mset (socket_fds x'))"
    using assms(2,5) by (auto simp: balanced_def ac_simps)
  with assms(1,3,4) tr' show ?thesis
    by (intro slot_stepI [OF _ _ _ ran_trans [OF assms(1) tr'(1)]]) (simp_all add: slot_step_def)
qed

lemma slot_after:
  assumes "slot_step x c w given taken x' c' w1" and "ran tr w1 w'" and "opened_in tr = {#}" and "failed_in tr = 0"
    and "list_all settled tr \<Longrightarrow> closed_in tr = K"
  shows "slot_step x c w (given + K) taken x' c' w'"
proof -
  obtain tr' where tr': "ran tr' w w1" "balanced tr' given taken (mset (socket_fds x)) (mset (socket_fds x'))"
    "length (live_descriptors c') + length (socket_data x) =
       length (live_descriptors c) + length (socket_data x') + failed_in tr'"
    using assms(1) unfolding slot_step_def by blast
  then have "balanced (tr' @ tr) (given + K) taken (mset (socket_fds x)) (mset (socket_fds x'))"
    using assms(3,5) by (auto simp: balanced_def ac_simps)
  with assms(1,4) tr' show ?thesis
    by (intro slot_stepI [OF _ _ _ ran_trans [OF tr'(1) assms(2)]]) (simp_all add: slot_step_def)
qed

text \<open>\<open>close\<close> makes one call that counts, if the system settles it.\<close>

lemma close_trace:
  assumes "close_op s state destruction w = Some (r, w')" and "s \<noteq> invalid_socket"
  shows "\<exists>tr. ran tr w w' \<and> opened_in tr = {#} \<and> failed_in tr = 0 \<and> (list_all settled tr \<longrightarrow> closed_in tr = {#s#})"
proof -
  obtain state1 w1 a w2 where "plain_to w w1" and a: "sys (Sys_close s) w1 = Some (a, w2)"
    and last: "w' = w2 \<or> \<not> (returned a = 0 \<or> errno a \<noteq> 11) \<and>
      (\<exists>w3 b. plain_to w2 w3 \<and> sys (Sys_close s) w3 = Some (b, w'))"
    using assms
    by (auto simp: close_op_def Let_def error_wrapper_def error_defs split: if_splits bind_split_asm
        dest!: plain_calls plain_sys [where c = "Sys_ioctl s FIONBIO 0"]) blast+
  then obtain tr where tr: "ran tr w w1" "opened_in tr = {#}" "closed_in tr = {#}" "failed_in tr = 0"
    unfolding plain_to_def by blast
  let ?x = "(Sys_close s, a)"
  have x: "opened_by ?x = []" "failed_by ?x = []" "closed_by ?x = [s]" by (simp_all add: entry_defs)
  have two: "ran (tr @ [?x]) w w2" using ran_trans [OF tr(1) ran_sys [OF a]] .
  from last show ?thesis
  proof (elim disjE conjE exE)
    assume "w' = w2"
    then show ?thesis using two tr x by (intro exI [of _ "tr @ [?x]"]) simp
  next
    fix w3 b
    assume n: "\<not> (returned a = 0 \<or> errno a \<noteq> 11)" and w3: "plain_to w2 w3" and b: "sys (Sys_close s) w3 = Some (b, w')"
    obtain tr3 where tr3: "ran tr3 w2 w3" "opened_in tr3 = {#}" "failed_in tr3 = 0"
      using w3 unfolding plain_to_def by blast
    let ?y = "(Sys_close s, b)"
    have "ran ((tr @ [?x]) @ tr3 @ [?y]) w w'" using ran_trans [OF two ran_trans [OF tr3(1) ran_sys [OF b]]] .
    moreover have "\<not> settled ?x" using n by (simp add: entry_defs)
    ultimately show ?thesis using tr tr3 x
      by (intro exI [of _ "(tr @ [?x]) @ tr3 @ [?y]"]) (simp add: entry_defs)
  qed
qed

end
