(* ===== verification/SocketLedger.thy ===== *)
theory SocketLedger
  imports SocketTrace
begin

section \<open>The sockets of a program keep their accounts\<close>

text \<open>
  Any sequence of calls on any number of sockets, over a system that answers anything: what is
  open at the system, what the socket objects hold and which descriptors of the reactor are
  in use agree, apart from descriptors whose registration failed.
\<close>

subsection \<open>The functions of the service\<close>


lemma closed_socket [simp]:
  "socket_fd x = invalid_socket \<Longrightarrow> \<not> is_open x" "\<not> is_open x \<Longrightarrow> socket_fds x = []"
  "\<not> is_open x \<Longrightarrow> socket_data x = []" "\<not> is_open x \<Longrightarrow> socket_ok c x" "\<not> is_open (service_construct x)"
  by (simp_all add: is_open_def socket_fds_def socket_data_def socket_ok_def service_construct_def)
















subsection \<open>Programs with sockets\<close>









subsection \<open>The ledger\<close>

definition all_fds :: "socket_impl multiset \<Rightarrow> int multiset" where
  "all_fds M = (\<Sum>x\<in>#M. mset (socket_fds x))"

definition all_data :: "socket_impl multiset \<Rightarrow> nat multiset" where
  "all_data M = (\<Sum>x\<in>#M. mset (socket_data x))"

lemma all_simps [simp]:
  "all_fds {#} = {#}" "all_fds (add_mset x M) = mset (socket_fds x) + all_fds M"
  "all_data {#} = {#}" "all_data (add_mset x M) = mset (socket_data x) + all_data M"
  by (simp_all add: all_fds_def all_data_def)





































end
