(* ===== verification/SocketStop.thy ===== *)
theory SocketStop
  imports SocketLedger
begin

section \<open>Stopping does not reach calls that block\<close>

text \<open>
  What a program sees of the sockets it uses without asynchronous operations depends on the pool
  of descriptors only: neither \<open>cancel\<close> nor \<open>io_context::stop\<close> changes anything of it.
\<close>

text \<open>The context \<open>k\<close> with the descriptors of \<open>c\<close>.\<close>

definition overlay :: "io_context \<Rightarrow> io_context \<Rightarrow> io_context" where
  "overlay k c = k\<lparr>live_descriptors := live_descriptors c, free_descriptors := free_descriptors c,
     descriptors_created := descriptors_created c, descriptors := descriptors c\<rparr>"


definition nothing_queued :: "io_context \<Rightarrow> bool" where
  "nothing_queued c \<longleftrightarrow> (\<forall>d. op_queue (descriptors c d) = no_ops)"

lemma overlay_simps [simp]:
  "descriptors (overlay k c) = descriptors c" "live_descriptors (overlay k c) = live_descriptors c"
  "update_descriptor d f (overlay k c) = overlay k (update_descriptor d f c)"
  "free_descriptor_state d (overlay k c) = overlay k (free_descriptor_state d c)"
  "nothing_queued (overlay k c) = nothing_queued c" "overlay k' (overlay k c) = overlay k' c"
  by (simp_all add: overlay_def update_descriptor_def free_descriptor_state_def nothing_queued_def)


lemma overlay_self [simp]: "overlay c c = c"
  by (simp add: overlay_def)




lemma quiet_post [simp]: "post_deferred_completions t [] c = c"
  by (simp add: post_deferred_completions_def)



























subsection \<open>Programs without asynchronous operations\<close>













end
