(* ===== verification/OptionValues.thy ===== *)
theory OptionValues
  imports Prelude
begin

section \<open>Option values (lib/cxxopts)\<close>

text \<open>
  The lower half of cxxopts: the exceptions and their messages, the integer parser for
  each of the eight integer types, and the typed values an option parses its argument
  into. Regular expressions are written out as functions on strings.
\<close>

subsection \<open>Exceptions\<close>

text \<open>The quotation marks are three bytes each in UTF-8.\<close>

definition LQUOTE :: string where "LQUOTE = [CHR 0xE2, CHR 0x80, CHR 0x98]"
definition RQUOTE :: string where "RQUOTE = [CHR 0xE2, CHR 0x80, CHR 0x99]"

definition quote :: "string \<Rightarrow> string" where
  "quote s = LQUOTE @ s @ RQUOTE"

text \<open>The message of each subclass of \<open>OptionException\<close>.\<close>

fun option_what :: "exn \<Rightarrow> string" where
  "option_what (Option_exists_error opt) = ''Option '' @ quote opt @ '' already exists''"
| "option_what (Invalid_option_format_error fmt) = ''Invalid option format '' @ quote fmt"
| "option_what (Option_syntax_exception text) =
     ''Argument '' @ quote text @ '' starts with a - but has incorrect syntax''"
| "option_what (Option_not_exists_exception opt) = ''Option '' @ quote opt @ '' does not exist''"
| "option_what (Missing_argument_exception opt) =
     ''Option '' @ quote opt @ '' is missing an argument''"
| "option_what (Option_requires_argument_exception opt) =
     ''Option '' @ quote opt @ '' requires an argument''"
| "option_what (Option_not_has_argument_exception opt arg) =
     ''Option '' @ quote opt @ '' does not take an argument, but argument '' @ quote arg @ '' given''"
| "option_what (Option_not_present_exception opt) = ''Option '' @ quote opt @ '' not present''"
| "option_what (Argument_incorrect_type arg) = ''Argument '' @ quote arg @ '' failed to parse''"
| "option_what (Option_required_exception opt) =
     ''Option '' @ quote opt @ '' is required but not present''"
| "option_what _ = []"

subsection \<open>Integers\<close>

definition is_alnum :: "char \<Rightarrow> bool" where
  "is_alnum c \<longleftrightarrow> is_digit c \<or>
     65 \<le> (of_char c :: nat) \<and> (of_char c :: nat) \<le> 90 \<or>
     97 \<le> (of_char c :: nat) \<and> (of_char c :: nat) \<le> 122"

text \<open>
  \<open>integer_pattern\<close>: the sign, the prefix \<open>0x\<close> and the digits. Its second alternative
  is never taken, as the first matches whatever it matches.
\<close>

definition integer_match :: "string \<Rightarrow> (bool \<times> bool \<times> string) option" where
  "integer_match text =
     (let (neg, t) = (case text of [] \<Rightarrow> (False, [])
                      | c # cs \<Rightarrow> if c = CHR ''-'' then (True, cs) else (False, text));
          (hex, ds) = (if take 2 t = ''0x'' \<and> drop 2 t \<noteq> [] then (True, drop 2 t) else (False, t))
      in if ds \<noteq> [] \<and> list_all is_alnum ds then Some (neg, hex, ds) else None)"

text \<open>The types \<open>T\<close> the parser is instantiated with.\<close>

datatype int_type = Int8 | Uint8 | Int16 | Uint16 | Int32 | Uint32 | Int64 | Uint64

fun int_width :: "int_type \<Rightarrow> nat" where
  "int_width Int8 = 8" | "int_width Uint8 = 8" | "int_width Int16 = 16" | "int_width Uint16 = 16"
| "int_width Int32 = 32" | "int_width Uint32 = 32" | "int_width Int64 = 64" | "int_width Uint64 = 64"

definition int_signed :: "int_type \<Rightarrow> bool" where
  "int_signed ty \<longleftrightarrow> ty \<in> {Int8, Int16, Int32, Int64}"

definition type_max :: "int_type \<Rightarrow> nat" where
  "type_max ty = (if int_signed ty then 2 ^ (int_width ty - 1) else 2 ^ int_width ty) - 1"

definition digit_of :: "nat \<Rightarrow> char \<Rightarrow> nat option" where
  "digit_of base c =
     (let k = of_char c
      in if 48 \<le> k \<and> k \<le> 57 then Some (k - 48)
         else if base = 16 \<and> 97 \<le> k \<and> k \<le> 102 then Some (k - 97 + 10)
         else if base = 16 \<and> 65 \<le> k \<and> k \<le> 70 then Some (k - 65 + 10)
         else None)"

text \<open>
  The digits are accumulated in \<open>US\<close>, the unsigned type of \<open>w\<close> bits. Its arithmetic is
  that of \<open>int\<close> if it is narrower, where nothing here overflows, and modulo \<open>2^w\<close>
  otherwise; so is the product in the guard against overflow.
\<close>

definition us_product :: "nat \<Rightarrow> nat \<Rightarrow> nat \<Rightarrow> nat" where
  "us_product w a b = (if w < 32 then a * b else a * b mod 2 ^ w)"

fun accumulate :: "nat \<Rightarrow> string \<Rightarrow> nat \<Rightarrow> nat \<Rightarrow> string \<Rightarrow> nat res" where
  "accumulate w text base result [] = Inr result"
| "accumulate w text base result (c # cs) =
     (case digit_of base c of
        None \<Rightarrow> Inl (Throws (Argument_incorrect_type text))
      | Some digit \<Rightarrow>
          if 2 ^ w - 1 - digit < us_product w result base
          then Inl (Throws (Argument_incorrect_type text))
          else accumulate w text base ((us_product w result base + digit) mod 2 ^ w) cs)"

text \<open>
  \<open>SignedCheck\<close>: for the signed types from \<open>int\<close> on, the bound for negative numbers,
  the negation of the least number of the type, overflows.
\<close>

definition check_signed_range :: "int_type \<Rightarrow> bool \<Rightarrow> nat \<Rightarrow> string \<Rightarrow> unit res" where
  "check_signed_range ty negative u text =
     (if \<not> int_signed ty then Inr ()
      else if negative
      then (if 32 \<le> int_width ty then Inl (Undefined Signed_overflow)
            else if 2 ^ (int_width ty - 1) < u then Inl (Throws (Argument_incorrect_type text))
            else Inr ())
      else if type_max ty < u then Inl (Throws (Argument_incorrect_type text)) else Inr ())"

definition wrap_signed :: "nat \<Rightarrow> int \<Rightarrow> int" where
  "wrap_signed w x = (x + 2 ^ (w - 1)) mod 2 ^ w - 2 ^ (w - 1)"

definition checked_negate :: "int_type \<Rightarrow> nat \<Rightarrow> string \<Rightarrow> int res" where
  "checked_negate ty t text =
     (if \<not> int_signed ty then Inl (Throws (Argument_incorrect_type text))
      else let r = wrap_signed (int_width ty) (int t)
           in if int_width ty < 32 then Inr (wrap_signed (int_width ty) (- r))
              else if r = - (2 ^ (int_width ty - 1)) then Inl (Undefined Signed_overflow)
              else Inr (- r))"

definition integer_parser :: "int_type \<Rightarrow> string \<Rightarrow> int res" where
  "integer_parser ty text =
     (case integer_match text of
        None \<Rightarrow> Inl (Throws (Argument_incorrect_type text))
      | Some (negative, hex, ds) \<Rightarrow>
          rbind (accumulate (int_width ty) text (if hex then 16 else 10) 0 ds) (\<lambda>result.
          rbind (check_signed_range ty negative result text) (\<lambda>_.
          if negative then checked_negate ty result text else Inr (int result))))"

subsection \<open>Typed values\<close>

text \<open>
  The types a value is parsed as. The fallback for any other type through a string
  stream is left out.
\<close>

datatype value_type = String_type | Int_type int_type | Bool_type | Vector_type value_type

datatype stored =
    Stored_string string
  | Stored_int int
  | Stored_bool bool
  | Stored_vector "stored list"

fun fresh_value :: "value_type \<Rightarrow> stored" where
  "fresh_value String_type = Stored_string []"
| "fresh_value (Int_type _) = Stored_int 0"
| "fresh_value Bool_type = Stored_bool False"
| "fresh_value (Vector_type _) = Stored_vector []"

text \<open>\<open>truthy_pattern\<close> and \<open>falsy_pattern\<close> match four and five strings.\<close>

definition truthy :: "string \<Rightarrow> bool" where
  "truthy text \<longleftrightarrow> text \<in> {''t'', ''T'', ''true'', ''True''}"

definition falsy :: "string \<Rightarrow> bool" where
  "falsy text \<longleftrightarrow> text \<in> {[], ''f'', ''F'', ''false'', ''False''}"

definition push_back :: "stored \<Rightarrow> stored \<Rightarrow> stored" where
  "push_back vec v = (case vec of Stored_vector vs \<Rightarrow> Stored_vector (vs @ [v]) | _ \<Rightarrow> Stored_vector [v])"

fun parse_value :: "value_type \<Rightarrow> string \<Rightarrow> stored \<Rightarrow> stored res" where
  "parse_value String_type text val = Inr (Stored_string text)"
| "parse_value (Int_type ty) text val = rbind (integer_parser ty text) (\<lambda>i. Inr (Stored_int i))"
| "parse_value Bool_type text val =
     (if truthy text then Inr (Stored_bool True)
      else if falsy text then Inr (Stored_bool False)
      else Inl (Throws (Argument_incorrect_type text)))"
| "parse_value (Vector_type ty) text val =
     rbind (parse_value ty text (fresh_value ty)) (\<lambda>v. Inr (push_back val v))"

text \<open>
  \<open>abstract_value\<close> with storage of its own (\<open>cxxopts::value<T> ()\<close>); the variant that
  stores into a variable of the caller is not modelled.
\<close>

record abstract_value =
  av_type :: value_type
  m_store :: stored
  m_default :: bool
  m_implicit :: bool
  m_default_value :: string
  m_implicit_value :: string

definition type_is_container :: "value_type \<Rightarrow> bool" where
  "type_is_container ty = (case ty of Vector_type _ \<Rightarrow> True | _ \<Rightarrow> False)"

definition av_is_container :: "abstract_value \<Rightarrow> bool" where
  "av_is_container v = type_is_container (av_type v)"

definition av_is_boolean :: "abstract_value \<Rightarrow> bool" where
  "av_is_boolean v \<longleftrightarrow> av_type v = Bool_type"

definition default_value :: "string \<Rightarrow> abstract_value \<Rightarrow> abstract_value" where
  "default_value val v = v\<lparr>m_default := True, m_default_value := val\<rparr>"

definition implicit_value :: "string \<Rightarrow> abstract_value \<Rightarrow> abstract_value" where
  "implicit_value val v = v\<lparr>m_implicit := True, m_implicit_value := val\<rparr>"

definition standard_value :: "value_type \<Rightarrow> abstract_value" where
  "standard_value ty =
     (let v = \<lparr>av_type = ty, m_store = fresh_value ty, m_default = False, m_implicit = False,
               m_default_value = [], m_implicit_value = []\<rparr>
      in if ty = Bool_type then implicit_value ''true'' (default_value ''false'' v) else v)"

definition av_clone :: "abstract_value \<Rightarrow> abstract_value" where
  "av_clone v = v\<lparr>m_store := fresh_value (av_type v)\<rparr>"

definition av_parse :: "string \<Rightarrow> abstract_value \<Rightarrow> abstract_value res" where
  "av_parse text v =
     rbind (parse_value (av_type v) text (m_store v)) (\<lambda>x. Inr (v\<lparr>m_store := x\<rparr>))"

definition av_parse_default :: "abstract_value \<Rightarrow> abstract_value res" where
  "av_parse_default v = av_parse (m_default_value v) v"

text \<open>The shape of a value of each type.\<close>

fun typed :: "value_type \<Rightarrow> stored \<Rightarrow> bool" where
  "typed String_type x = (\<exists>s. x = Stored_string s)"
| "typed (Int_type ty) x = (\<exists>i. x = Stored_int i)"
| "typed Bool_type x = (\<exists>b. x = Stored_bool b)"
| "typed (Vector_type ty) x = (\<exists>xs. x = Stored_vector xs \<and> list_all (typed ty) xs)"

lemma typed_fresh: "typed ty (fresh_value ty)"
  by (cases ty) auto

lemma parse_value_typed: "parse_value ty text val = Inr x \<Longrightarrow> typed ty val \<Longrightarrow> typed ty x"
proof (induction ty arbitrary: val x)
  case (Vector_type ty)
  then show ?case using typed_fresh by (fastforce simp: rbind_Inr_iff push_back_def)
qed (auto simp: rbind_Inr_iff split: if_splits)

subsection \<open>Which integers are read back\<close>

lemma is_digit_alnum: "is_digit c \<Longrightarrow> is_alnum c"
  by (simp add: is_alnum_def)

lemma digit_of_digit: "is_digit c \<Longrightarrow> digit_of base c = Some (digit_val c)"
  by (simp add: is_digit_def digit_of_def digit_val_def Let_def)

lemma digit_val_le: "is_digit c \<Longrightarrow> digit_val c \<le> 9"
  unfolding is_digit_def digit_val_def by linarith

lemma digits_fold_mono: "v \<le> foldl (\<lambda>v c. 10 * v + digit_val c) v ds"
proof (induction ds arbitrary: v)
  case (Cons d ds)
  have "v \<le> 10 * v + digit_val d" by simp
  also have "\<dots> \<le> foldl (\<lambda>v c. 10 * v + digit_val c) (10 * v + digit_val d) ds" by (rule Cons)
  finally show ?case by simp
qed simp

text \<open>Below \<open>2^w\<close> the guard is exact: no number is refused or wraps.\<close>

lemma accumulate_decimal:
  assumes "list_all is_digit ds" and "foldl (\<lambda>v c. 10 * v + digit_val c) v ds < 2 ^ w" and "8 \<le> w"
  shows "accumulate w text 10 v ds = Inr (foldl (\<lambda>v c. 10 * v + digit_val c) v ds)"
  using assms(1,2)
proof (induction ds arbitrary: v)
  case (Cons c cs)
  let ?d = "digit_val c"
  have "10 * v + ?d < 2 ^ w"
    using digits_fold_mono [of "10 * v + ?d" cs] Cons.prems(2) by simp
  then have "us_product w v 10 = 10 * v" "(10 * v + ?d) mod 2 ^ w = 10 * v + ?d"
    "\<not> 2 ^ w - 1 - ?d < 10 * v"
    by (auto simp: us_product_def)
  then show ?case using Cons by (simp add: digit_of_digit)
qed simp

text \<open>The types narrower than \<open>int\<close> have no wrap-around to fear at all.\<close>

lemma accumulate_narrow_too_big:
  assumes "list_all is_digit ds" and "2 ^ w \<le> foldl (\<lambda>v c. 10 * v + digit_val c) v ds"
    and "v < 2 ^ w" and "w < 32" and "8 \<le> w"
  shows "accumulate w text 10 v ds = Inl (Throws (Argument_incorrect_type text))"
  using assms(1-3)
proof (induction ds arbitrary: v)
  case (Cons c cs)
  show ?case
  proof (cases "10 * v + digit_val c < 2 ^ w")
    case True
    then show ?thesis using Cons assms(4)
      by (simp add: digit_of_digit us_product_def mult.commute [of v])
  next
    case False
    have "(2::nat) ^ 8 \<le> 2 ^ w" using assms(5) by (intro power_increasing) auto
    then have "256 \<le> (2::nat) ^ w" by simp
    moreover have "digit_val c \<le> 9" using Cons.prems(1) digit_val_le by simp
    ultimately have "2 ^ w - 1 - digit_val c < 10 * v" using False by linarith
    then show ?thesis using Cons.prems assms(4)
      by (simp add: digit_of_digit us_product_def mult.commute)
  qed
qed simp

lemma integer_match_digits:
  assumes "list_all is_digit ds" and "ds \<noteq> []"
  shows "integer_match ds = Some (False, False, ds)"
proof -
  obtain c cs where ds: "ds = c # cs" using assms(2) by (cases ds) auto
  have "c \<noteq> CHR ''-''" using assms(1) ds digit_not_space [of c] by simp
  moreover have "take 2 ds \<noteq> ''0x''"
  proof
    assume "take 2 ds = ''0x''"
    then have "CHR ''x'' \<in> set ds" by (metis in_set_takeD list.set_intros)
    then have "is_digit (CHR ''x'')" using assms(1) by (auto simp: list_all_iff)
    then show False by (simp add: is_digit_def)
  qed
  moreover have "list_all is_alnum ds"
    using assms(1) is_digit_alnum by (auto simp: list_all_iff)
  ultimately show ?thesis using ds by (auto simp: integer_match_def)
qed

lemma int_width_ge: "8 \<le> int_width ty"
  by (cases ty) simp_all

lemma integer_parser_digits:
  assumes "list_all is_digit ds" and "ds \<noteq> []" and "digits_val ds < 2 ^ int_width ty"
  shows "integer_parser ty ds =
    (if digits_val ds \<le> type_max ty then Inr (int (digits_val ds))
     else Inl (Throws (Argument_incorrect_type ds)))"
proof -
  have "accumulate (int_width ty) ds 10 0 ds = Inr (digits_val ds)"
    using accumulate_decimal [OF assms(1), of 0 "int_width ty"] assms(3) int_width_ge
    by (simp add: digits_val_def)
  moreover have "\<not> int_signed ty \<Longrightarrow> digits_val ds \<le> type_max ty"
    using assms(3) by (simp add: type_max_def)
  ultimately show ?thesis
    using integer_match_digits [OF assms(1,2)]
    by (auto simp: integer_parser_def check_signed_range_def)
qed

lemma integer_parser_narrow:
  assumes "list_all is_digit ds" and "ds \<noteq> []" and "int_width ty < 32"
  shows "integer_parser ty ds =
    (if digits_val ds \<le> type_max ty then Inr (int (digits_val ds))
     else Inl (Throws (Argument_incorrect_type ds)))"
proof (cases "digits_val ds < 2 ^ int_width ty")
  case True
  then show ?thesis by (rule integer_parser_digits [OF assms(1,2)])
next
  case False
  then have "accumulate (int_width ty) ds 10 0 ds = Inl (Throws (Argument_incorrect_type ds))"
    using accumulate_narrow_too_big [OF assms(1), of "int_width ty" 0] assms(3) int_width_ge
    by (simp add: digits_val_def)
  moreover have "type_max ty < 2 ^ int_width ty" by (cases ty) (simp_all add: type_max_def int_signed_def)
  ultimately show ?thesis
    using integer_match_digits [OF assms(1,2)] False by (simp add: integer_parser_def)
qed

lemma integer_parser_to_string:
  assumes "0 \<le> i" and "i \<le> INT_MAX"
  shows "integer_parser Int32 (to_string i) = Inr i"
proof -
  have "integer_parser Int32 (nat_str (nat i)) = Inr i"
    using integer_parser_digits [OF nat_str_digits nat_str_nonempty, of "nat i" Int32] assms
    by (simp add: INT_MAX_def nat_less_iff type_max_def int_signed_def)
  then show ?thesis using assms by (simp add: to_string_def)
qed

text \<open>A sign in front of digits of an \<open>int\<close> always runs into the overflow of the bound.\<close>

lemma integer_match_negative:
  assumes "list_all is_digit ds" and "ds \<noteq> []"
  shows "integer_match (CHR ''-'' # ds) = Some (True, False, ds)"
proof -
  have "take 2 ds \<noteq> ''0x''"
  proof
    assume "take 2 ds = ''0x''"
    then have "CHR ''x'' \<in> set ds" by (metis in_set_takeD list.set_intros)
    then have "is_digit (CHR ''x'')" using assms(1) by (auto simp: list_all_iff)
    then show False by (simp add: is_digit_def)
  qed
  then show ?thesis
    using assms is_digit_alnum by (auto simp: integer_match_def list_all_iff)
qed

lemma integer_parser_negative:
  assumes "list_all is_digit ds" and "ds \<noteq> []" and "digits_val ds < 2 ^ int_width ty"
    and "int_signed ty" and "32 \<le> int_width ty"
  shows "integer_parser ty (CHR ''-'' # ds) = Inl (Undefined Signed_overflow)"
proof -
  have "accumulate (int_width ty) (CHR ''-'' # ds) 10 0 ds = Inr (digits_val ds)"
    using accumulate_decimal [OF assms(1), of 0 "int_width ty"] assms(3) int_width_ge
    by (simp add: digits_val_def)
  then show ?thesis
    using integer_match_negative [OF assms(1,2)] assms(4,5)
    by (simp add: integer_parser_def check_signed_range_def)
qed

end
