(* ===== verification/CommandLine.thy ===== *)
theory CommandLine
  imports OptionValues
begin

section \<open>Parsing the arguments (lib/cxxopts, ParseResult)\<close>

text \<open>
  Declared options, the matching of one argument, and \<open>ParseResult::parse\<close>: long and
  short options, default and implicit values, positional parameters, options the caller
  allows to be unknown.
\<close>

subsection \<open>Declared options\<close>

record option_details =
  m_short :: string
  m_long :: string
  m_desc :: string
  m_value :: abstract_value

definition new_OptionDetails :: "string \<Rightarrow> string \<Rightarrow> string \<Rightarrow> abstract_value \<Rightarrow> option_details" where
  "new_OptionDetails short long desc val =
     \<lparr>m_short = short, m_long = long, m_desc = desc, m_value = val\<rparr>"

text \<open>The copy constructor leaves the two names empty.\<close>

definition copy_OptionDetails :: "option_details \<Rightarrow> option_details" where
  "copy_OptionDetails rhs =
     \<lparr>m_short = [], m_long = [], m_desc = m_desc rhs, m_value = av_clone (m_value rhs)\<rparr>"

definition make_storage :: "option_details \<Rightarrow> abstract_value" where
  "make_storage d = av_clone (m_value d)"

text \<open>
  The map from names to shared pointers. A pointer is an index of \<open>pointees\<close>; the
  names are in the order in which they were inserted, in which the model iterates over
  them too (the order of an \<open>unordered_map\<close> is not specified).
\<close>

record option_map =
  names :: "(string \<times> nat) list"
  pointees :: "option_details list"

definition find_option :: "option_map \<Rightarrow> string \<Rightarrow> nat option" where
  "find_option m name = map_of (names m) name"

definition details :: "option_map \<Rightarrow> nat \<Rightarrow> option_details" where
  "details m i = pointees m ! i"

subsection \<open>The values of one parse\<close>

record option_value =
  ov_value :: "abstract_value option"
  ov_count :: nat

definition empty_value :: option_value where
  "empty_value = \<lparr>ov_value = None, ov_count = 0\<rparr>"

definition ensure_value :: "option_details \<Rightarrow> option_value \<Rightarrow> abstract_value" where
  "ensure_value d v = (case ov_value v of None \<Rightarrow> make_storage d | Some a \<Rightarrow> a)"

definition ov_parse :: "option_details \<Rightarrow> string \<Rightarrow> option_value \<Rightarrow> option_value res" where
  "ov_parse d text v =
     rbind (av_parse text (ensure_value d v)) (\<lambda>a.
     Inr \<lparr>ov_value = Some a, ov_count = ov_count v + 1\<rparr>)"

definition ov_parse_default :: "option_details \<Rightarrow> option_value \<Rightarrow> option_value res" where
  "ov_parse_default d v =
     rbind (av_parse_default (ensure_value d v)) (\<lambda>a. Inr (v\<lparr>ov_value := Some a\<rparr>))"

text \<open>\<open>as<T> ()\<close> with the type \<open>T\<close> as an argument.\<close>

definition as_type :: "value_type \<Rightarrow> option_value \<Rightarrow> stored res" where
  "as_type ty v =
     (case ov_value v of
        None \<Rightarrow> Inl (Throws (Domain_error ''No value''))
      | Some a \<Rightarrow> if av_type a = ty then Inr (m_store a) else Inl (Throws Bad_cast))"

text \<open>A \<open>KeyValue\<close> is a pair of strings; \<open>as<T> ()\<close> parses the second.\<close>

definition key_value_as :: "value_type \<Rightarrow> string \<times> string \<Rightarrow> stored res" where
  "key_value_as ty kv = parse_value ty (snd kv) (fresh_value ty)"

text \<open>
  What \<open>parse\<close> changes: the values by pointer, the options in the order they were
  given, the positional names not filled yet, and the arguments it puts back into
  \<open>argv\<close>.
\<close>

record parse_state =
  m_results :: "nat \<rightharpoonup> option_value"
  m_sequential :: "(string \<times> string) list"
  m_next_positional :: "string list"
  kept :: "string list"

definition result_at :: "parse_state \<Rightarrow> nat \<Rightarrow> option_value" where
  "result_at st i = (case m_results st i of None \<Rightarrow> empty_value | Some v \<Rightarrow> v)"

definition result_count :: "option_map \<Rightarrow> parse_state \<Rightarrow> string \<Rightarrow> nat res" where
  "result_count m st name =
     (case find_option m name of
        None \<Rightarrow> Inr 0
      | Some i \<Rightarrow> (case m_results st i of
            None \<Rightarrow> Inl (Undefined Null_dereference) | Some v \<Rightarrow> Inr (ov_count v)))"

definition result_of :: "option_map \<Rightarrow> parse_state \<Rightarrow> string \<Rightarrow> option_value res" where
  "result_of m st name =
     (case find_option m name of
        None \<Rightarrow> Inl (Throws (Option_not_present_exception name))
      | Some i \<Rightarrow> (case m_results st i of
            None \<Rightarrow> Inl (Undefined Null_dereference) | Some v \<Rightarrow> Inr v))"

definition parse_option :: "option_map \<Rightarrow> nat \<Rightarrow> string \<Rightarrow> parse_state \<Rightarrow> parse_state res" where
  "parse_option m i arg st =
     rbind (ov_parse (details m i) arg (result_at st i)) (\<lambda>v.
     Inr (st\<lparr>m_results := (m_results st)(i \<mapsto> v),
             m_sequential := m_sequential st @ [(m_long (details m i), arg)]\<rparr>))"

definition parse_default :: "option_map \<Rightarrow> nat \<Rightarrow> parse_state \<Rightarrow> parse_state res" where
  "parse_default m i st =
     rbind (ov_parse_default (details m i) (result_at st i)) (\<lambda>v.
     Inr (st\<lparr>m_results := (m_results st)(i \<mapsto> v)\<rparr>))"

text \<open>\<open>rest\<close> are the arguments after the current one.\<close>

definition checked_parse_arg ::
    "option_map \<Rightarrow> nat \<Rightarrow> string \<Rightarrow> string list \<Rightarrow> parse_state \<Rightarrow> (string list \<times> parse_state) res" where
  "checked_parse_arg m i name rest st =
     (let val = m_value (details m i)
      in case rest of
           [] \<Rightarrow>
             if m_implicit val
             then rbind (parse_option m i (m_implicit_value val) st) (\<lambda>st. Inr ([], st))
             else Inl (Throws (Missing_argument_exception name))
         | arg # rest' \<Rightarrow>
             if m_implicit val
             then rbind (parse_option m i (m_implicit_value val) st) (\<lambda>st. Inr (rest, st))
             else rbind (parse_option m i arg st) (\<lambda>st. Inr (rest', st)))"

definition add_to_option :: "option_map \<Rightarrow> string \<Rightarrow> string \<Rightarrow> parse_state \<Rightarrow> parse_state res" where
  "add_to_option m name arg st =
     (case find_option m name of
        None \<Rightarrow> Inl (Throws (Option_not_exists_exception name))
      | Some i \<Rightarrow> parse_option m i arg st)"

text \<open>
  The loop of \<open>consume_positional\<close> over the positional names not filled yet. A
  container takes every argument that comes, so its name is never passed.
\<close>

fun positional_loop ::
    "option_map \<Rightarrow> string \<Rightarrow> string list \<Rightarrow> parse_state \<Rightarrow> (bool \<times> parse_state) res" where
  "positional_loop m a [] st = Inr (False, st\<lparr>m_next_positional := []\<rparr>)"
| "positional_loop m a (p # ps) st =
     (case find_option m p of
        None \<Rightarrow> Inl (Throws (Option_not_exists_exception p))
      | Some i \<Rightarrow>
          let st = st\<lparr>m_results := (m_results st)(i \<mapsto> result_at st i)\<rparr>
          in if \<not> av_is_container (m_value (details m i))
             then (if ov_count (result_at st i) = 0
                   then rbind (add_to_option m p a st) (\<lambda>st.
                        Inr (True, st\<lparr>m_next_positional := ps\<rparr>))
                   else positional_loop m a ps st)
             else rbind (add_to_option m p a st) (\<lambda>st.
                  Inr (True, st\<lparr>m_next_positional := p # ps\<rparr>)))"

definition consume_positional ::
    "option_map \<Rightarrow> string \<Rightarrow> parse_state \<Rightarrow> (bool \<times> parse_state) res" where
  "consume_positional m a st = positional_loop m a (m_next_positional st) st"

subsection \<open>Matching one argument\<close>

text \<open>
  \<open>option_matcher\<close>: two dashes, a name of at least two characters and perhaps \<open>=\<close> and a
  value without line breaks; or one dash and letters.
\<close>

datatype option_match = No_match | Long_option string "string option" | Short_options string

definition is_name_char :: "char \<Rightarrow> bool" where
  "is_name_char c \<longleftrightarrow> is_alnum c \<or> c = CHR ''-'' \<or> c = CHR ''_''"

definition match_long :: "string \<Rightarrow> option_match" where
  "match_long s =
     (let name = takeWhile is_name_char s; after = dropWhile is_name_char s
      in if 2 \<le> length name \<and> is_alnum (hd name)
         then (case after of
                 [] \<Rightarrow> Long_option name None
               | c # v \<Rightarrow>
                   if c = CHR ''='' \<and> list_all (\<lambda>c. c \<noteq> CHR 0x0A \<and> c \<noteq> CHR 0x0D) v
                   then Long_option name (Some v) else No_match)
         else No_match)"

definition match_option :: "string \<Rightarrow> option_match" where
  "match_option a =
     (if take 2 a = ''--'' then match_long (drop 2 a)
      else if take 1 a = ''-'' \<and> drop 1 a \<noteq> [] \<and> list_all is_alnum (drop 1 a)
      then Short_options (drop 1 a)
      else No_match)"

subsection \<open>The loop over the arguments\<close>

definition keep :: "string \<Rightarrow> parse_state \<Rightarrow> parse_state" where
  "keep a st = st\<lparr>kept := kept st @ [a]\<rparr>"

text \<open>A cluster of short options: only the last may take the argument.\<close>

fun parse_short ::
    "option_map \<Rightarrow> bool \<Rightarrow> string \<Rightarrow> string list \<Rightarrow> parse_state \<Rightarrow> (string list \<times> parse_state) res"
  where
  "parse_short m allow [] rest st = Inr (rest, st)"
| "parse_short m allow (c # cs) rest st =
     (case find_option m [c] of
        None \<Rightarrow>
          if allow then parse_short m allow cs rest st
          else Inl (Throws (Option_not_exists_exception [c]))
      | Some i \<Rightarrow>
          if cs = [] then checked_parse_arg m i [c] rest st
          else if m_implicit (m_value (details m i))
          then rbind (parse_option m i (m_implicit_value (m_value (details m i))) st) (\<lambda>st.
               parse_short m allow cs rest st)
          else Inl (Throws (Option_requires_argument_exception [c])))"

definition parse_long ::
    "option_map \<Rightarrow> bool \<Rightarrow> string \<Rightarrow> string \<Rightarrow> string option \<Rightarrow> string list \<Rightarrow> parse_state \<Rightarrow>
       (string list \<times> parse_state) res"
  where
  "parse_long m allow a name val rest st =
     (case find_option m name of
        None \<Rightarrow>
          if allow then Inr (rest, keep a st)
          else Inl (Throws (Option_not_exists_exception name))
      | Some i \<Rightarrow>
          (case val of
             Some v \<Rightarrow> rbind (parse_option m i v st) (\<lambda>st. Inr (rest, st))
           | None \<Rightarrow> checked_parse_arg m i name rest st))"

text \<open>One argument that is neither \<open>--\<close> nor the end; the result has the arguments after it.\<close>

definition parse_one ::
    "option_map \<Rightarrow> bool \<Rightarrow> string \<Rightarrow> string list \<Rightarrow> parse_state \<Rightarrow> (string list \<times> parse_state) res"
  where
  "parse_one m allow a rest st =
     (case match_option a of
        No_match \<Rightarrow>
          if take 1 a = ''-'' \<and> drop 1 a \<noteq> [] then Inl (Throws (Option_syntax_exception a))
          else rbind (consume_positional m a st) (\<lambda>(consumed, st).
               Inr (rest, if consumed then st else keep a st))
      | Short_options s \<Rightarrow> parse_short m allow s rest st
      | Long_option name val \<Rightarrow> parse_long m allow a name val rest st)"

lemma checked_parse_arg_rest:
  "checked_parse_arg m i name rest st = Inr (rest', st') \<Longrightarrow> length rest' \<le> length rest"
  by (auto simp: checked_parse_arg_def Let_def rbind_Inr_iff split: list.splits if_splits)

lemma parse_short_rest:
  "parse_short m allow s rest st = Inr (rest', st') \<Longrightarrow> length rest' \<le> length rest"
  by (induction m allow s rest st rule: parse_short.induct)
     (auto simp: checked_parse_arg_rest rbind_Inr_iff split: option.splits if_splits)

lemma parse_one_rest:
  "parse_one m allow a rest st = Inr (rest', st') \<Longrightarrow> length rest' \<le> length rest"
  by (auto simp: parse_one_def parse_long_def parse_short_rest checked_parse_arg_rest rbind_Inr_iff
      split: option_match.splits option.splits if_splits)

text \<open>
  The loop, up to \<open>--\<close> or the end. What follows \<open>--\<close> is returned, \<open>None\<close> if there was
  none.
\<close>

function parse_loop ::
    "option_map \<Rightarrow> bool \<Rightarrow> string list \<Rightarrow> parse_state \<Rightarrow> (string list option \<times> parse_state) res" where
  "parse_loop m allow [] st = Inr (None, st)"
| "parse_loop m allow (a # rest) st =
     (if a = ''--'' then Inr (Some rest, st)
      else rbind (parse_one m allow a rest st) (\<lambda>x. parse_loop m allow (fst x) (snd x)))"
  by pat_completeness auto
termination
proof (relation "measure (\<lambda>(m, allow, args, st). length args)", goal_cases)
  case (2 m allow a rest st x)
  then show ?case using parse_one_rest [of m allow a rest st "fst x" "snd x"] by (cases x) simp
qed simp

text \<open>
  Every option gets an entry; one that was not given is parsed from its default. (An
  option with two names comes up twice.)
\<close>

fun parse_defaults :: "option_map \<Rightarrow> (string \<times> nat) list \<Rightarrow> parse_state \<Rightarrow> parse_state res" where
  "parse_defaults m [] st = Inr st"
| "parse_defaults m ((name, i) # opts) st =
     (let st = st\<lparr>m_results := (m_results st)(i \<mapsto> result_at st i)\<rparr>
      in rbind (if ov_count (result_at st i) = 0 \<and> m_default (m_value (details m i))
                then parse_default m i st else Inr st) (\<lambda>st.
         parse_defaults m opts st))"

text \<open>After \<open>--\<close>: positional parameters as long as there are any, the rest is kept.\<close>

fun consume_remaining :: "option_map \<Rightarrow> string list \<Rightarrow> parse_state \<Rightarrow> parse_state res" where
  "consume_remaining m [] st = Inr st"
| "consume_remaining m (a # rest) st =
     rbind (consume_positional m a st) (\<lambda>(consumed, st).
     if consumed then consume_remaining m rest st
     else Inr (st\<lparr>kept := kept st @ a # rest\<rparr>))"

definition new_parse_state :: "string list \<Rightarrow> parse_state" where
  "new_parse_state positional =
     \<lparr>m_results = Map.empty, m_sequential = [], m_next_positional = positional, kept = []\<rparr>"

definition parse_args :: "option_map \<Rightarrow> string list \<Rightarrow> bool \<Rightarrow> string list \<Rightarrow> parse_state res" where
  "parse_args m positional allow args =
     rbind (parse_loop m allow args (new_parse_state positional)) (\<lambda>(remaining, st).
     rbind (parse_defaults m (names m) st) (\<lambda>st.
     case remaining of None \<Rightarrow> Inr st | Some rest \<Rightarrow> consume_remaining m rest st))"

subsection \<open>The values have the declared types\<close>

text \<open>
  \<open>parsed_ok\<close>: whatever was parsed for an option has its declared type, and an option that
  was counted has a value.
\<close>

definition value_ok :: "option_details \<Rightarrow> option_value \<Rightarrow> bool" where
  "value_ok d v \<longleftrightarrow>
     (case ov_value v of
        None \<Rightarrow> ov_count v = 0
      | Some a \<Rightarrow> av_type a = av_type (m_value d) \<and> typed (av_type a) (m_store a))"

definition parsed_ok :: "option_map \<Rightarrow> parse_state \<Rightarrow> bool" where
  "parsed_ok m st \<longleftrightarrow> (\<forall>i v. m_results st i = Some v \<longrightarrow> value_ok (details m i) v)"

lemma value_ok_empty [simp]: "value_ok d empty_value"
  by (simp add: value_ok_def empty_value_def)

lemma result_at_ok: "parsed_ok m st \<Longrightarrow> value_ok (details m i) (result_at st i)"
  by (auto simp: parsed_ok_def result_at_def split: option.splits)

lemma ensure_value_ok:
  "value_ok d v \<Longrightarrow> av_type (ensure_value d v) = av_type (m_value d) \<and>
     typed (av_type (m_value d)) (m_store (ensure_value d v))"
  by (auto simp: value_ok_def ensure_value_def make_storage_def av_clone_def typed_fresh
      split: option.splits)

lemma ov_parse_ok: "ov_parse d text v = Inr v' \<Longrightarrow> value_ok d v \<Longrightarrow> value_ok d v'"
  using ensure_value_ok [of d v] parse_value_typed
  by (auto simp: ov_parse_def av_parse_def rbind_Inr_iff value_ok_def)

lemma ov_parse_default_ok: "ov_parse_default d v = Inr v' \<Longrightarrow> value_ok d v \<Longrightarrow> value_ok d v'"
  using ensure_value_ok [of d v] parse_value_typed
  by (auto simp: ov_parse_default_def av_parse_default_def av_parse_def rbind_Inr_iff value_ok_def)

lemma parsed_ok_upd:
  "parsed_ok m st \<Longrightarrow> value_ok (details m i) v \<Longrightarrow> m_results st' = (m_results st)(i \<mapsto> v) \<Longrightarrow>
     parsed_ok m st'"
  by (auto simp: parsed_ok_def)

lemma parsed_ok_same: "parsed_ok m st \<Longrightarrow> m_results st' = m_results st \<Longrightarrow> parsed_ok m st'"
  by (simp add: parsed_ok_def)

text \<open>Every operation keeps it.\<close>

lemma parse_option_ok:
  assumes "parse_option m i arg st = Inr st'" and "parsed_ok m st"
  shows "parsed_ok m st'"
proof -
  obtain v where v: "ov_parse (details m i) arg (result_at st i) = Inr v"
    "m_results st' = (m_results st)(i \<mapsto> v)"
    using assms(1) by (auto simp: parse_option_def rbind_Inr_iff)
  show ?thesis
    by (rule parsed_ok_upd [OF assms(2) ov_parse_ok [OF v(1) result_at_ok [OF assms(2)]] v(2)])
qed

lemma parse_default_ok:
  assumes "parse_default m i st = Inr st'" and "parsed_ok m st"
  shows "parsed_ok m st'"
proof -
  obtain v where v: "ov_parse_default (details m i) (result_at st i) = Inr v"
    "m_results st' = (m_results st)(i \<mapsto> v)"
    using assms(1) by (auto simp: parse_default_def rbind_Inr_iff)
  show ?thesis
    by (rule parsed_ok_upd [OF assms(2) ov_parse_default_ok [OF v(1) result_at_ok [OF assms(2)]] v(2)])
qed

lemma add_to_option_ok: "add_to_option m name arg st = Inr st' \<Longrightarrow> parsed_ok m st \<Longrightarrow> parsed_ok m st'"
  by (auto simp: add_to_option_def parse_option_ok split: option.splits)

lemma checked_parse_arg_ok:
  "checked_parse_arg m i name rest st = Inr (rest', st') \<Longrightarrow> parsed_ok m st \<Longrightarrow> parsed_ok m st'"
  by (auto simp: checked_parse_arg_def Let_def rbind_Inr_iff parse_option_ok
      split: list.splits if_splits)

lemma touch_ok:
  "parsed_ok m st \<Longrightarrow> parsed_ok m (st\<lparr>m_results := (m_results st)(i \<mapsto> result_at st i)\<rparr>)"
  by (rule parsed_ok_upd [OF _ result_at_ok]) simp_all

lemma positional_loop_ok:
  "positional_loop m a ps st = Inr (b, st') \<Longrightarrow> parsed_ok m st \<Longrightarrow> parsed_ok m st'"
proof (induction m a ps st arbitrary: b st' rule: positional_loop.induct)
  case (2 m a p ps st)
  obtain i where i: "find_option m p = Some i" using 2 by (auto split: option.splits)
  let ?st = "st\<lparr>m_results := (m_results st)(i \<mapsto> result_at st i)\<rparr>"
  have ok: "parsed_ok m ?st" using touch_ok 2 by blast
  have "parsed_ok m st'" if "positional_loop m a ps ?st = Inr (b, st')"
    "\<not> av_is_container (m_value (details m i))" "ov_count (result_at ?st i) \<noteq> 0"
    using 2(1) [OF i refl that(2,3,1) ok] .
  moreover have "parsed_ok m (st1\<lparr>m_next_positional := qs\<rparr>)"
    if "add_to_option m p a ?st = Inr st1" for st1 qs
    using add_to_option_ok [OF that ok] by (rule parsed_ok_same) simp
  ultimately show ?case
    using 2(2) i by (auto simp: Let_def rbind_Inr_iff split: if_splits)
qed (auto intro: parsed_ok_same)

lemma consume_positional_ok:
  "consume_positional m a st = Inr (b, st') \<Longrightarrow> parsed_ok m st \<Longrightarrow> parsed_ok m st'"
  by (auto simp: consume_positional_def intro: positional_loop_ok)

lemma parse_short_ok:
  "parse_short m allow s rest st = Inr (rest', st') \<Longrightarrow> parsed_ok m st \<Longrightarrow> parsed_ok m st'"
proof (induction m allow s rest st arbitrary: rest' st' rule: parse_short.induct)
  case (2 m allow c cs rest st)
  note more = 2(2) and ok = 2(4)
  show ?case
  proof (cases "find_option m [c]")
    case None
    then show ?thesis using 2 by (auto split: if_splits)
  next
    case (Some i)
    then consider "checked_parse_arg m i [c] rest st = Inr (rest', st')"
      | st1 where "cs \<noteq> []" "m_implicit (m_value (details m i))"
          "parse_option m i (m_implicit_value (m_value (details m i))) st = Inr st1"
          "parse_short m allow cs rest st1 = Inr (rest', st')"
      using 2(3) by (auto simp: rbind_Inr_iff split: if_splits)
    then show ?thesis
    proof cases
      case 1
      then show ?thesis using checked_parse_arg_ok ok by blast
    next
      case 2
      then show ?thesis using parse_option_ok [OF _ ok] more [OF Some] by blast
    qed
  qed
qed simp

lemma parse_one_ok:
  assumes "parse_one m allow a rest st = Inr (rest', st')" and "parsed_ok m st"
  shows "parsed_ok m st'"
proof (cases "match_option a")
  case No_match
  then obtain x where x: "consume_positional m a st = Inr x"
    using assms(1) by (cases "consume_positional m a st") (auto simp: parse_one_def split: if_splits)
  then have "st' = (if fst x then snd x else keep a (snd x))"
    using No_match assms(1) by (auto simp: parse_one_def split_beta split: if_splits)
  with x obtain b st1 where st1: "consume_positional m a st = Inr (b, st1)"
    "st' = (if b then st1 else keep a st1)" by (metis prod.collapse)
  have "parsed_ok m st1" by (rule consume_positional_ok [OF st1(1) assms(2)])
  then show ?thesis by (rule parsed_ok_same) (simp add: st1(2) keep_def)
next
  case (Short_options s)
  then show ?thesis using assms parse_short_ok by (simp add: parse_one_def)
next
  case (Long_option name val)
  then have long: "parse_long m allow a name val rest st = Inr (rest', st')"
    using assms(1) by (simp add: parse_one_def)
  have "parsed_ok m (keep a st)" using assms(2) by (rule parsed_ok_same) (simp add: keep_def)
  then show ?thesis
    using long checked_parse_arg_ok [OF _ assms(2)] parse_option_ok [OF _ assms(2)]
    by (auto simp: parse_long_def rbind_Inr_iff split: option.splits if_splits)
qed

lemma parse_loop_ok:
  "parse_loop m allow args st = Inr (rem, st') \<Longrightarrow> parsed_ok m st \<Longrightarrow> parsed_ok m st'"
proof (induction m allow args st rule: parse_loop.induct)
  case (2 m allow a rest st)
  show ?case
  proof (cases "a = ''--''")
    case False
    then obtain x where x: "parse_one m allow a rest st = Inr x"
      "parse_loop m allow (fst x) (snd x) = Inr (rem, st')"
      using 2(2) by (auto simp: rbind_Inr_iff)
    moreover have "parsed_ok m (snd x)" using parse_one_ok 2(3) x(1) by (metis prod.collapse)
    ultimately show ?thesis using 2(1) False by blast
  qed (use 2 in simp)
qed simp

lemma parse_defaults_ok:
  "parse_defaults m opts st = Inr st' \<Longrightarrow> parsed_ok m st \<Longrightarrow> parsed_ok m st'"
proof (induction m opts st rule: parse_defaults.induct)
  case (2 m name i opts st)
  let ?st = "st\<lparr>m_results := (m_results st)(i \<mapsto> result_at st i)\<rparr>"
  have "parsed_ok m ?st" using touch_ok 2 by blast
  then show ?case
    using 2 parse_default_ok by (auto simp: Let_def rbind_Inr_iff split: if_splits)
qed simp

lemma consume_remaining_ok:
  "consume_remaining m rest st = Inr st' \<Longrightarrow> parsed_ok m st \<Longrightarrow> parsed_ok m st'"
proof (induction m rest st rule: consume_remaining.induct)
  case (2 m a rest st)
  then obtain b st1 where st1: "consume_positional m a st = Inr (b, st1)"
    "(if b then consume_remaining m rest st1 else Inr (st1\<lparr>kept := kept st1 @ a # rest\<rparr>)) = Inr st'"
    by (auto simp: rbind_Inr_iff)
  have ok: "parsed_ok m st1" by (rule consume_positional_ok [OF st1(1) 2(3)])
  show ?case
  proof (cases b)
    case True
    then show ?thesis using 2(1) [OF st1(1) refl True _ ok] st1 by simp
  next
    case False
    then show ?thesis using st1(2) by (intro parsed_ok_same [OF ok]) auto
  qed
qed simp

subsection \<open>Every declared option has an entry\<close>

definition grows :: "parse_state \<Rightarrow> parse_state \<Rightarrow> bool" where
  "grows st st' \<longleftrightarrow> dom (m_results st) \<subseteq> dom (m_results st')"

lemma grows_refl [simp]: "grows st st"
  by (simp add: grows_def)

lemma grows_trans: "grows st st' \<Longrightarrow> grows st' st'' \<Longrightarrow> grows st st''"
  by (auto simp: grows_def)

lemma grows_upd: "m_results st' = (m_results st)(i \<mapsto> v) \<Longrightarrow> grows st st'"
  by (auto simp: grows_def)

lemma parse_option_grows: "parse_option m i arg st = Inr st' \<Longrightarrow> grows st st'"
  by (auto simp: parse_option_def rbind_Inr_iff grows_def)

lemma add_to_option_grows: "add_to_option m name arg st = Inr st' \<Longrightarrow> grows st st'"
  by (auto simp: add_to_option_def parse_option_grows split: option.splits)

lemma positional_loop_grows: "positional_loop m a ps st = Inr (b, st') \<Longrightarrow> grows st st'"
proof (induction m a ps st arbitrary: b st' rule: positional_loop.induct)
  case (2 m a p ps st)
  obtain i where i: "find_option m p = Some i" using 2 by (auto split: option.splits)
  let ?st = "st\<lparr>m_results := (m_results st)(i \<mapsto> result_at st i)\<rparr>"
  have step: "grows st ?st" by (rule grows_upd) simp
  have "grows ?st st'" if "positional_loop m a ps ?st = Inr (b, st')"
    "\<not> av_is_container (m_value (details m i))" "ov_count (result_at ?st i) \<noteq> 0"
    using 2(1) [OF i refl that(2,3,1)] .
  moreover have "grows ?st (st1\<lparr>m_next_positional := qs\<rparr>)"
    if "add_to_option m p a ?st = Inr st1" for st1 qs
    using add_to_option_grows [OF that] by (simp add: grows_def)
  ultimately have "grows ?st st'"
    using 2(2) i by (auto simp: Let_def rbind_Inr_iff split: if_splits)
  then show ?case by (rule grows_trans [OF step])
qed (auto simp: grows_def)

lemma consume_remaining_grows: "consume_remaining m rest st = Inr st' \<Longrightarrow> grows st st'"
proof (induction m rest st rule: consume_remaining.induct)
  case (2 m a rest st)
  then obtain b st1 where st1: "consume_positional m a st = Inr (b, st1)"
    "(if b then consume_remaining m rest st1 else Inr (st1\<lparr>kept := kept st1 @ a # rest\<rparr>)) = Inr st'"
    by (auto simp: rbind_Inr_iff)
  have step: "grows st st1" using st1(1) by (simp add: consume_positional_def positional_loop_grows)
  have "grows st1 st'"
  proof (cases b)
    case True
    then show ?thesis using 2(1) [OF st1(1) refl True] st1 by simp
  next
    case False
    then show ?thesis using st1(2) by (auto simp: grows_def)
  qed
  then show ?case by (rule grows_trans [OF step])
qed simp

lemma parse_defaults_all:
  "parse_defaults m opts st = Inr st' \<Longrightarrow>
     grows st st' \<and> (\<forall>(name, i) \<in> set opts. i \<in> dom (m_results st'))"
proof (induction m opts st rule: parse_defaults.induct)
  case (2 m name i opts st)
  let ?st = "st\<lparr>m_results := (m_results st)(i \<mapsto> result_at st i)\<rparr>"
  obtain st1 where st1: "parse_defaults m opts st1 = Inr st'"
    "(if ov_count (result_at ?st i) = 0 \<and> m_default (m_value (details m i))
      then parse_default m i ?st else Inr ?st) = Inr st1"
    using 2(2) by (auto simp: Let_def rbind_Inr_iff)
  have "\<exists>v. m_results st1 = (m_results st)(i \<mapsto> v)"
    using st1(2) by (auto simp: parse_default_def rbind_Inr_iff split: if_splits)
  then have "grows st st1" "i \<in> dom (m_results st1)" by (auto simp: grows_def)
  moreover have "grows st1 st' \<and> (\<forall>(name, i) \<in> set opts. i \<in> dom (m_results st'))"
    by (rule 2(1) [OF refl st1(2,1)])
  ultimately show ?case using grows_trans by (auto simp: grows_def)
qed simp

lemma parse_args_ok:
  assumes "parse_args m positional allow args = Inr st"
  shows "parsed_ok m st" and "find_option m name = Some i \<Longrightarrow> m_results st i \<noteq> None"
proof -
  obtain rem st1 st2 where run: "parse_loop m allow args (new_parse_state positional) = Inr (rem, st1)"
    "parse_defaults m (names m) st1 = Inr st2"
    "(case rem of None \<Rightarrow> Inr st2 | Some rest \<Rightarrow> consume_remaining m rest st2) = Inr st"
    using assms by (auto simp: parse_args_def rbind_Inr_iff)
  have "parsed_ok m (new_parse_state positional)" by (simp add: parsed_ok_def new_parse_state_def)
  then have "parsed_ok m st2" using run parse_loop_ok parse_defaults_ok by blast
  then show "parsed_ok m st"
    using run(3) consume_remaining_ok by (auto split: option.splits)
  have "grows st2 st" using run(3) consume_remaining_grows by (auto split: option.splits)
  then show "m_results st i \<noteq> None" if "find_option m name = Some i"
    using that parse_defaults_all [OF run(2)]
    by (fastforce simp: find_option_def grows_def dest: map_of_SomeD)
qed

text \<open>
  C31. After a parse that returns, every declared option has an entry, and if it was given,
  \<open>as<T> ()\<close> with the declared type neither throws nor returns a value of another type.
\<close>

theorem parsed_value_has_declared_type:
  assumes "parse_args m positional allow args = Inr st" and "find_option m name = Some i"
  shows "\<exists>v. result_of m st name = Inr v \<and>
    (0 < ov_count v \<longrightarrow>
       (\<exists>x. as_type (av_type (m_value (details m i))) v = Inr x \<and>
            typed (av_type (m_value (details m i))) x))"
proof -
  obtain v where v: "m_results st i = Some v" using parse_args_ok(2) [OF assms] by blast
  then have "value_ok (details m i) v" using parse_args_ok(1) [OF assms(1)] by (simp add: parsed_ok_def)
  then show ?thesis
    using v assms(2) by (auto simp: result_of_def value_ok_def as_type_def split: option.splits)
qed

lemma parsed_value_has_declared_type_witness:
  "\<exists>m st v. parse_args m [] False [''-n'', ''7''] = Inr st \<and> result_of m st ''n'' = Inr v \<and>
     ov_count v = 1 \<and> (\<exists>x. as_type (Int_type Int32) v = Inr x \<and> typed (Int_type Int32) x)"
proof -
  let ?m = "\<lparr>names = [(''n'', 0)],
    pointees = [new_OptionDetails ''n'' [] [] (standard_value (Int_type Int32))]\<rparr>"
  have d: "m_value (details ?m 0) = standard_value (Int_type Int32)"
    by (simp add: details_def new_OptionDetails_def)
  have f: "find_option ?m ''n'' = Some 0" by (simp add: find_option_def)
  have "integer_parser Int32 ''7'' = Inr 7"
    using integer_parser_digits [of "''7''" Int32]
    by (simp add: is_digit_def digits_val_def digit_val_def type_max_def int_signed_def)
  then obtain st v where st: "parse_args ?m [] False [''-n'', ''7''] = Inr st"
    "m_results st 0 = Some v" "ov_count v = 1"
    using d f
    by (simp add: parse_args_def new_parse_state_def parse_one_def match_option_def is_alnum_def
        is_digit_def checked_parse_arg_def parse_option_def ov_parse_def ensure_value_def
        make_storage_def av_clone_def av_parse_def standard_value_def result_at_def empty_value_def)
  then have "result_of ?m st ''n'' = Inr v" using f by (simp add: result_of_def)
  then show ?thesis
    using parsed_value_has_declared_type [OF st(1) f] st d
    by (intro exI [of _ ?m] exI [of _ st] exI [of _ v]) (simp add: standard_value_def)
qed

text \<open>
  The default of a container with a short and a long name is stored twice: the loop meets
  the option under each name, and \<open>parse_default\<close> does not count.
\<close>

lemma container_default_stored_twice:
  "\<exists>st v. parse_args
       \<lparr>names = [(''v'', 0), (''vec'', 0)],
        pointees = [new_OptionDetails ''v'' ''vec'' []
          (default_value ''a'' (standard_value (Vector_type String_type)))]\<rparr> [] False [] = Inr st \<and>
     m_results st 0 = Some v \<and>
     as_type (Vector_type String_type) v =
       Inr (Stored_vector [Stored_string ''a'', Stored_string ''a''])"
  by (simp add: parse_args_def new_parse_state_def details_def new_OptionDetails_def
      default_value_def standard_value_def parse_default_def ov_parse_default_def ensure_value_def
      make_storage_def av_clone_def av_parse_default_def av_parse_def push_back_def result_at_def
      empty_value_def as_type_def)

end
