(* ===== verification/Options.thy ===== *)
theory Options
  imports CommandLine
begin

section \<open>Declaring options and the help text (lib/cxxopts, Options)\<close>

text \<open>
  \<open>Options\<close> collects the options a program declares (through \<open>OptionAdder\<close>), hands them
  to \<open>ParseResult::parse\<close> and formats the help text.
\<close>

subsection \<open>The class\<close>

record help_option =
  h_s :: string
  h_l :: string
  h_desc :: string
  h_has_default :: bool
  h_default_value :: string
  h_has_implicit :: bool
  h_implicit_value :: string
  h_arg_help :: string
  h_is_container :: bool
  h_is_boolean :: bool

record help_group =
  hg_name :: string
  hg_description :: string
  hg_options :: "help_option list"

record options =
  m_program :: string
  m_help_string :: string
  m_custom_help :: string
  m_positional_help :: string
  m_show_positional :: bool
  m_allow_unrecognised :: bool
  m_options :: option_map
  m_positional :: "string list"
  m_positional_set :: "string list"
  m_help :: "(string \<times> help_group) list"

definition new_Options :: "string \<Rightarrow> string \<Rightarrow> options" where
  "new_Options program help_string =
     \<lparr>m_program = program, m_help_string = help_string, m_custom_help = ''[OPTION...]'',
      m_positional_help = ''positional parameters'', m_show_positional = False,
      m_allow_unrecognised = False, m_options = \<lparr>names = [], pointees = []\<rparr>,
      m_positional = [], m_positional_set = [], m_help = []\<rparr>"

definition positional_help :: "string \<Rightarrow> options \<Rightarrow> options" where
  "positional_help help_text s = s\<lparr>m_positional_help := help_text\<rparr>"

definition custom_help :: "string \<Rightarrow> options \<Rightarrow> options" where
  "custom_help help_text s = s\<lparr>m_custom_help := help_text\<rparr>"

definition show_positional_help :: "options \<Rightarrow> options" where
  "show_positional_help s = s\<lparr>m_show_positional := True\<rparr>"

definition allow_unrecognised_options :: "options \<Rightarrow> options" where
  "allow_unrecognised_options s = s\<lparr>m_allow_unrecognised := True\<rparr>"

definition parse_positional :: "string list \<Rightarrow> options \<Rightarrow> options" where
  "parse_positional opts s =
     s\<lparr>m_positional := opts, m_positional_set := m_positional_set s @ opts\<rparr>"

definition options_parse :: "options \<Rightarrow> string list \<Rightarrow> parse_state res" where
  "options_parse s args = parse_args (m_options s) (m_positional s) (m_allow_unrecognised s) args"

subsection \<open>Declaring an option\<close>

text \<open>\<open>std::map\<close> keeps its keys in the order of \<open>std::string\<close>.\<close>

fun string_less :: "string \<Rightarrow> string \<Rightarrow> bool" where
  "string_less [] t \<longleftrightarrow> t \<noteq> []"
| "string_less (c # s) [] \<longleftrightarrow> False"
| "string_less (c # s) (d # t) \<longleftrightarrow>
     (of_char c :: nat) < of_char d \<or> c = d \<and> string_less s t"

fun help_insert :: "string \<Rightarrow> help_option \<Rightarrow> (string \<times> help_group) list \<Rightarrow> (string \<times> help_group) list"
  where
  "help_insert g h [] = [(g, \<lparr>hg_name = [], hg_description = [], hg_options = [h]\<rparr>)]"
| "help_insert g h ((k, d) # rest) =
     (if g = k then (k, d\<lparr>hg_options := hg_options d @ [h]\<rparr>) # rest
      else if string_less g k
      then (g, \<lparr>hg_name = [], hg_description = [], hg_options = [h]\<rparr>) # (k, d) # rest
      else (k, d) # help_insert g h rest)"

definition add_one_option :: "string \<Rightarrow> nat \<Rightarrow> option_map \<Rightarrow> option_map res" where
  "add_one_option name i m =
     (if find_option m name = None then Inr (m\<lparr>names := names m @ [(name, i)]\<rparr>)
      else Inl (Throws (Option_exists_error name)))"

definition add_option ::
    "string \<Rightarrow> string \<Rightarrow> string \<Rightarrow> string \<Rightarrow> abstract_value \<Rightarrow> string \<Rightarrow> options \<Rightarrow> options res" where
  "add_option grp s l desc val arg_help opts =
     (let m = m_options opts;
          i = length (pointees m);
          m = m\<lparr>pointees := pointees m @ [new_OptionDetails s l desc val]\<rparr>
      in rbind (if s \<noteq> [] then add_one_option s i m else Inr m) (\<lambda>m.
         rbind (if l \<noteq> [] then add_one_option l i m else Inr m) (\<lambda>m.
         Inr (opts\<lparr>m_options := m,
           m_help := help_insert grp
             \<lparr>h_s = s, h_l = l, h_desc = desc, h_has_default = m_default val,
              h_default_value = m_default_value val, h_has_implicit = m_implicit val,
              h_implicit_value = m_implicit_value val, h_arg_help = arg_help,
              h_is_container = av_is_container val, h_is_boolean = av_is_boolean val\<rparr>
             (m_help opts)\<rparr>))))"

text \<open>
  \<open>option_specifier\<close>: a letter and a comma, or not; spaces; a name, or nothing. The match
  is on the C string.
\<close>

definition match_specifier :: "string \<Rightarrow> (string \<times> string) option" where
  "match_specifier text =
     (let text = takeWhile (\<lambda>c. c \<noteq> CHR 0x00) text;
          (short, t) =
            (if 2 \<le> length text \<and> is_alnum (text ! 0) \<and> text ! 1 = CHR '',''
             then ([text ! 0], drop 2 text) else ([], text));
          long = dropWhile (\<lambda>c. c = CHR '' '') t
      in if long = [] \<or> is_alnum (hd long) \<and> list_all is_name_char long
         then Some (short, long) else None)"

definition option_adder ::
    "string \<Rightarrow> string \<Rightarrow> string \<Rightarrow> abstract_value \<Rightarrow> string \<Rightarrow> options \<Rightarrow> options res" where
  "option_adder grp opts desc val arg_help s =
     (case match_specifier opts of
        None \<Rightarrow> Inl (Throws (Invalid_option_format_error opts))
      | Some (short, long) \<Rightarrow>
          if short = [] \<and> long = [] then Inl (Throws (Invalid_option_format_error opts))
          else if length long = 1 \<and> short \<noteq> [] then Inl (Throws (Invalid_option_format_error opts))
          else let (s1, l1) = (if length long = 1 then (long, short) else (short, long))
               in add_option grp s1 l1 desc val arg_help s)"

text \<open>What a declaration changes: its names point to the new details, no other name moves.\<close>

lemma add_one_option_finds:
  assumes "add_one_option name i m = Inr m'"
  shows "find_option m' n = (if n = name then Some i else find_option m n)"
    and "pointees m' = pointees m"
  using assms
  by (auto simp: add_one_option_def find_option_def map_add_def split: if_splits option.splits)

lemma add_option_finds:
  assumes "add_option grp s l desc val arg_help opts = Inr opts'"
  shows "find_option (m_options opts') n =
      (if n \<noteq> [] \<and> (n = s \<or> n = l) then Some (length (pointees (m_options opts)))
       else find_option (m_options opts) n)"
    and "pointees (m_options opts') = pointees (m_options opts) @ [new_OptionDetails s l desc val]"
proof -
  let ?i = "length (pointees (m_options opts))"
  let ?m = "(m_options opts)\<lparr>pointees := pointees (m_options opts) @ [new_OptionDetails s l desc val]\<rparr>"
  obtain m1 m2 where m: "(if s \<noteq> [] then add_one_option s ?i ?m else Inr ?m) = Inr m1"
    "(if l \<noteq> [] then add_one_option l ?i m1 else Inr m1) = Inr m2" "m_options opts' = m2"
    using assms by (auto simp: add_option_def Let_def rbind_Inr_iff)
  have 0: "find_option ?m n = find_option (m_options opts) n" by (simp add: find_option_def)
  have 1: "find_option m1 n = (if s \<noteq> [] \<and> n = s then Some ?i else find_option ?m n)"
    "pointees m1 = pointees ?m"
    using m(1) add_one_option_finds [of s ?i ?m m1] by (auto split: if_splits)
  have 2: "find_option m2 n = (if l \<noteq> [] \<and> n = l then Some ?i else find_option m1 n)"
    "pointees m2 = pointees m1"
    using m(2) add_one_option_finds [of l ?i m1 m2] by (auto split: if_splits)
  show "find_option (m_options opts') n =
      (if n \<noteq> [] \<and> (n = s \<or> n = l) then Some ?i else find_option (m_options opts) n)"
    using 0 1(1) 2(1) m(3) by auto
  show "pointees (m_options opts') = pointees (m_options opts) @ [new_OptionDetails s l desc val]"
    using 1(2) 2(2) m(3) by simp
qed

lemma add_option_taken:
  assumes "l \<noteq> []" and "find_option (m_options opts) l \<noteq> None" and "s = [] \<or> s = l"
  shows "add_option grp s l desc val arg_help opts = Inl (Throws (Option_exists_error l))"
  using assms by (auto simp: add_option_def Let_def add_one_option_def find_option_def)

subsection \<open>The help text\<close>

definition OPTION_LONGEST :: nat where "OPTION_LONGEST = 30"
definition OPTION_DESC_GAP :: nat where "OPTION_DESC_GAP = 2"

definition format_option :: "help_option \<Rightarrow> string" where
  "format_option h =
     (let r = ''  '' @ (if h_s h \<noteq> [] then ''-'' @ h_s h @ '','' else ''   '');
          r = r @ (if h_l h \<noteq> [] then '' --'' @ h_l h else []);
          arg = (if h_arg_help h \<noteq> [] then h_arg_help h else ''arg'')
      in if h_is_boolean h then r
         else if h_has_implicit h then r @ '' [='' @ arg @ ''(='' @ h_implicit_value h @ '')]''
         else r @ '' '' @ arg)"

text \<open>
  The loop of \<open>format_description\<close>, on the characters from \<open>current\<close> on. The iterators
  are positions in \<open>desc\<close>; appending a range whose end lies before its start is undefined.
\<close>

definition append_range :: "string \<Rightarrow> nat \<Rightarrow> nat \<Rightarrow> string \<Rightarrow> string res" where
  "append_range desc i j r =
     (if j < i then Inl (Undefined Invalid_range) else Inr (r @ take (j - i) (drop i desc)))"

definition new_line :: "nat \<Rightarrow> string" where
  "new_line start = CHR 0x0A # replicate start (CHR '' '')"

fun describe_loop ::
    "string \<Rightarrow> nat \<Rightarrow> nat \<Rightarrow> string \<Rightarrow> nat \<Rightarrow> nat \<Rightarrow> nat \<Rightarrow> nat \<Rightarrow> string \<Rightarrow> string res" where
  "describe_loop desc start width [] current startLine lastSpace sz r =
     append_range desc startLine current r"
| "describe_loop desc start width (c # cs) current startLine lastSpace sz r =
     (let lastSpace = (if c = CHR '' '' then current else lastSpace)
      in if c = CHR 0x0A
         then describe_loop desc start width cs (current + 1) (current + 1) (current + 1) sz r
         else if width < sz
         then (if lastSpace = startLine
               then rbind (append_range desc startLine (current + 1) r) (\<lambda>r.
                    describe_loop desc start width cs (current + 1) (current + 1) (current + 1) 0
                      (r @ new_line start))
               else rbind (append_range desc startLine lastSpace r) (\<lambda>r.
                    describe_loop desc start width cs (current + 1) (lastSpace + 1) lastSpace 0
                      (r @ new_line start)))
         else describe_loop desc start width cs (current + 1) startLine lastSpace (sz + 1) r)"

definition full_description :: "help_option \<Rightarrow> string" where
  "full_description h =
     h_desc h @
     (if h_has_default h \<and> (\<not> h_is_boolean h \<or> h_default_value h \<noteq> ''false'')
      then '' (default: '' @ h_default_value h @ '')'' else [])"

definition format_description :: "help_option \<Rightarrow> nat \<Rightarrow> nat \<Rightarrow> string res" where
  "format_description h start width =
     (let desc = full_description h
      in describe_loop desc start width desc 0 0 0 0 [])"

fun help_lines :: "nat \<Rightarrow> nat \<Rightarrow> (help_option \<times> string) list \<Rightarrow> string \<Rightarrow> string res" where
  "help_lines longest allowed [] r = Inr r"
| "help_lines longest allowed ((h, s) # hs) r =
     rbind (format_description h (longest + OPTION_DESC_GAP) allowed) (\<lambda>d.
     help_lines longest allowed hs
       (r @ s @
        (if longest < length s then new_line (longest + OPTION_DESC_GAP)
         else replicate (longest + OPTION_DESC_GAP - length s) (CHR '' '')) @
        d @ [CHR 0x0A]))"

definition hidden :: "options \<Rightarrow> help_option \<Rightarrow> bool" where
  "hidden s h \<longleftrightarrow>
     h_is_container h \<and> h_l h \<in> set (m_positional_set s) \<and> \<not> m_show_positional s"

definition help_one_group :: "options \<Rightarrow> string \<Rightarrow> string res" where
  "help_one_group s g =
     (case map_of (m_help s) g of
        None \<Rightarrow> Inr []
      | Some grp \<Rightarrow>
          let r = (if g \<noteq> [] then '' '' @ g @ '' options:'' @ [CHR 0x0A] else []);
              hs = filter (\<lambda>h. \<not> hidden s h) (hg_options grp);
              format = map (\<lambda>h. (h, format_option h)) hs;
              longest = foldl (\<lambda>n p. max n (length (snd p))) 0 format;
              longest = min longest OPTION_LONGEST;
              allowed = 76 - longest - OPTION_DESC_GAP
          in help_lines longest allowed format r)"

fun generate_group_help :: "options \<Rightarrow> string list \<Rightarrow> string \<Rightarrow> string res" where
  "generate_group_help s [] r = Inr r"
| "generate_group_help s (g # gs) r =
     rbind (help_one_group s g) (\<lambda>txt.
     generate_group_help s gs
       (if txt = [] then r else r @ txt @ (if gs \<noteq> [] then [CHR 0x0A] else [])))"

definition groups :: "options \<Rightarrow> string list" where
  "groups s = map fst (m_help s)"

definition generate_all_groups_help :: "options \<Rightarrow> string \<Rightarrow> string res" where
  "generate_all_groups_help s r = generate_group_help s (groups s) r"

definition group_help :: "options \<Rightarrow> string \<Rightarrow> help_group res" where
  "group_help s g =
     (case map_of (m_help s) g of None \<Rightarrow> Inl (Throws Out_of_range) | Some d \<Rightarrow> Inr d)"

definition options_help :: "options \<Rightarrow> string list \<Rightarrow> string res" where
  "options_help s help_groups =
     (let r = m_help_string s @ [CHR 0x0A] @ ''Usage:'' @ [CHR 0x0A] @ ''  '' @
              m_program s @ '' '' @ m_custom_help s;
          r = r @ (if m_positional s \<noteq> [] \<and> m_positional_help s \<noteq> []
                   then '' '' @ m_positional_help s else []);
          r = r @ [CHR 0x0A, CHR 0x0A]
      in if help_groups = [] then generate_all_groups_help s r
         else generate_group_help s help_groups r)"

subsection \<open>Wrapping a description\<close>

text \<open>
  If every stretch of \<open>width + 2\<close> characters has a space, the ranges that are appended
  are ranges; and as long as there is no line break, the visible characters are those of
  the description.
\<close>

definition spaced :: "nat \<Rightarrow> string \<Rightarrow> bool" where
  "spaced n s \<longleftrightarrow> (\<forall>i. i + n < length s \<longrightarrow> (\<exists>j. i \<le> j \<and> j \<le> i + n \<and> s ! j = CHR '' ''))"

definition visible :: "string \<Rightarrow> string" where
  "visible s = filter (\<lambda>c. c \<noteq> CHR '' '' \<and> c \<noteq> CHR 0x0A) s"

lemma visible_append [simp]: "visible (s @ t) = visible s @ visible t"
  by (simp add: visible_def)

lemma visible_new_line [simp]: "visible (new_line n) = []"
  by (simp add: visible_def new_line_def)

lemma visible_range:
  assumes "i \<le> j"
  shows "visible (take i s) @ visible (take (j - i) (drop i s)) = visible (take j s)"
proof -
  have "take j s = take i s @ take (j - i) (drop i s)"
    using assms take_add [of i "j - i" s] by simp
  then show ?thesis by (metis visible_append)
qed

lemma visible_take_space:
  assumes "j < length s" and "s ! j = CHR '' ''"
  shows "visible (take (Suc j) s) = visible (take j s)"
  using assms by (simp add: take_Suc_conv_app_nth) (simp add: visible_def)

lemma drop_Cons_nth: "drop i s = c # cs \<Longrightarrow> i < length s \<and> s ! i = c \<and> drop (Suc i) s = cs"
  by (metis drop_Suc drop_eq_Nil list.distinct(1) list.sel(3) not_less nth_via_drop tl_drop)

text \<open>The spaces seen since the last break.\<close>

definition since_break :: "string \<Rightarrow> nat \<Rightarrow> nat \<Rightarrow> nat \<Rightarrow> nat \<Rightarrow> bool" where
  "since_break desc current startLine lastSpace sz \<longleftrightarrow>
     startLine \<le> lastSpace \<or>
     sz \<le> current \<and> startLine \<le> current - sz \<and>
       (\<forall>j. current - sz \<le> j \<and> j < current \<longrightarrow> desc ! j \<noteq> CHR '' '')"

lemma describe_loop_returns:
  assumes "spaced (width + 1) desc" and "drop current desc = cs"
    and "startLine \<le> current" and "lastSpace \<le> current"
    and "since_break desc current startLine lastSpace sz"
  shows "\<exists>out. describe_loop desc start width cs current startLine lastSpace sz r = Inr out"
  using assms(2-)
proof (induction cs arbitrary: current startLine lastSpace sz r)
  case Nil
  then show ?case by (simp add: append_range_def)
next
  case (Cons c cs)
  let ?ls = "if c = CHR '' '' then current else lastSpace"
  note c = drop_Cons_nth [OF Cons.prems(1)]
  have at: "current < length desc" "desc ! current = c" "drop (Suc current) desc = cs" using c by auto
  have sb: "since_break desc (Suc current) startLine ?ls (Suc sz)"
    using Cons.prems(2,4) at(2) less_Suc_eq by (auto simp: since_break_def)
  have le: "startLine \<le> ?ls" if "width < sz"
  proof (rule ccontr)
    assume less: "\<not> startLine \<le> ?ls"
    then have none: "\<forall>j. current - sz \<le> j \<and> j < Suc current \<longrightarrow> desc ! j \<noteq> CHR '' ''"
      and "sz \<le> current"
      using sb by (auto simp: since_break_def)
    then have "current - sz + (width + 1) \<le> current" using that by simp
    then obtain j where "current - sz \<le> j" "j \<le> current" "desc ! j = CHR '' ''"
      using assms(1) at(1) unfolding spaced_def by (meson le_less_trans le_trans)
    then show False using none by simp
  qed
  have trivial: "since_break desc (Suc current) (Suc current) (Suc current) k" for k
    by (simp add: since_break_def)
  show ?case
  proof (cases "c = CHR 0x0A")
    case True
    then show ?thesis using Cons.IH [OF at(3) _ _ trivial] by simp
  next
    case False
    show ?thesis
    proof (cases "width < sz")
      case True
      have "since_break desc (Suc current) (Suc ?ls) ?ls 0"
        using Cons.prems(3) by (auto simp: since_break_def)
      moreover have "Suc ?ls \<le> Suc current" "?ls \<le> Suc current" using Cons.prems(3) by auto
      ultimately show ?thesis
        using False True le Cons.prems(2) Cons.IH [OF at(3) _ _ trivial]
          Cons.IH [OF at(3), of "Suc ?ls" ?ls 0]
        by (auto simp: append_range_def Let_def)
    next
      case small: False
      then show ?thesis
        using False sb Cons.prems(2,3) Cons.IH [OF at(3), of startLine ?ls "Suc sz"]
        by (auto simp: Let_def)
    qed
  qed
qed

lemma describe_loop_visible:
  assumes "CHR 0x0A \<notin> set desc" and "drop current desc = cs"
    and "lastSpace = startLine \<or> lastSpace < length desc \<and> desc ! lastSpace = CHR '' ''"
    and "visible r = visible (take startLine desc)"
    and "describe_loop desc start width cs current startLine lastSpace sz r = Inr out"
  shows "visible out = visible desc"
  using assms(2-)
proof (induction cs arbitrary: current startLine lastSpace sz r)
  case Nil
  then have "visible out = visible (take startLine desc) @
      visible (take (current - startLine) (drop startLine desc))" "startLine \<le> current"
    by (auto simp: append_range_def split: if_splits)
  moreover have "take current desc = desc" using Nil.prems(1) by simp
  ultimately show ?case using visible_range by metis
next
  case (Cons c cs)
  let ?ls = "if c = CHR '' '' then current else lastSpace"
  note c = drop_Cons_nth [OF Cons.prems(1)]
  have at: "current < length desc" "desc ! current = c" "drop (Suc current) desc = cs" using c by auto
  have nl: "c \<noteq> CHR 0x0A" using assms(1) at(1,2) by (metis nth_mem)
  have ls: "?ls = startLine \<or> ?ls < length desc \<and> desc ! ?ls = CHR '' ''"
    using Cons.prems(2) at by simp
  show ?case
  proof (cases "width < sz")
    case wide: True
    show ?thesis
    proof (cases "?ls = startLine")
      case True
      then obtain r' where r': "append_range desc startLine (Suc current) r = Inr r'"
        "describe_loop desc start width cs (Suc current) (Suc current) (Suc current) 0
           (r' @ new_line start) = Inr out"
        using Cons.prems(4) nl wide by (auto simp: Let_def rbind_Inr_iff)
      then have "visible (r' @ new_line start) = visible (take (Suc current) desc)"
        using visible_range [of startLine "Suc current" desc] Cons.prems(3)
        by (auto simp: append_range_def split: if_splits)
      then show ?thesis using Cons.IH [OF at(3) _ _ r'(2)] by simp
    next
      case False
      then obtain r' where r': "append_range desc startLine ?ls r = Inr r'"
        "describe_loop desc start width cs (Suc current) (Suc ?ls) ?ls 0
           (r' @ new_line start) = Inr out"
        using Cons.prems(4) nl wide by (auto simp: Let_def rbind_Inr_iff)
      have sp: "?ls < length desc" "desc ! ?ls = CHR '' ''" using ls False by auto
      then have "visible (r' @ new_line start) = visible (take (Suc ?ls) desc)"
        using visible_range [of startLine ?ls desc] Cons.prems(3) r'(1) visible_take_space [OF sp]
        by (auto simp: append_range_def split: if_splits)
      then show ?thesis using Cons.IH [OF at(3) _ _ r'(2)] sp by simp
    qed
  next
    case False
    then show ?thesis
      using Cons.IH [OF at(3) ls Cons.prems(3), of "Suc sz"] Cons.prems(4) nl by (simp add: Let_def)
  qed
qed

lemma format_description_visible:
  assumes "spaced (width + 1) (full_description h)" and "CHR 0x0A \<notin> set (full_description h)"
  shows "\<exists>out. format_description h start width = Inr out \<and> visible out = visible (full_description h)"
proof -
  obtain out where "format_description h start width = Inr out"
    using describe_loop_returns [OF assms(1), of 0 _ 0 0 0 start "[]"]
    by (auto simp: format_description_def since_break_def)
  then show ?thesis
    using describe_loop_visible [OF assms(2), of 0 _ 0 0 "[]" start width 0 out]
    by (simp add: format_description_def visible_def Let_def)
qed

text \<open>
  C32. The help text wraps a description without losing or inventing visible characters,
  and never appends an invalid range, if the description has no line break and no run of
  more than \<open>width + 1\<close> characters without a space.
\<close>

theorem help_description_keeps_text:
  assumes "spaced (width + 1) (full_description h)" and "CHR 0x0A \<notin> set (full_description h)"
  shows "\<exists>out. format_description h start width = Inr out \<and> visible out = visible (full_description h)"
  by (rule format_description_visible [OF assms])

definition demo_help :: "string \<Rightarrow> help_option" where
  "demo_help desc =
     \<lparr>h_s = [], h_l = ''demo'', h_desc = desc, h_has_default = False, h_default_value = [],
      h_has_implicit = False, h_implicit_value = [], h_arg_help = [], h_is_container = False,
      h_is_boolean = False\<rparr>"

lemma help_description_keeps_text_witness:
  "\<exists>out. format_description (demo_help ''a bc d'') 2 2 = Inr out \<and> visible out = ''abcd''"
proof -
  have "spaced (2 + 1) (full_description (demo_help ''a bc d''))"
    unfolding spaced_def
  proof (intro allI impI)
    fix i assume "i + (2 + 1) < length (full_description (demo_help ''a bc d''))"
    then have "i \<le> 1 \<or> i = 2" by (auto simp: full_description_def demo_help_def)
    then show "\<exists>j\<ge>i. j \<le> i + (2 + 1) \<and> full_description (demo_help ''a bc d'') ! j = CHR '' ''"
      by (elim disjE; intro exI [of _ "if i \<le> 1 then 1 else 4"])
         (simp_all add: full_description_def demo_help_def)
  qed
  moreover have "CHR 0x0A \<notin> set (full_description (demo_help ''a bc d''))"
    by (simp add: full_description_def demo_help_def)
  ultimately show ?thesis
    using help_description_keeps_text [of 2 "demo_help ''a bc d''" 2]
    by (simp add: full_description_def demo_help_def visible_def)
qed

text \<open>Without these conditions: what is before a line break is lost, and a long word after a
  wrapped line makes the range to append run backwards.\<close>

lemma line_break_loses_text:
  "format_description (demo_help (''one'' @ [CHR 0x0A] @ ''two'')) 2 40 = Inr ''two''"
  by (simp add: format_description_def full_description_def demo_help_def append_range_def Let_def)

lemma long_word_after_wrap:
  "format_description (demo_help ''a bcdefgh'') 2 2 = Inl (Undefined Invalid_range)"
  by (simp add: format_description_def full_description_def demo_help_def append_range_def Let_def)

end
