(* ===== verification/InputProccesor.thy ===== *)
theory InputProccesor
  imports Options Client
begin

section \<open>From the command line to the client (InputProccesor, main)\<close>

text \<open>
  \<open>initClientFromInput\<close> declares seven options, parses, checks that each was given and
  constructs the client. \<open>main\<close> catches the exception for invalid input only; any other
  one leaves it. Its printing of the configuration is not modelled.
\<close>

subsection \<open>The options\<close>

record summary_option =
  opt_name :: string
  opt_description :: string
  opt_value :: abstract_value

definition SERVER_HOST :: string where "SERVER_HOST = ''server_host''"
definition FILE_NAME :: string where "FILE_NAME = ''file_name''"
definition WINDOW_SIZE :: string where "WINDOW_SIZE = ''window_size''"
definition PACKET_SIZE :: string where "PACKET_SIZE = ''packet_size''"
definition MAX_SEQ_NUMBER :: string where "MAX_SEQ_NUMBER = ''max_sequence_number''"
definition SERVER_PORT :: string where "SERVER_PORT = ''server_port''"
definition CLIENT_PORT :: string where "CLIENT_PORT = ''client_port''"

lemmas option_names = SERVER_HOST_def FILE_NAME_def WINDOW_SIZE_def PACKET_SIZE_def
  MAX_SEQ_NUMBER_def SERVER_PORT_def CLIENT_PORT_def

definition client_opts :: "summary_option list" where
  "client_opts =
     [\<lparr>opt_name = SERVER_HOST, opt_description = ''Server host ip address'', opt_value = standard_value String_type\<rparr>,
      \<lparr>opt_name = FILE_NAME, opt_description = ''File name to send'', opt_value = standard_value String_type\<rparr>,
      \<lparr>opt_name = WINDOW_SIZE, opt_description = ''Window size in packets number'', opt_value = standard_value (Int_type Int32)\<rparr>,
      \<lparr>opt_name = PACKET_SIZE, opt_description = ''Size of each packet'', opt_value = standard_value (Int_type Int32)\<rparr>,
      \<lparr>opt_name = MAX_SEQ_NUMBER, opt_description = ''Size of each packet'', opt_value = standard_value (Int_type Int32)\<rparr>,
      \<lparr>opt_name = SERVER_PORT, opt_description = ''Server port'', opt_value = standard_value (Int_type Int32)\<rparr>,
      \<lparr>opt_name = CLIENT_PORT, opt_description = ''Client port'', opt_value = standard_value (Int_type Int32)\<rparr>]"

fun declare_options :: "summary_option list \<Rightarrow> options \<Rightarrow> options res" where
  "declare_options [] s = Inr s"
| "declare_options (opt # opts) s =
     rbind (option_adder [] (opt_name opt) (opt_description opt) (opt_value opt) [] s)
       (declare_options opts)"

text \<open>The two constructors of \<open>InvalidClientInput\<close>: the message of the exception.\<close>

definition invalid_option :: "string \<Rightarrow> string \<Rightarrow> string \<Rightarrow> failure" where
  "invalid_option name description reason =
     Throws (Invalid_client_input
       (''Invalid Client Input'' @ [CHR 0x0A] @
        [CHR 0x09] @ ''Option '' @ [CHR 0x27] @ name @ [CHR 0x27] @ [CHR 0x0A] @
        [CHR 0x09] @ ''Description: '' @ [CHR 0x27] @ description @ [CHR 0x27] @ [CHR 0x0A] @
        [CHR 0x09] @ ''Reason: '' @ [CHR 0x27] @ reason @ [CHR 0x27] @ [CHR 0x0A]))"

definition type_error :: "string \<Rightarrow> failure" where
  "type_error text =
     Throws (Invalid_client_input
       (''Invalid Input: Type Error'' @ [CHR 0x0A] @ ''Reason: '' @
        option_what (Argument_incorrect_type text)))"

subsection \<open>initClientFromInput\<close>

definition catch_type_error :: "'a res \<Rightarrow> 'a res" where
  "catch_type_error x =
     (case x of
        Inl (Throws (Argument_incorrect_type text)) \<Rightarrow> Inl (type_error text)
      | _ \<Rightarrow> x)"

fun check_present :: "summary_option list \<Rightarrow> option_map \<Rightarrow> parse_state \<Rightarrow> unit res" where
  "check_present [] m st = Inr ()"
| "check_present (opt # opts) m st =
     rbind (result_of m st (opt_name opt)) (\<lambda>v.
     if ov_count v < 1
     then Inl (invalid_option (opt_name opt) (opt_description opt) ''Option is missing'')
     else check_present opts m st)"

text \<open>\<open>result_opt[name].as<std::string> ()\<close> and \<open>as<int> ()\<close>.\<close>

definition as_string :: "option_map \<Rightarrow> parse_state \<Rightarrow> string \<Rightarrow> string res" where
  "as_string m st name =
     rbind (result_of m st name) (\<lambda>v.
     rbind (as_type String_type v) (\<lambda>x.
     case x of Stored_string s \<Rightarrow> Inr s | _ \<Rightarrow> Inl (Throws Bad_cast)))"

definition as_int :: "option_map \<Rightarrow> parse_state \<Rightarrow> string \<Rightarrow> int res" where
  "as_int m st name =
     rbind (result_of m st name) (\<lambda>v.
     rbind (as_type (Int_type Int32) v) (\<lambda>x.
     case x of Stored_int i \<Rightarrow> Inr i | _ \<Rightarrow> Inl (Throws Bad_cast)))"

definition initClientFromInput :: "file_system \<Rightarrow> int \<Rightarrow> string list \<Rightarrow> client res" where
  "initClientFromInput fs clock args =
     rbind (declare_options client_opts
              (new_Options ''SecureOverUDPClient'' ''Secure Over UDP Client'')) (\<lambda>options.
     rbind (catch_type_error (options_parse options args)) (\<lambda>result_opt.
     let m = m_options options
     in rbind (check_present client_opts m result_opt) (\<lambda>_.
        rbind (as_string m result_opt SERVER_HOST) (\<lambda>host.
        rbind (as_string m result_opt FILE_NAME) (\<lambda>name.
        rbind (as_int m result_opt WINDOW_SIZE) (\<lambda>wsize.
        rbind (as_int m result_opt PACKET_SIZE) (\<lambda>psize.
        rbind (as_int m result_opt MAX_SEQ_NUMBER) (\<lambda>max_seq.
        rbind (as_int m result_opt SERVER_PORT) (\<lambda>sport.
        rbind (as_int m result_opt CLIENT_PORT) (\<lambda>cport.
        new_Client fs clock host name wsize psize max_seq sport cport))))))))))"

subsection \<open>main\<close>

text \<open>
  \<open>Started\<close> is the state after \<open>client->start ()\<close>, with both threads launched;
  \<open>Aborted\<close> an exception that leaves \<open>main\<close>, or undefined behaviour.
\<close>

datatype main_result =
    Exit int string
  | Started system
  | Aborted failure

definition client_main :: "file_system \<Rightarrow> int \<Rightarrow> string list \<Rightarrow> main_result" where
  "client_main fs clock args =
     (case initClientFromInput fs clock args of
        Inl (Throws (Invalid_client_input what)) \<Rightarrow> Exit 1 what
      | Inl e \<Rightarrow> Aborted e
      | Inr client \<Rightarrow>
          (case client_start (system_of client) of
             Inl e \<Rightarrow> Aborted e
           | Inr y \<Rightarrow> Started y))"

subsection \<open>The documented call\<close>

text \<open>The arguments of a configuration, in the form \<open>--name=value\<close> of the README.\<close>

definition assign_arg :: "string \<Rightarrow> string \<Rightarrow> string" where
  "assign_arg name val = ''--'' @ name @ ''='' @ val"

definition client_args :: "client_subject \<Rightarrow> string list" where
  "client_args subj =
     [assign_arg SERVER_HOST (getServer_host subj),
      assign_arg FILE_NAME (getFilename subj),
      assign_arg WINDOW_SIZE (to_string (getWindow_size subj)),
      assign_arg PACKET_SIZE (to_string (getPacket_size subj)),
      assign_arg MAX_SEQ_NUMBER (to_string (getMax_seq_number subj)),
      assign_arg SERVER_PORT (to_string (getServer_port subj)),
      assign_arg CLIENT_PORT (to_string (getClient_port subj))]"

definition one_line :: "string \<Rightarrow> bool" where
  "one_line s \<longleftrightarrow> list_all (\<lambda>c. c \<noteq> CHR 0x0A \<and> c \<noteq> CHR 0x0D) s"

definition long_name :: "string \<Rightarrow> bool" where
  "long_name name \<longleftrightarrow>
     2 \<le> length name \<and> is_alnum (hd name) \<and> list_all is_name_char name"

lemma option_names_long:
  "long_name SERVER_HOST" "long_name FILE_NAME" "long_name WINDOW_SIZE" "long_name PACKET_SIZE"
  "long_name MAX_SEQ_NUMBER" "long_name SERVER_PORT" "long_name CLIENT_PORT"
  by (simp_all add: long_name_def option_names is_name_char_def is_alnum_def is_digit_def)

lemma takeWhile_name:
  "list_all is_name_char name \<Longrightarrow> takeWhile is_name_char (name @ CHR ''='' # v) = name"
  "list_all is_name_char name \<Longrightarrow> dropWhile is_name_char (name @ CHR ''='' # v) = CHR ''='' # v"
proof -
  have eq: "\<not> is_name_char (CHR ''='')" by (simp add: is_name_char_def is_alnum_def is_digit_def)
  show "list_all is_name_char name \<Longrightarrow> takeWhile is_name_char (name @ CHR ''='' # v) = name"
    "list_all is_name_char name \<Longrightarrow> dropWhile is_name_char (name @ CHR ''='' # v) = CHR ''='' # v"
    by (induction name) (simp_all add: eq)
qed

lemma match_assign_arg:
  assumes "long_name name" and "one_line v"
  shows "match_option (assign_arg name v) = Long_option name (Some v)"
    and "assign_arg name v \<noteq> ''--''"
  using assms takeWhile_name [of name v]
  by (auto simp: match_option_def assign_arg_def match_long_def long_name_def one_line_def Let_def)

lemma parse_assign_arg:
  assumes "long_name name" and "one_line v" and "find_option m name = Some i"
    and "parse_option m i v st = Inr st'"
  shows "parse_loop m allow (assign_arg name v # rest) st = parse_loop m allow rest st'"
  using match_assign_arg [OF assms(1,2)] assms(3,4)
  by (simp add: parse_one_def parse_long_def)

lemma one_line_to_string: "0 \<le> i \<Longrightarrow> one_line (to_string i)"
  using nat_str_digits [of "nat i"]
  by (auto simp: one_line_def to_string_def list_all_iff is_digit_def)

text \<open>The configuration the client gets from its documented call is the one asked for.\<close>

definition printable :: "client_subject \<Rightarrow> bool" where
  "printable subj \<longleftrightarrow>
     one_line (getServer_host subj) \<and> one_line (getFilename subj) \<and>
     (\<forall>i \<in> {getWindow_size subj, getPacket_size subj, getMax_seq_number subj,
              getServer_port subj, getClient_port subj}. 0 \<le> i \<and> i \<le> INT_MAX)"

text \<open>The options the client declares: none has a default, a short name or a group.\<close>

definition client_map :: option_map where
  "client_map =
     \<lparr>names = zip (map opt_name client_opts) [0..<7],
      pointees = map (\<lambda>opt. new_OptionDetails [] (opt_name opt) (opt_description opt) (opt_value opt))
        client_opts\<rparr>"

lemma declared_options:
  "\<exists>s. declare_options client_opts (new_Options prog txt) = Inr s \<and>
     m_options s = client_map \<and> m_positional s = [] \<and> \<not> m_allow_unrecognised s"
  by (simp add: client_opts_def option_names option_adder_def match_specifier_def is_alnum_def
      is_digit_def is_name_char_def add_option_def add_one_option_def find_option_def
      new_Options_def client_map_def Let_def upt_rec)

text \<open>The value of an option that was given once.\<close>

definition given :: "value_type \<Rightarrow> stored \<Rightarrow> option_value" where
  "given ty x = \<lparr>ov_value = Some ((standard_value ty)\<lparr>m_store := x\<rparr>), ov_count = 1\<rparr>"

lemma as_type_given [simp]: "as_type ty (given ty x) = Inr x" "ov_count (given ty x) = 1"
  by (simp_all add: as_type_def given_def standard_value_def implicit_value_def default_value_def Let_def)

text \<open>One argument \<open>--name=value\<close> for an option not given before.\<close>

lemma parse_option_given:
  assumes "m_results st i = None" and "m_value (details m i) = standard_value ty"
    and "parse_value ty v (fresh_value ty) = Inr x" and "ty \<noteq> Bool_type"
  shows "parse_option m i v st =
    Inr (st\<lparr>m_results := (m_results st)(i \<mapsto> given ty x),
            m_sequential := m_sequential st @ [(m_long (details m i), v)]\<rparr>)"
  using assms
  by (simp add: parse_option_def result_at_def empty_value_def ov_parse_def ensure_value_def
      make_storage_def av_clone_def av_parse_def standard_value_def given_def)

lemma client_map_find:
  "find_option client_map SERVER_HOST = Some 0" "find_option client_map FILE_NAME = Some 1"
  "find_option client_map WINDOW_SIZE = Some 2" "find_option client_map PACKET_SIZE = Some 3"
  "find_option client_map MAX_SEQ_NUMBER = Some 4" "find_option client_map SERVER_PORT = Some 5"
  "find_option client_map CLIENT_PORT = Some 6"
  by (simp_all add: find_option_def client_map_def client_opts_def option_names upt_rec)

lemma client_map_value:
  "m_value (details client_map 0) = standard_value String_type"
  "m_value (details client_map (Suc 0)) = standard_value String_type"
  "m_value (details client_map 2) = standard_value (Int_type Int32)"
  "m_value (details client_map 3) = standard_value (Int_type Int32)"
  "m_value (details client_map 4) = standard_value (Int_type Int32)"
  "m_value (details client_map 5) = standard_value (Int_type Int32)"
  "m_value (details client_map 6) = standard_value (Int_type Int32)"
  by (simp_all add: details_def client_map_def client_opts_def new_OptionDetails_def)

lemma parse_value_types:
  "parse_value String_type s x = Inr (Stored_string s)"
  "0 \<le> i \<Longrightarrow> i \<le> INT_MAX \<Longrightarrow>
     parse_value (Int_type Int32) (to_string i) x = Inr (Stored_int i)"
  by (simp_all add: integer_parser_to_string)

definition client_results :: "client_subject \<Rightarrow> nat \<rightharpoonup> option_value" where
  "client_results subj =
     [0 \<mapsto> given String_type (Stored_string (getServer_host subj)),
      1 \<mapsto> given String_type (Stored_string (getFilename subj)),
      2 \<mapsto> given (Int_type Int32) (Stored_int (getWindow_size subj)),
      3 \<mapsto> given (Int_type Int32) (Stored_int (getPacket_size subj)),
      4 \<mapsto> given (Int_type Int32) (Stored_int (getMax_seq_number subj)),
      5 \<mapsto> given (Int_type Int32) (Stored_int (getServer_port subj)),
      6 \<mapsto> given (Int_type Int32) (Stored_int (getClient_port subj))]"

lemma parse_loop_client:
  assumes "printable subj"
  shows "\<exists>st. parse_loop client_map False (client_args subj) (new_parse_state []) = Inr (None, st) \<and>
    m_results st = client_results subj"
proof -
  have lines: "one_line (getServer_host subj)" "one_line (getFilename subj)"
    and ints: "0 \<le> getWindow_size subj" "getWindow_size subj \<le> INT_MAX"
      "0 \<le> getPacket_size subj" "getPacket_size subj \<le> INT_MAX"
      "0 \<le> getMax_seq_number subj" "getMax_seq_number subj \<le> INT_MAX"
      "0 \<le> getServer_port subj" "getServer_port subj \<le> INT_MAX"
      "0 \<le> getClient_port subj" "getClient_port subj \<le> INT_MAX"
    using assms by (auto simp: printable_def)
  show ?thesis
    unfolding client_args_def
    using lines ints
    by (simp add: parse_assign_arg option_names_long client_map_find client_map_value
        parse_option_given parse_value_types one_line_to_string new_parse_state_def
        client_results_def del: parse_loop.simps(2) parse_value.simps)
qed

text \<open>Without defaults, the last loop of \<open>parse\<close> changes nothing that was given.\<close>

lemma parse_defaults_none:
  assumes "\<forall>(name, i) \<in> set opts. \<not> m_default (m_value (details m i)) \<and> m_results st i \<noteq> None"
  shows "parse_defaults m opts st = Inr st"
  using assms
proof (induction opts)
  case (Cons p opts)
  obtain name i v where p: "p = (name, i)" "m_results st i = Some v" "\<not> m_default (m_value (details m i))"
    using Cons.prems by (cases p) auto
  have "(m_results st)(i \<mapsto> result_at st i) = m_results st"
    using p(2) by (auto simp: result_at_def fun_eq_iff)
  then show ?case using Cons p by simp
qed simp

lemma parse_client_args:
  assumes "printable subj"
  shows "\<exists>st. parse_args client_map [] False (client_args subj) = Inr st \<and>
    m_results st = client_results subj"
proof -
  obtain st where st: "parse_loop client_map False (client_args subj) (new_parse_state []) = Inr (None, st)"
    "m_results st = client_results subj"
    using parse_loop_client [OF assms] by blast
  have "\<not> m_default (m_value (details client_map i)) \<and> m_results st i \<noteq> None"
    if "(name, i) \<in> set (names client_map)" for name i
    using that st(2)
    by (auto simp: client_map_def client_opts_def upt_rec details_def new_OptionDetails_def
        standard_value_def client_results_def)
  then have "parse_defaults client_map (names client_map) st = Inr st"
    by (intro parse_defaults_none) auto
  then show ?thesis using st by (simp add: parse_args_def)
qed

end
