(* ===== verification/Spec2Isabelle.thy ===== *)
theory Spec2Isabelle
  imports Network MD5_Reference SHA_Reference Waits TimerRaces Wakeups SocketStop InputProccesor
begin

text \<open>
  \<^bold>\<open>A Go-back-N file sender over UDP.\<close> The program (\<open>src/src\<close>) reads a file, cuts it in
  packets and sends each as a datagram \<open>number @ MD5 @ data\<close>; a receiver, not part of the
  repository, answers with datagrams \<open>number @ MD5\<close>, each of which acknowledges all
  packets up to its number. The packets in flight are kept in a ring of
  \<open>10 ^ max_sequence_number\<close> slots; a timer resends them when no acknowledgement comes.

  \<^bold>\<open>Theories and code.\<close>
  \<^item> \<open>Prelude\<close>: results (\<open>failure + 'a\<close>: an exception, or undefined behaviour by its
    cause), checked \<open>int\<close> arithmetic, \<open>substr\<close>, \<open>to_string\<close>, \<open>istream >> int\<close>,
    \<open>memcpy\<close>, and the pieces of a list. \<open>Transition\<close>: reachability, runs, and the
    locales \<open>invariant_system\<close> and \<open>progress_system\<close> every state machine below
    interprets.
  \<^item> \<open>HashBuffer\<close> (\<open>lib/digestpp-master/detail\<close>): words in memory, the buffer between
    \<open>update\<close> and the block transformation, the padding; locale \<open>block_hash\<close>, which every
    provider here interprets, with the theorem that a message cut into any pieces is hashed
    as a whole. \<open>Hasher\<close> (\<open>hasher.hpp\<close>): the ways to absorb, and the hexadecimal digest.
    \<open>HashWords\<close>: byte swaps and rotations against big-endian words.
  \<^item> \<open>Digest\<close> (\<open>md5_provider.hpp\<close>): MD5 as the code computes it, and the digest of a packet;
    locale \<open>digest\<close>. \<open>MD5_Reference\<close>: the algorithm of RFC 1321, and that they agree on
    every input. \<open>SHA\<close> (\<open>sha1_provider.hpp\<close>, \<open>sha2_provider.hpp\<close>) and \<open>SHA_Reference\<close>: the
    same for the digests of FIPS 180-4 in the library. \<open>SHA_Constants\<close>: their tables from
    the roots of primes.
  \<^item> \<open>Packet\<close> (\<open>Packet.h\<close>), \<open>DataProcessor\<close> (\<open>DataProcessor.cpp\<close>, locale
    \<open>chunk_source\<close>), \<open>Timer\<close> (\<open>Timer.h\<close>; the thread of a timer is a program counter
    and a deadline), \<open>ClientSubject\<close> (the getters the two halves read).
  \<^item> \<open>ClientSender\<close> (\<open>ClientSender.cpp\<close>): the members of the class as a record, the
    methods as functions on it. \<open>GoBackN\<close>: abstract Go-back-N on the numbers \<open>A\<close> of
    acknowledged and \<open>S\<close> of sent packets, the relation \<open>sender_rel\<close> between them and the
    sender's state, and that every method keeps it. \<open>Splitting\<close>: chunks and packets
    together are the file.
  \<^item> \<open>ClientReceiver\<close> (\<open>ClientReceiver.cpp\<close>): the receiving thread, for any subject
    (locale \<open>ack_sink\<close>). \<open>Client\<close> (\<open>Client.cpp\<close>): the class and the interleaving of all
    threads, \<open>client_step\<close>. \<open>ClientSystem\<close>: the invariant of the whole client, and that
    it can always finish. \<open>Waits\<close>: the same with condition variables in the place of
    guards, and a wake-up that is lost. \<open>Preemption\<close>: \<open>sendPacketReliable\<close>,
    \<open>ackedPacket\<close> and \<open>timeoutHandler\<close> in parts, their interleaving \<open>preempted_step\<close> and what
    it keeps; \<open>PreemptedRuns\<close>: the invariant of its runs, and that \<open>client_step\<close> is its case with no
    preemption; \<open>TimerRaces\<close>: two runs in which the timer is missing. \<open>Network\<close>: the client, two lossy channels and a Go-back-N
    receiver.
  \<^item> \<open>OptionValues\<close>, \<open>CommandLine\<close> and \<open>Options\<close> (\<open>lib/cxxopts\<close>): typed values with
    defaults and implicit values, the parser with positional parameters, the declaration of
    options and the help text. \<open>InputProccesor\<close> (\<open>InputProccesor.cpp\<close>, \<open>main.cpp\<close>): from the
    arguments to the running client.
  \<^item> \<open>SocketOps\<close> (\<open>lib/asio\<close>, \<open>socket_ops.ipp\<close>): the calls of the program's sockets down to the
    operating system, whose answers are a parameter; locales \<open>retry_loop\<close> and
    \<open>retry_syscall\<close> for the calls that wait.
  \<^item> \<open>OpQueue\<close> (\<open>op_queue.hpp\<close>): the queues of operations on a store of pointers, and that
    they are lists (locale \<open>queue_interface\<close>). \<open>Scheduler\<close> (\<open>scheduler.ipp\<close>,
    \<open>posix_event.hpp\<close>, \<open>reactive_socket_*_op.hpp\<close>): one attempt at an operation, the state of
    an \<open>io_context\<close>, waking, posting and counting. \<open>Reactor\<close> (\<open>epoll_reactor.ipp\<close>):
    descriptors, their operations and events. \<open>EventLoop\<close>: the threads in \<open>run\<close> and
    \<open>run_one\<close> and what the program does to the context, as the step relation \<open>loop_step\<close>.
    \<open>WorkCount\<close>: the account of started, queued and completed operations against the count
    of work. \<open>Wakeups\<close>: that a sleeping thread is not forgotten.
  \<^item> \<open>SocketService\<close> (\<open>reactive_socket_service.hpp\<close> and its base, \<open>basic_socket.hpp\<close>,
    \<open>basic_datagram_socket.hpp\<close>): a socket object and its calls. \<open>SocketTrace\<close>: what calls of
    the system open and close, and which calls do neither. \<open>SocketLedger\<close>: programs of calls on
    many sockets, and their account of descriptors. \<open>SocketStop\<close>: that they do not see
    whether the context is stopped.

  \<^bold>\<open>State and steps.\<close> A unique pointer to a timer is an index into the list \<open>timers\<close>, the
  datagrams given to the socket are the list \<open>wire\<close>, the clock is \<open>now\<close>. A method runs as
  one step; \<open>sendChunk\<close> is split at its two waits, whose predicates are guards. (\<open>Waits\<close> and
  \<open>Preemption\<close> refine this.) Every
  operation whose \<open>int\<close> arithmetic can overflow, whose index can be out of range or whose
  pointer can be null has that case as a result, and the invariants show which never happen.
  \<open>sendChunk\<close> has no \<open>return\<close> at its end: the value the caller sees is the parameter
  \<open>ret\<close> of \<open>client_step\<close>. The theorems on complete transfers take \<open>Some True\<close>, with
  which the compiled program sends more than one chunk; \<open>client_never_fails\<close> holds for
  both truth values.

  \<^bold>\<open>What is shown.\<close> C1 to C5: the transfer as a whole (safety with a peer, no crash,
  refinement, possible completion, the meaning of completion). C6 to C8: the same
  with condition variables. C9 to C11: the same with preemption inside the methods. C12 to C18:
  the sender's methods, with their behaviour on acknowledgements that a correct peer over an ordered
  network does not send. C19 to C23: the packet format, the receiver's treatment of
  arbitrary datagrams, MD5, reading and splitting. C24 and C25: timers. C26 to C30: the
  command line. C31 and C32: option values have the declared type, and the help text keeps
  the words of a description. C33: the SHA family and its constants. C34: sending and
  receiving on a socket. C35 to C38: asio's event loop completes what was started and loses no
  wake-up with \<open>run\<close>, but does with \<open>run_one\<close>; its queues are lists. C39: no socket loses or
  doubles a descriptor. C40: stopping the receiver does not reach its blocking call.

  \<^bold>\<open>Bounds.\<close> \<open>good_subject\<close> asks for 1 to 9 digits, a window smaller than the ring, a
  positive packet size and sizes whose sums are \<open>int\<close>s; \<open>readable\<close> for a file shorter than
  2 GiB. The clock runs up to \<open>t0 + INT_MAX\<close> milliseconds, some 24 days, as a sampled
  round-trip time has to be an \<open>int\<close>. \<open>resend_loop\<close> may fail to end for states that are
  not reachable and is a partial function; \<open>timeout_resends_window\<close> shows that it
  returns. The reading loop \<open>drain\<close> takes fuel; more than the length of the file is enough.

  \<^bold>\<open>Not modelled.\<close> Of asio the timer queues, the resolver, strands, buffers, and the class
  templates other than those of sockets, and of the scheduler \<open>poll\<close>, \<open>wait_one\<close> and its own
  thread; the system below the sockets; what is printed; preemption inside
  methods other than \<open>sendPacketReliable\<close>, \<open>ackedPacket\<close> and \<open>timeoutHandler\<close>, and between the
  accesses one part of these makes; joining threads in destructors (but see \<open>timer_can_finish\<close>); of cxxopts the
  floating-point values and the ICU variant; of digestpp the algorithms other than MD5,
  SHA-1 and SHA-2.
\<close>

section \<open>A small configuration\<close>

text \<open>Ten sequence numbers, a window of four, packets of one byte and a file of three.\<close>

definition demo_subject :: client_subject where
  "demo_subject =
     \<lparr>getWindow_size = 4, getPacket_size = 1, getMax_seq_number = 1, getServer_port = 8989,
      getServer_host = ''host'', getClient_port = 9090, getFilename = ''file''\<rparr>"

definition demo_files :: file_system where
  "demo_files = [''file'' \<mapsto> ''abc'']"

definition demo_packets :: "string list" where
  "demo_packets = [''a'', ''b'', ''c'']"

lemma demo_good: "good_subject demo_subject" "readable demo_files demo_subject ''abc''"
  by (simp_all add: good_subject_def demo_subject_def readable_def demo_files_def INT_MAX_def)

lemma demo_file_packets: "file_packets (getPacket_size demo_subject) ''abc'' = demo_packets"
  by (simp add: file_packets_def demo_subject_def demo_packets_def chunks.simps CHUNK_SIZE_def)

lemma demo_initial: "\<exists>x. initial demo_files 0 demo_subject x"
  by (simp add: initial_def)

lemma demo_system:
  "\<exists>y. initial demo_files 0 demo_subject (Inr y) \<and> configured demo_subject y \<and>
     sender_at y = Not_started \<and> system_rel ret 0 demo_packets 0 0 0 y"
  using initial_rel [OF demo_good] demo_initial demo_file_packets by metis

text \<open>The first packets of the file sent, none acknowledged.\<close>

lemma demo_sent:
  "n \<le> 3 \<Longrightarrow> \<exists>s. sender_rel 0 demo_packets 0 0 n s \<and> \<not> finished_sending_data s \<and>
     window_size s = 4 \<and> max_seq_number s = 1"
proof (induction n)
  case 0
  obtain y where "configured demo_subject y" "sender_at y = Not_started"
    "system_rel (Some True) 0 demo_packets 0 0 0 y" using demo_system by blast
  then show ?case by (auto simp: system_rel_def configured_def demo_subject_def)
next
  case (Suc n)
  then obtain s where s: "sender_rel 0 demo_packets 0 0 n s" "\<not> finished_sending_data s"
    "window_size s = 4" "max_seq_number s = 1" by auto
  moreover have "n < length demo_packets" using Suc.prems by (simp add: demo_packets_def)
  ultimately obtain s' where "sender_rel 0 demo_packets 0 0 (Suc n) s'" "conf s' = conf s"
    using sendPacketReliable_rel [OF s(1)] Suc.prems by auto
  then show ?case using s by (auto simp: conf_def)
qed

lemma demo_ring: "sender_rel t0 P C A S s \<Longrightarrow> max_seq_number s = 1 \<Longrightarrow> ring_size s = 10"
  using cfg_ring(3) [of s] by (simp add: sender_rel_def digits_def)

section \<open>The protocol\<close>












text \<open>
  C7. A wake-up that is lost. \<open>ackedPacket\<close> does not hold the mutexes of the waits. For every
  configuration and every file that is not empty there is a run in which the last acknowledgement
  of a chunk comes between the sender's test and the moment it blocks; then its condition holds,
  but it sleeps for ever, whatever the threads and the network do (unless a wait ends
  spuriously).
\<close>

theorem lost_wakeup_blocks_the_sender:
  assumes "good_subject subj" and "readable fs subj contents" and "contents \<noteq> []"
    and "waiting_initial fs t0 subj x"
  shows "\<exists>y. run (waiting_step True False (Some b) ordered_net (t0 + INT_MAX)) x (Inr (y, Asleep)) \<and>
    wait_over y = Inr True \<and>
    (\<forall>d. run (waiting_step True False (Some b) ordered_net (t0 + INT_MAX)) (Inr (y, Asleep)) d \<longrightarrow>
       (\<exists>z. d = Inr (z, Asleep) \<and> sender_at z = sender_at y))"
proof -
  let ?P = "file_packets (getPacket_size subj) contents"
  let ?step = "client_step (Some b) ordered_net (t0 + INT_MAX)"
  obtain y0 where y0: "x = Inr (y0, Awake)" "sender_at y0 = Not_started" "system_rel (Some b) t0 ?P 0 0 0 y0"
    using initial_rel [OF assms(1,2), of t0 _ "Some b"] assms(4) by (fastforce simp: waiting_initial_def)
  have "?P \<noteq> []" using assms(1,3) by (auto simp: file_packets_def good_subject_def CHUNK_SIZE_def dest: arg_cong [of _ _ concat])
  then obtain y1 ds q where y1: "run ?step (Inr y0) (Inr y1)" "system_rel (Some b) t0 ?P 0 0 0 y1"
    "sender_at y1 = Sending ds q" "ds \<noteq> []" using start_run [OF y0(3,2)] by blast
  then obtain y2 A S where y2: "run ?step (Inr y1) (Inr y2)" "system_rel (Some b) t0 ?P 0 A S y2"
    "sender_at y2 = Wait_acks q" "A < S" using sending_run [OF y1(2,3)] by blast
  obtain y where y: "run (waiting_step True False (Some b) ordered_net (t0 + INT_MAX)) (Inr (y2, Awake)) (Inr (y, Asleep))"
    "system_rel (Some b) t0 ?P 0 S S y" "sender_at y = Wait_acks q" using race_run [OF y2(2-4)] by blast
  have "run (waiting_step True False (Some b) ordered_net (t0 + INT_MAX)) x (Inr (y2, Awake))"
    using awake_run [OF run_trans [OF y1(1) y2(1)], of True False] y0(1) by simp
  then have "run (waiting_step True False (Some b) ordered_net (t0 + INT_MAX)) x (Inr (y, Asleep))"
    using y(1) by (rule run_trans)
  moreover have "wait_over y = Inr True" using wait_over_rel [OF y(2)] y(3) by simp
  ultimately show ?thesis using asleep_run [OF _ refl y(2)] by blast
qed

lemma demo_waiting: "\<exists>y. waiting_initial demo_files 0 demo_subject (Inr (y, Awake))"
  using demo_system by (fastforce simp: waiting_initial_def)

lemma lost_wakeup_blocks_the_sender_witness:
  "\<exists>x y. waiting_initial demo_files 0 demo_subject x \<and>
     run (waiting_step True False (Some True) ordered_net (0 + INT_MAX)) x (Inr (y, Asleep)) \<and> wait_over y = Inr True"
proof -
  obtain y where y: "waiting_initial demo_files 0 demo_subject (Inr (y, Awake))" using demo_waiting by blast
  have "''abc'' \<noteq> []" by simp
  from lost_wakeup_blocks_the_sender [OF demo_good this y, of True] y show ?thesis by blast
qed




lemma demo_preempted: "\<exists>y. preempted_initial demo_files 0 demo_subject (at_rest (Inr y))"
  using demo_system by (fastforce simp: preempted_initial_def)


text \<open>
  C10. An acknowledgement that is too fast. For every configuration and every file that is not
  empty there is a run in which the first packet's acknowledgement moves the base before the sender
  compares the indices, so that no timer is started, and compares them itself after the packet
  is counted: it stops a timer that does not exist.
\<close>

theorem early_acknowledgement_crashes:
  assumes "good_subject subj" and "readable fs subj contents" and "contents \<noteq> []"
    and "preempted_initial fs t0 subj x"
  shows "run (preempted_step (Some b) ordered_net (t0 + INT_MAX)) x (Inl (Undefined Null_dereference))"
proof -
  let ?step = "preempted_step (Some b) ordered_net (t0 + INT_MAX)"
  obtain y q where y: "run ?step x (at_rest (Inr y))"
    "system_rel (Some b) t0 (file_packets (getPacket_size subj) contents) 0 0 0 y" "timeoutTimer (clientSender y) = None"
    "sender_at y = Sending (chunks (nat (getPacket_size subj)) (take (nat CHUNK_SIZE) contents)) q"
    using first_chunk_run [OF assms] by blast
  obtain d ds where "chunks (nat (getPacket_size subj)) (take (nat CHUNK_SIZE) contents) = d # ds"
    using assms(1,3) by (cases "chunks (nat (getPacket_size subj)) (take (nat CHUNK_SIZE) contents)")
      (auto simp: good_subject_def CHUNK_SIZE_def)
  then have "run (thread_step False (Some b) ordered_net (t0 + INT_MAX)) (Inr (y, Not_sending, No_ack))
      (Inl (Undefined Null_dereference))" using null_timer_run [OF y(2) _ y(3)] y(4) by simp
  from thread_run [OF this] have "run ?step (at_rest (Inr y)) (Inl (Undefined Null_dereference))"
    by (simp add: at_rest_def)
  then show ?thesis by (rule run_trans [OF y(1)])
qed

lemma early_acknowledgement_crashes_witness:
  "\<exists>x. preempted_initial demo_files 0 demo_subject x \<and>
     run (preempted_step (Some True) ordered_net (0 + INT_MAX)) x (Inl (Undefined Null_dereference))"
proof -
  obtain y where y: "preempted_initial demo_files 0 demo_subject (at_rest (Inr y))"
    using demo_preempted by blast
  show ?thesis
    by (intro exI [of _ "at_rest (Inr y)"] conjI y early_acknowledgement_crashes [OF demo_good _ y]) simp
qed

text \<open>
  C11. A timer that is stopped too late. When the first chunk has two packets, there is a run in
  which the second is sent between the comparison and the \<open>stop\<close> of the first one's acknowledgement,
  so that its timer is stopped. If the packet is then lost, nothing is left to send it again: as long
  as nothing arrives, no timer calls its handler and the sender's thread does not end.
\<close>

theorem late_comparison_loses_the_timer:
  assumes "good_subject subj" and "readable fs subj contents" and "getPacket_size subj < CHUNK_SIZE"
    and "getPacket_size subj < int (length contents)" and "preempted_initial fs t0 subj x"
  shows "\<exists>y. run (preempted_step (Some b) ordered_net (t0 + INT_MAX)) x (at_rest (Inr y)) \<and>
    unacked (clientSender y) = 1 \<and>
    (\<forall>r. run (preempted_step (Some b) no_arrivals (t0 + INT_MAX)) (at_rest (Inr y)) r \<longrightarrow>
       (\<exists>z m. r = Inr (z, m, No_ack, No_handler) \<and> sender_at z \<noteq> Done \<and>
          (\<forall>t \<in> set (timers (clientSender z)). thread t \<noteq> Firing)))"
proof -
  let ?step = "preempted_step (Some b) ordered_net (t0 + INT_MAX)" and ?P = "file_packets (getPacket_size subj) contents"
  let ?n = "nat (getPacket_size subj)" and ?c = "take (nat CHUNK_SIZE) contents"
  have n: "0 < ?n" "contents \<noteq> []" using assms(1,4) by (auto simp: good_subject_def)
  obtain y q where y: "run ?step x (at_rest (Inr y))" "system_rel (Some b) t0 ?P 0 0 0 y"
    "timers (clientSender y) = []" "timeoutTimer (clientSender y) = None" "sender_at y = Sending (chunks ?n ?c) q"
    using first_chunk_run [OF assms(1,2) n(2) assms(5)] by blast
  have "?n < length ?c" using assms(3,4) n(1) by (simp add: min_def CHUNK_SIZE_def nat_less_iff)
  then have "?c \<noteq> []" "drop ?n ?c \<noteq> []" by auto
  then obtain d e ds where "chunks ?n ?c = d # e # ds" using n(1) by (simp add: chunks_step del: take_eq_Nil)
  then have pc: "sender_at y = Sending (d # e # ds) q" using y(5) by simp
  obtain s' where s': "run (thread_step False (Some b) ordered_net (t0 + INT_MAX)) (Inr (y, Not_sending, No_ack))
      (Inr (y\<lparr>sender_at := Sending ds q, clientSender := s'\<rparr>, Not_sending, No_ack))" (is "run _ _ (Inr (?z, _, _))")
    "sender_rel t0 ?P 0 1 2 s'" "\<forall>t \<in> set (timers s'). quiet_timer t"
    using lost_timer_run [OF y(2) pc y(3,4)] by blast
  have "run ?step (at_rest (Inr y)) (at_rest (Inr ?z))"
    using thread_run [OF s'(1)] by (simp add: at_rest_def)
  then have reach: "run ?step x (at_rest (Inr ?z))" by (rule run_trans [OF y(1)])
  have "preempted_inv (Some b) t0 subj contents (at_rest (Inr ?z))"
    using preempted_sys.inv_run [OF reach] preempted_inv_init [OF assms(1,2,5)] by blast
  then have "stuck_client (Some b) t0 ?P ?z Not_sending" using lost_is_stuck [of "Some b" t0 ?P] s'(2,3)
    by (auto simp: preempted_inv_def at_rest_def)
  then have "\<exists>z m. r = Inr (z, m, No_ack, No_handler) \<and> stuck_client (Some b) t0 ?P z m"
    if "run (preempted_step (Some b) no_arrivals (t0 + INT_MAX)) (at_rest (Inr ?z)) r" for r
    using stuck_run [OF that] by (simp add: at_rest_def)
  moreover have "unacked s' = 1" using unacked_eq [OF s'(2)] by simp
  ultimately show ?thesis using reach stuck_client_view by (intro exI [of _ ?z]) fastforce
qed

lemma late_comparison_loses_the_timer_witness:
  "\<exists>x y. preempted_initial demo_files 0 demo_subject x \<and>
     run (preempted_step (Some True) ordered_net (0 + INT_MAX)) x (at_rest (Inr y)) \<and>
     unacked (clientSender y) = 1"
proof -
  obtain y where y: "preempted_initial demo_files 0 demo_subject (at_rest (Inr y))"
    using demo_preempted by blast
  have "getPacket_size demo_subject < CHUNK_SIZE" "getPacket_size demo_subject < int (length ''abc'')"
    by (simp_all add: demo_subject_def CHUNK_SIZE_def)
  from late_comparison_loses_the_timer [OF demo_good this y, of True] y show ?thesis by blast
qed

section \<open>The sender\<close>



text \<open>
  C13. \<open>sendPacketReliable\<close>, once its wait is over, gives exactly one datagram to the
  socket, the next packet's, and accounts for it.
\<close>

theorem send_accounts_for_packet:
  assumes "sender_rel t0 P C A S s" and "canAdvance s = Inr True" and "S < length P"
  shows "\<exists>s'. sendPacketReliable (P ! S) s = Inr s' \<and> sender_rel t0 P C A (Suc S) s' \<and>
    wire s' = wire s @ [datagram (digits s) (int (S mod ring_size s)) (P ! S)] \<and>
    unacked s' = Suc (unacked s)"
proof -
  have "S < A + nat (window_size s)" using canAdvance_window [OF assms(1)] assms(2) by simp
  then obtain s' where s': "sendPacketReliable (P ! S) s = Inr s'" "sender_rel t0 P C A (Suc S) s'"
    "wire s' = wire s @ [packet_datagram s P S]"
    using sendPacketReliable_rel [OF assms(1) _ assms(3)] by blast
  moreover have "A \<le> S" using assms(1) by (simp add: sender_rel_def counters_rel_def)
  ultimately show ?thesis
    using unacked_eq [OF assms(1)] unacked_eq [OF s'(2)] by (auto simp: packet_datagram_def)
qed

lemma send_accounts_for_packet_witness:
  "\<exists>s s'. sendPacketReliable ''b'' s = Inr s' \<and> sender_rel 0 demo_packets 0 0 2 s' \<and>
     wire s' = wire s @ [datagram 1 1 ''b''] \<and> unacked s' = Suc (unacked s)"
proof -
  obtain s where s: "sender_rel 0 demo_packets 0 0 1 s" "window_size s = 4" "max_seq_number s = 1"
    using demo_sent [of 1] by auto
  have "canAdvance s = Inr True" using canAdvance_window [OF s(1)] s(2) by simp
  from send_accounts_for_packet [OF s(1) this] show ?thesis
    using demo_ring [OF s(1,3)] s(3) by (auto simp: demo_packets_def digits_def numeral_2_eq_2)
qed

text \<open>
  C14. A timeout resends exactly the packets in flight, oldest first, each with the bytes
  it was first sent with, and the loop ends.
\<close>

theorem timeout_resends_window:
  assumes "sender_rel t0 P C A S s" and "\<not> finished_sending_data s"
  shows "\<exists>s'. timeoutHandler s = Some (Inr s') \<and> sender_rel t0 P C A S s' \<and>
    wire s' = wire s @ map (\<lambda>i. datagram (digits s) (int (i mod ring_size s)) (P ! i)) [A..<S]"
proof -
  have "packet_datagram s P = (\<lambda>i. datagram (digits s) (int (i mod ring_size s)) (P ! i))"
    by (simp add: packet_datagram_def fun_eq_iff)
  then show ?thesis using timeoutHandler_rel [OF assms] by metis
qed

lemma timeout_resends_window_witness:
  "\<exists>s s'. timeoutHandler s = Some (Inr s') \<and>
     wire s' = wire s @ [datagram 1 0 ''a'', datagram 1 1 ''b'']"
proof -
  obtain s where s: "sender_rel 0 demo_packets 0 0 2 s" "\<not> finished_sending_data s"
    "max_seq_number s = 1" using demo_sent [of 2] by auto
  have "[0..<2] = [0, 1 :: nat]" by (simp add: upt_rec)
  then show ?thesis
    using timeout_resends_window [OF s(1,2)] demo_ring [OF s(1,3)] s(3)
    by (auto simp: demo_packets_def digits_def)
qed

text \<open>
  C15. An acknowledgement of a packet in flight acknowledges all packets up to it, sends
  nothing, and adds their number to the count the end of the chunk waits for.
\<close>

theorem acknowledgement_is_cumulative:
  assumes "sender_rel t0 P C A S s" and "\<not> finished_sending_data s" and "A \<le> j" and "j < S"
  shows "\<exists>s'. ackedPacket (int (j mod ring_size s)) s = Inr s' \<and>
    sender_rel t0 P C (Suc j) S s' \<and> wire s' = wire s \<and>
    acked_count s' = acked_count s + int (Suc j - A)"
proof -
  obtain s' where s': "ackedPacket (int (j mod ring_size s)) s = Inr s'"
    "sender_rel t0 P C (Suc j) S s'" "wire s' = wire s"
    using ackedPacket_rel [OF assms] by blast
  moreover have "acked_count s = int A - int C" "acked_count s' = int (Suc j) - int C"
    using assms(1) s'(2) by (simp_all add: sender_rel_def counters_rel_def)
  ultimately show ?thesis using assms(3) by (auto simp: of_nat_diff)
qed

lemma acknowledgement_is_cumulative_witness:
  "\<exists>s s'. ackedPacket 2 s = Inr s' \<and> sender_rel 0 demo_packets 0 3 3 s' \<and>
     wire s' = wire s \<and> acked_count s' = acked_count s + 3"
proof -
  obtain s where s: "sender_rel 0 demo_packets 0 0 3 s" "\<not> finished_sending_data s"
    "max_seq_number s = 1" using demo_sent [of 3] by auto
  from acknowledgement_is_cumulative [OF s(1,2), of 2] show ?thesis
    using demo_ring [OF s(1,3)] by (auto simp: numeral_3_eq_3 numeral_2_eq_2)
qed


lemma demo_acked:
  "\<exists>s. sender_rel 0 demo_packets 0 3 3 s \<and> \<not> finished_sending_data s \<and> max_seq_number s = 1 \<and>
     (\<exists>p. window_map s ! 0 = Some p \<and> \<not> acked p)"
proof -
  obtain s where s: "sender_rel 0 demo_packets 0 0 3 s" "\<not> finished_sending_data s"
    "max_seq_number s = 1" using demo_sent [of 3] by auto
  have N: "ring_size s = 10" using demo_ring [OF s(1,3)] .
  obtain s' q where s': "sender_rel 0 demo_packets 0 (Suc 2) 3 s'" "conf s' = conf s"
    "window_map s' = (window_map s)[2 := Some q]"
    using ackedPacket_rel [OF s(1,2), of 2] N by auto
  obtain p where "window_map s ! 0 = Some p" "\<not> acked p"
    using s(1) N by (auto simp: sender_rel_def window_rel_def dest: spec [of _ 0])
  then show ?thesis
    using s' s by (intro exI [of _ s']) (auto simp: conf_def numeral_3_eq_3 numeral_2_eq_2)
qed




text \<open>A number no packet was ever sent with.\<close>

lemma unknown_acknowledgement_crashes:
  assumes "\<not> finished_sending_data s" and "0 \<le> k" and "k < int (length (window_map s))"
    and "window_map s ! nat k = None"
  shows "ackedPacket k s = Inl (Undefined Null_dereference)"
proof -
  have "window_map (cleanTimers s) = window_map s" by (simp add: cleanTimers_def)
  then show ?thesis using assms by (simp add: ackedPacket_def Let_def window_get_def)
qed

text \<open>
  C17. Two acknowledgements that are not handled: one, overtaken, of a packet that was
  only acknowledged through a later one moves the base back behind it and adds almost a
  whole ring to the count of acknowledged packets; and one with a number no packet was ever
  sent with dereferences a null pointer.
\<close>

theorem unexpected_acknowledgements:
  assumes "sender_rel t0 P C A S s" and "\<not> finished_sending_data s"
  shows "(Suc j < A \<and> A \<le> j + ring_size s \<and> window_map s ! (j mod ring_size s) = Some p \<and> \<not> acked p \<and>
      acked_count s + int (ring_size s) \<le> INT_MAX \<longrightarrow>
      (\<exists>s'. ackedPacket (int (j mod ring_size s)) s = Inr s' \<and> base_idx s' = int (Suc j mod ring_size s) \<and>
         acked_count s' = acked_count s + (int (ring_size s) - int (A - Suc j)))) \<and>
    (0 \<le> k \<and> k < int (length (window_map s)) \<and> window_map s ! nat k = None \<longrightarrow>
      ackedPacket k s = Inl (Undefined Null_dereference))"
  using ackedPacket_stale [OF assms, of j p] unknown_acknowledgement_crashes [OF assms(2), of k] by blast

lemma unexpected_acknowledgements_witness:
  "\<exists>s s'. sender_rel 0 demo_packets 0 3 3 s \<and> base_idx s = 3 \<and> acked_count s = 3 \<and>
     ackedPacket 0 s = Inr s' \<and> base_idx s' = 1 \<and> acked_count s' = 11"
proof -
  obtain s p where s: "sender_rel 0 demo_packets 0 3 3 s" "\<not> finished_sending_data s"
    "max_seq_number s = 1" "window_map s ! 0 = Some p" "\<not> acked p" using demo_acked by blast
  have N: "ring_size s = 10" using demo_ring [OF s(1,3)] .
  have c: "base_idx s = 3" "acked_count s = 3"
    using s(1) N by (simp_all add: sender_rel_def counters_rel_def)
  have "\<exists>s'. ackedPacket (int (0 mod ring_size s)) s = Inr s' \<and>
    base_idx s' = int (Suc 0 mod ring_size s) \<and>
    acked_count s' = acked_count s + (int (ring_size s) - int (3 - Suc 0))"
    by (rule unexpected_acknowledgements [OF s(1,2), THEN conjunct1, THEN mp, of 0 p])
       (use s N c in \<open>simp_all add: INT_MAX_def\<close>)
  then obtain s' where "ackedPacket 0 s = Inr s'" "base_idx s' = 1" "acked_count s' = 11"
    using c N by auto
  with s(1) c show ?thesis by blast
qed



section \<open>Packets, chunks and timers\<close>

text \<open>
  C19. A packet's string, generated for the first time or taken from its cache, passes the
  check for data, gives its number back and carries the data after a header of
  \<open>d + 32\<close> characters.
\<close>

theorem packet_string_roundtrip:
  assumes "fits d k" and "generatePacketString (new_Packet (int d) k data) = (str, p)"
  shows "checkPacketIntegrity str (int d) False = Inr True \<and>
    extract_seq_num str (int d) = Inr k \<and> drop (d + 32) str = data \<and>
    length str = d + 32 + length data \<and> generatePacketString p = (str, p)"
proof -
  have ok: "packet_ok d (new_Packet (int d) k data)" by (rule packet_ok_new [OF assms(1)])
  have "seqnum (new_Packet (int d) k data) = k" "packet_data (new_Packet (int d) k data) = data"
    by (simp_all add: new_Packet_def)
  then have str: "str = datagram d k data"
    using generatePacketString_ok(1) [OF ok] assms(2) by simp
  moreover have "cached p" "packetString p = str"
    using assms(2) by (auto simp: generatePacketString_def new_Packet_def Let_def)
  ultimately show ?thesis
    using datagram_roundtrip [OF assms(1), of data] by (simp add: generatePacketString_def)
qed

lemma packet_string_roundtrip_witness:
  "\<exists>str p. generatePacketString (new_Packet 4 42 ''data'') = (str, p) \<and>
     extract_seq_num str 4 = Inr 42 \<and> drop 36 str = ''data'' \<and> length str = 40"
proof -
  obtain str p where g: "generatePacketString (new_Packet (int 4) 42 ''data'') = (str, p)"
    by (cases "generatePacketString (new_Packet (int 4) 42 ''data'')") auto
  have "fits 4 42" by (simp add: fits_def INT_MAX_def)
  from packet_string_roundtrip [OF this g] g show ?thesis by auto
qed

text \<open>Reading a file chunk by chunk, as \<open>sendChunk\<close> does while chunks remain.\<close>

lemma file_read_completely:
  assumes "fs name = Some contents" and "0 < n" and "n < INT_MAX"
    and "int (length contents) < INT_MAX" and "length contents < fuel"
  shows "\<exists>dp cs. new_DataProcessor fs name n = Inr dp \<and>
    drain remainingChunks readChunk getCurrentChunkSize fuel dp = Inr cs \<and>
    concat cs = contents \<and> (\<forall>c \<in> set cs. c \<noteq> [] \<and> int (length c) \<le> n)"
proof -
  obtain dp where dp: "new_DataProcessor fs name n = Inr dp" "dp_wf dp"
    "dp_left dp = chunks (nat n) contents"
    using new_DataProcessor_wf [of fs name contents n] assms by blast
  have pieces: "c \<noteq> [] \<and> int (length c) \<le> n" if "c \<in> set (chunks (nat n) contents)" for c
    using chunks_pieces [OF that] assms(2) by auto
  have "length (chunks (nat n) contents) \<le> length contents"
    using length_packets_of_le [of n "[contents]"] assms(2) by simp
  then have "drain remainingChunks readChunk getCurrentChunkSize fuel dp =
      Inr (chunks (nat n) contents)"
    using dp.drain_left [OF dp(2), of fuel] dp(3) assms(5) by simp
  then show ?thesis using dp(1) pieces assms(2) by auto
qed

text \<open>
  The first \<open>F\<close> bytes of a chunk are split in packets; all but the last have exactly
  \<open>packet_size\<close> bytes, and none is empty.
\<close>

lemma chunk_split_completely:
  assumes "0 < n" and "F \<le> length raw" and "int F \<le> INT_MAX" and "int n \<le> INT_MAX"
  shows "\<exists>ps. generatePacketsData (int n) raw (int F) = Inr ps \<and> concat ps = take F raw \<and>
    (\<forall>p \<in> set ps. p \<noteq> [] \<and> length p \<le> n) \<and> (\<forall>p \<in> set (butlast ps). length p = n)"
proof -
  let ?ps = "chunks n (take F raw)"
  have "length p = n" if "p \<in> set (butlast ?ps)" for p
  proof -
    obtain i where "i < length (butlast ?ps)" "butlast ?ps ! i = p"
      using \<open>p \<in> set (butlast ?ps)\<close> by (metis in_set_conv_nth)
    then have i: "i < length ?ps - 1" "p = ?ps ! i" by (auto simp: nth_butlast)
    then have lt: "i < length ?ps" "Suc i < length ?ps" by auto
    have "drop (Suc i) ?ps \<noteq> []" using lt by simp
    then have "drop (Suc i * n) (take F raw) \<noteq> []"
      using drop_chunks [OF assms(1), of "Suc i" "take F raw"] assms(1) by simp
    then have "Suc i * n < length (take F raw)" by (metis drop_eq_Nil linorder_not_less)
    moreover have "p = take n (drop (i * n) (take F raw))"
      using nth_chunks [OF assms(1) lt(1)] i(2) by simp
    ultimately have "length p = min (length (take F raw) - i * n) n" "n \<le> length (take F raw) - i * n"
      by (simp_all only: length_take length_drop mult_Suc)
    then show ?thesis by linarith
  qed
  then show ?thesis
    using generatePacketsData_chunks [OF assms] chunks_pieces [of _ n "take F raw"] assms(1)
    by (intro exI [of _ ?ps]) simp
qed

text \<open>
  C23. Reading a file chunk by chunk, as \<open>sendChunk\<close> does while chunks remain, gives the
  file, in pieces that are not empty and not longer than a chunk; and each of these is split in
  packets that together are the piece, of exactly \<open>packet_size\<close> bytes but for the last,
  and none empty.
\<close>

theorem file_cut_completely:
  assumes "fs name = Some contents" and "0 < n" and "n < INT_MAX"
    and "int (length contents) < INT_MAX" and "length contents < fuel" and "0 < k" and "int k \<le> INT_MAX"
  shows "\<exists>dp cs. new_DataProcessor fs name n = Inr dp \<and>
    drain remainingChunks readChunk getCurrentChunkSize fuel dp = Inr cs \<and> concat cs = contents \<and>
    (\<forall>c \<in> set cs. c \<noteq> [] \<and> int (length c) \<le> n \<and>
      (\<exists>ps. generatePacketsData (int k) c (int (length c)) = Inr ps \<and> concat ps = c \<and>
        (\<forall>p \<in> set ps. p \<noteq> [] \<and> length p \<le> k) \<and> (\<forall>p \<in> set (butlast ps). length p = k)))"
proof -
  obtain dp cs where cs: "new_DataProcessor fs name n = Inr dp"
    "drain remainingChunks readChunk getCurrentChunkSize fuel dp = Inr cs" "concat cs = contents"
    "\<forall>c \<in> set cs. c \<noteq> [] \<and> int (length c) \<le> n"
    using file_read_completely [of fs name contents n fuel] assms(1-5) by blast
  have "\<exists>ps. generatePacketsData (int k) c (int (length c)) = Inr ps \<and> concat ps = c \<and>
        (\<forall>p \<in> set ps. p \<noteq> [] \<and> length p \<le> k) \<and> (\<forall>p \<in> set (butlast ps). length p = k)"
    if "c \<in> set cs" for c
    using chunk_split_completely [OF assms(6), of "length c" c] cs(4) that assms(3,7) by fastforce
  with cs show ?thesis by blast
qed

lemma file_cut_completely_witness:
  "\<exists>dp cs. new_DataProcessor demo_files ''file'' 2 = Inr dp \<and>
     drain remainingChunks readChunk getCurrentChunkSize 9 dp = Inr cs \<and> concat cs = ''abc'' \<and>
     (\<forall>c \<in> set cs. \<exists>ps. generatePacketsData 1 c (int (length c)) = Inr ps \<and> concat ps = c)"
proof -
  have h: "demo_files ''file'' = Some ''abc''" "(0 :: int) < 2" "(2 :: int) < INT_MAX"
    "int (length ''abc'') < INT_MAX" "length ''abc'' < 9" "0 < (1 :: nat)" "int 1 \<le> INT_MAX"
    by (simp_all add: demo_files_def INT_MAX_def)
  obtain dp cs where "new_DataProcessor demo_files ''file'' 2 = Inr dp"
    "drain remainingChunks readChunk getCurrentChunkSize 9 dp = Inr cs" "concat cs = ''abc''"
    and c: "\<forall>c \<in> set cs. \<exists>ps. generatePacketsData (int 1) c (int (length c)) = Inr ps \<and> concat ps = c"
    using file_cut_completely [of demo_files "''file''" "''abc''" 2 9 1, OF h] by (elim exE conjE) metis
  then show ?thesis unfolding of_nat_1 by (intro exI conjI)
qed

lemma timer_fires_once:
  assumes "reach timer_init timer_step (t, x)"
  shows "calls x \<le> 1 \<and> (0 < calls x \<longrightarrow> deadline x \<le> t)"
  using timer_sys.inv_reach [OF assms] by simp

lemma timer_reach_start: "reach timer_init timer_step (0, startTimeout 0 10 False)"
  by (rule reach_init) (auto simp: timer_init_def)

lemma stopped_timer_never_fires:
  assumes "reach timer_init timer_step (t, x)" and "thread x = Waiting"
    and "run timer_step (t, timer_stop x) (t', x')"
  shows "calls x' = 0"
proof -
  have "timer_inv (t, x)" by (rule timer_sys.inv_reach [OF assms(1)])
  then have "cancelled (t, timer_stop x)"
    using assms(2) by (auto simp: cancelled_def timer_ops)
  then have "cancelled (t', x')" using timer_cancelled.inv_run [OF assms(3)] by blast
  then show ?thesis by (simp add: cancelled_def)
qed

text \<open>
  C24. A timer calls its function at most once, and not before its time is over; one that is
  stopped while its thread still waits never calls it.
\<close>

theorem timer_calls_at_most_once:
  assumes "reach timer_init timer_step (t, x)"
  shows "calls x \<le> 1 \<and> (0 < calls x \<longrightarrow> deadline x \<le> t) \<and>
    (\<forall>t' x'. thread x = Waiting \<and> run timer_step (t, timer_stop x) (t', x') \<longrightarrow> calls x' = 0)"
  using timer_fires_once [OF assms] stopped_timer_never_fires [OF assms] by blast

lemma timer_calls_at_most_once_witness:
  "calls (thread_exit (the (thread_wait 10 (startTimeout 0 10 False)))) = 1 \<and>
   deadline (thread_exit (the (thread_wait 10 (startTimeout 0 10 False)))) \<le> 10 \<and>
   calls (the (thread_wait 99 (timer_stop (startTimeout 0 10 False)))) = 0"
proof -
  let ?t = "startTimeout 0 10 False" and ?u = "the (thread_wait 10 (startTimeout 0 10 False))"
  have w: "thread_wait 10 ?t = Some ?u" "thread ?u = Firing" by (simp_all add: timer_ops)
  have "reach timer_init timer_step (10, ?t)"
    by (rule reach_step [OF timer_reach_start]) (simp add: timer_step.tick)
  then have "reach timer_init timer_step (10, ?u)"
    by (rule reach_step) (rule timer_step.wait_over [OF w(1)])
  then have "reach timer_init timer_step (10, thread_exit ?u)"
    by (rule reach_step) (rule timer_step.called [OF w(2)])
  note fired = timer_calls_at_most_once [OF this]
  let ?v = "the (thread_wait 99 (timer_stop ?t))"
  have v: "thread_wait 99 (timer_stop ?t) = Some ?v" by (simp add: timer_ops)
  have "timer_step (0, timer_stop ?t) (99, timer_stop ?t)" by (simp add: timer_step.tick)
  moreover have "timer_step (99, timer_stop ?t) (99, ?v)" by (rule timer_step.wait_over [OF v])
  ultimately have "run timer_step (0, timer_stop ?t) (99, ?v)" by (blast intro: run_step)
  moreover have "thread ?t = Waiting" by simp
  ultimately have "calls ?v = 0" using timer_calls_at_most_once [OF timer_reach_start] by blast
  with fired show ?thesis by (simp add: timer_ops)
qed



text \<open>
  \<open>startTimeout\<close> never makes a detached timer: its flag ends up as the interval
  \<open>delta_check_ms\<close>, and the destructor of the timer it returns waits for the thread.
\<close>

lemma startTimeout_ignores_detach:
  "\<not> detach (startTimeout t ms det) \<and> dtor_blocks (startTimeout t ms det) \<and>
   delta_check_ms (startTimeout t ms True) = min ms 1"
  by (auto simp: timer_ops)

section \<open>The command line\<close>



text \<open>The guard against overflow multiplies in 32 bits; with a sign, the bound itself overflows.\<close>

lemma integer_option_overflow:
  "integer_parser Int32 ''4294967300'' = Inr 4 \<and>
   integer_parser Int32 ''-1'' = Inl (Undefined Signed_overflow) \<and>
   integer_parser Int16 ''-1'' = Inr (- 1)"
  by (simp add: integer_parser_def integer_match_def is_alnum_def is_digit_def digit_of_def
      us_product_def check_signed_range_def type_max_def int_signed_def checked_negate_def
      wrap_signed_def)

text \<open>
  C27. For each of the eight integer types: a decimal number, with any leading zeros, that
  fits the unsigned type of the width, or any at all for the types narrower than \<open>int\<close>,
  is accepted exactly when it is at most the type's maximum. Above, the guard against overflow is
  not one: \<open>4294967300\<close> is read as 4. And the bound for \<open>int\<close> with a sign overflows itself.
\<close>

theorem integer_option_range:
  assumes "list_all is_digit ds" and "ds \<noteq> []"
    and "digits_val ds < 2 ^ int_width ty \<or> int_width ty < 32"
  shows "integer_parser ty ds =
      (if digits_val ds \<le> type_max ty then Inr (int (digits_val ds))
       else Inl (Throws (Argument_incorrect_type ds))) \<and>
    integer_parser Int32 ''4294967300'' = Inr 4 \<and>
    integer_parser Int32 ''-1'' = Inl (Undefined Signed_overflow) \<and>
    integer_parser Int16 ''-1'' = Inr (- 1)"
  using assms(3) integer_parser_digits [OF assms(1,2)] integer_parser_narrow [OF assms(1,2)]
    integer_option_overflow by blast

lemma integer_option_range_witness:
  "integer_parser Int32 ''2147483648'' = Inl (Throws (Argument_incorrect_type ''2147483648'')) \<and>
   integer_parser Uint8 ''1000'' = Inl (Throws (Argument_incorrect_type ''1000''))"
  using integer_option_range [of "''2147483648''" Int32] integer_option_range [of "''1000''" Uint8]
  by (simp add: is_digit_def digits_val_def digit_val_def type_max_def int_signed_def)

lemma initClientFromInput_documented:
  assumes "printable subj"
  shows "initClientFromInput fs clock (client_args subj) =
    new_Client fs clock (getServer_host subj) (getFilename subj) (getWindow_size subj)
      (getPacket_size subj) (getMax_seq_number subj) (getServer_port subj) (getClient_port subj)"
proof -
  obtain opts where opts: "m_options opts = client_map" "m_positional opts = []"
    "\<not> m_allow_unrecognised opts" "declare_options client_opts
       (new_Options ''SecureOverUDPClient'' ''Secure Over UDP Client'') = Inr opts"
    using declared_options by blast
  obtain st where st: "parse_args client_map [] False (client_args subj) = Inr st"
    "m_results st = client_results subj"
    using parse_client_args [OF assms] by blast
  have results: "result_of client_map st name = Inr v"
    if "find_option client_map name = Some i" "client_results subj i = Some v" for name i v
    using that st(2) by (simp add: result_of_def)
  have all: "check_present client_opts client_map st = Inr ()"
    using results [OF client_map_find(1)] results [OF client_map_find(2)]
      results [OF client_map_find(3)] results [OF client_map_find(4)]
      results [OF client_map_find(5)] results [OF client_map_find(6)]
      results [OF client_map_find(7)]
    by (simp add: client_opts_def client_results_def)
  show ?thesis
    using opts st(1) all results [OF client_map_find(1)] results [OF client_map_find(2)]
      results [OF client_map_find(3)] results [OF client_map_find(4)]
      results [OF client_map_find(5)] results [OF client_map_find(6)]
      results [OF client_map_find(7)]
    by (simp add: initClientFromInput_def options_parse_def catch_type_error_def as_string_def
        as_int_def client_results_def)
qed




lemma check_present_missing:
  assumes "opt \<in> set opts" and "result_of m st (opt_name opt) = Inr v" and "ov_count v < 1"
    and "\<And>o'. o' \<in> set opts \<Longrightarrow> \<exists>v. result_of m st (opt_name o') = Inr v"
  shows "\<exists>o' v'. o' \<in> set opts \<and> result_of m st (opt_name o') = Inr v' \<and> ov_count v' < 1 \<and>
    check_present opts m st =
      Inl (invalid_option (opt_name o') (opt_description o') ''Option is missing'')"
  using assms
proof (induction opts)
  case (Cons o1 opts)
  obtain v1 where v1: "result_of m st (opt_name o1) = Inr v1" using Cons.prems(4) by force
  show ?case
  proof (cases "ov_count v1 < 1")
    case True
    then show ?thesis using v1 by (intro exI [of _ o1] exI [of _ v1]) simp
  next
    case False
    then have "opt \<in> set opts" using Cons.prems(1-3) v1 by auto
    then show ?thesis using Cons.IH Cons.prems v1 False by fastforce
  qed
qed simp

lemma client_map_declared: "opt \<in> set client_opts \<Longrightarrow> \<exists>i. find_option client_map (opt_name opt) = Some i"
  by (auto simp: client_opts_def client_map_find)

text \<open>
  C29. A call that parses but lacks an option ends with exit status 1 and the message for
  one of the missing options.
\<close>

theorem missing_option_reported:
  assumes "parse_args client_map [] False args = Inr st"
    and "opt \<in> set client_opts" and "result_count client_map st (opt_name opt) = Inr 0"
  shows "\<exists>opt' msg. opt' \<in> set client_opts \<and> result_count client_map st (opt_name opt') = Inr 0 \<and>
    invalid_option (opt_name opt') (opt_description opt') ''Option is missing'' =
      Throws (Invalid_client_input msg) \<and>
    client_main fs t0 args = Exit 1 msg"
proof -
  obtain opts where opts: "m_options opts = client_map" "m_positional opts = []"
    "\<not> m_allow_unrecognised opts" "declare_options client_opts
       (new_Options ''SecureOverUDPClient'' ''Secure Over UDP Client'') = Inr opts"
    using declared_options by blast
  have found: "\<exists>v. result_of client_map st (opt_name o1) = Inr v \<and>
      result_count client_map st (opt_name o1) = Inr (ov_count v)" if o1: "o1 \<in> set client_opts" for o1
  proof -
    obtain i where "find_option client_map (opt_name o1) = Some i" using client_map_declared [OF o1] by blast
    moreover from this obtain v where "m_results st i = Some v"
      using parse_args_ok(2) [OF assms(1)] by blast
    ultimately show ?thesis by (simp add: result_of_def result_count_def)
  qed
  then obtain v where v: "result_of client_map st (opt_name opt) = Inr v" "ov_count v < 1"
    using assms(2,3) by fastforce
  obtain opt' v' where o': "opt' \<in> set client_opts" "result_of client_map st (opt_name opt') = Inr v'"
    "ov_count v' < 1" "check_present client_opts client_map st =
       Inl (invalid_option (opt_name opt') (opt_description opt') ''Option is missing'')"
    using check_present_missing [OF assms(2) v] found by blast
  then have "result_count client_map st (opt_name opt') = Inr 0" using found by fastforce
  moreover obtain msg where "invalid_option (opt_name opt') (opt_description opt') ''Option is missing'' =
      Throws (Invalid_client_input msg)" by (simp add: invalid_option_def)
  ultimately show ?thesis using o'(1,4) assms(1) opts
    by (auto simp: client_main_def initClientFromInput_def options_parse_def catch_type_error_def)
qed

lemma missing_option_reported_witness: "\<exists>msg. client_main demo_files 0 [] = Exit 1 msg"
proof -
  obtain st where st: "parse_args client_map [] False [] = Inr st"
    "result_count client_map st (opt_name (hd client_opts)) = Inr 0"
    by (simp add: parse_args_def new_parse_state_def client_map_def client_opts_def upt_rec
        result_at_def empty_value_def details_def new_OptionDetails_def standard_value_def
        result_count_def find_option_def option_names)
  have "hd client_opts \<in> set client_opts" by (simp add: client_opts_def)
  from missing_option_reported [OF st(1) this st(2)] show ?thesis by blast
qed

text \<open>An option the client does not know.\<close>

lemma unknown_option_escapes:
  assumes "long_name name" and "one_line v" and "find_option client_map name = None"
  shows "client_main fs t0 (assign_arg name v # rest) =
    Aborted (Throws (Option_not_exists_exception name))"
proof -
  obtain opts where opts: "m_options opts = client_map" "m_positional opts = []"
    "\<not> m_allow_unrecognised opts" "declare_options client_opts
       (new_Options ''SecureOverUDPClient'' ''Secure Over UDP Client'') = Inr opts"
    using declared_options by blast
  have "parse_args client_map [] False (assign_arg name v # rest) =
      Inl (Throws (Option_not_exists_exception name))"
    using match_assign_arg [OF assms(1,2)] assms(3)
    by (simp add: parse_args_def parse_one_def parse_long_def)
  then show ?thesis
    using opts
    by (simp add: client_main_def initClientFromInput_def options_parse_def catch_type_error_def)
qed

text \<open>Nor is the error for a file that does not exist caught.\<close>

lemma uncaught_errors_escape:
  assumes "long_name name" and "one_line v" and "find_option client_map name = None"
    and "printable subj" and "fs (getFilename subj) = None"
  shows "client_main fs t0 (assign_arg name v # rest) =
      Aborted (Throws (Option_not_exists_exception name)) \<and>
    client_main fs t0 (client_args subj) =
      Aborted (Throws (Runtime_error (''File '' @ getFilename subj @ '' does not exist'')))"
  using unknown_option_escapes [OF assms(1-3)] initClientFromInput_documented [OF assms(4)]
    new_DataProcessor_missing [of fs "getFilename subj"] assms(5)
  by (simp add: client_main_def new_Client_def new_ClientSender_def)

text \<open>The conversion of the power of ten to \<open>int\<close>.\<close>

lemma too_many_digits_undefined:
  assumes "printable subj" and "readable fs subj contents" and "10 \<le> getMax_seq_number subj"
  shows "client_main fs t0 (client_args subj) = Aborted (Undefined Float_to_int)"
proof -
  obtain dp where "new_DataProcessor fs (getFilename subj) CHUNK_SIZE = Inr dp"
    using new_DataProcessor_wf [of fs "getFilename subj" contents CHUNK_SIZE] assms(2)
    by (auto simp: readable_def CHUNK_SIZE_def INT_MAX_def)
  then show ?thesis
    using initClientFromInput_documented [OF assms(1)] assms(3)
    by (simp add: client_main_def new_Client_def new_ClientSender_def pow10_minus_1_def)
qed

text \<open>
  C30. Of the errors of a call, only a value of the wrong type and a missing option are caught: an
  option the client does not know leaves \<open>main\<close> as an exception, and so does the error for a file
  that does not exist. Ten or more digits for the sequence number are not refused: the
  conversion of the power of ten to \<open>int\<close> is undefined.
\<close>

theorem bad_calls_escape:
  assumes "long_name name" and "one_line v" and "find_option client_map name = None"
    and "printable subj" and "fs (getFilename subj) = None"
    and "printable subj'" and "readable fs subj' contents" and "10 \<le> getMax_seq_number subj'"
  shows "client_main fs t0 (assign_arg name v # rest) =
      Aborted (Throws (Option_not_exists_exception name)) \<and>
    client_main fs t0 (client_args subj) =
      Aborted (Throws (Runtime_error (''File '' @ getFilename subj @ '' does not exist''))) \<and>
    client_main fs t0 (client_args subj') = Aborted (Undefined Float_to_int)"
  using uncaught_errors_escape [where fs = fs, OF assms(1-5)] too_many_digits_undefined [OF assms(6-8)] by blast

lemma bad_calls_escape_witness:
  "client_main demo_files 0 [assign_arg ''verbose'' ''1''] =
      Aborted (Throws (Option_not_exists_exception ''verbose'')) \<and>
   client_main demo_files 0 (client_args (demo_subject\<lparr>getFilename := ''none''\<rparr>)) =
      Aborted (Throws (Runtime_error ''File none does not exist'')) \<and>
   client_main demo_files 0 (client_args (demo_subject\<lparr>getMax_seq_number := 10\<rparr>)) =
     Aborted (Undefined Float_to_int)"
proof -
  let ?none = "demo_subject\<lparr>getFilename := ''none''\<rparr>" and ?ten = "demo_subject\<lparr>getMax_seq_number := 10\<rparr>"
  have a: "long_name ''verbose''" "one_line ''1''" "find_option client_map ''verbose'' = None"
    by (simp_all add: long_name_def is_name_char_def is_alnum_def is_digit_def one_line_def
      find_option_def client_map_def client_opts_def option_names upt_rec)
  have b: "printable ?none" "demo_files (getFilename ?none) = None"
    by (simp_all add: printable_def demo_subject_def one_line_def INT_MAX_def demo_files_def)
  have c: "printable ?ten" "readable demo_files ?ten ''abc''" "10 \<le> getMax_seq_number ?ten"
    by (simp_all add: printable_def demo_subject_def one_line_def INT_MAX_def readable_def demo_files_def)
  from bad_calls_escape [OF a b c, of 0 "[]"] show ?thesis by simp
qed

end
